(* ===== verification/OS_Prelude.thy ===== *)
theory OS_Prelude
  imports Main "HOL-Library.Word" "HOL-Library.Signed_Division"
begin

text \<open>
  Shared vocabulary of the development: the C integer types of the sources
  (\<^verbatim>\<open>int\<close> as \<open>int\<close> kept in range by \<open>swrap\<close>, \<^verbatim>\<open>uint\<close> as \<open>32 word\<close>), the search loop
  over a fixed-size table, bounded buffer writes, C strings inside buffers, and the
  transition-system locale that the kernel and the hash tables instantiate.
\<close>

named_theorems table_simps \<open>facts about fixed-size tables and the loops that scan them\<close>
named_theorems buf_simps \<open>facts about C buffers and the strings stored in them\<close>

type_synonym u32 = "32 word"
type_synonym u8 = "8 word"

text \<open>The range of a C \<^verbatim>\<open>int\<close>, and signed arithmetic as the compiled code performs it.\<close>

definition INT_MAX :: int where
  "INT_MAX = 2147483647"

definition INT_MIN :: int where
  "INT_MIN = - 2147483648"

definition swrap :: "int \<Rightarrow> int" where
  "swrap x = (x + 2147483648) mod 4294967296 - 2147483648"

definition in_int :: "int \<Rightarrow> bool" where
  "in_int x \<longleftrightarrow> INT_MIN \<le> x \<and> x \<le> INT_MAX"

text \<open>The first index of a table whose entry satisfies a test: the shape of every scanning loop.\<close>

fun find_idx :: "('a \<Rightarrow> bool) \<Rightarrow> 'a list \<Rightarrow> nat option" where
  "find_idx P [] = None"
| "find_idx P (x # xs) = (if P x then Some 0 else map_option Suc (find_idx P xs))"

text \<open>Update of one entry through a function; outside the table nothing is written.\<close>

definition upd_at :: "nat \<Rightarrow> ('a \<Rightarrow> 'a) \<Rightarrow> 'a list \<Rightarrow> 'a list" where
  "upd_at i f xs = (if i < length xs then xs[i := f (xs ! i)] else xs)"

text \<open>A C string stored in a buffer: the bytes before the first NUL.\<close>

abbreviation NUL :: char where
  "NUL \<equiv> CHR 0x00"

abbreviation NL :: char where
  "NL \<equiv> CHR 0x0A"

definition cstr :: "string \<Rightarrow> string" where
  "cstr b = takeWhile (\<lambda>c. c \<noteq> NUL) b"

definition terminated :: "string \<Rightarrow> bool" where
  "terminated b \<longleftrightarrow> NUL \<in> set b"

subsection \<open>Integers\<close>

lemma swrap_id: "in_int x \<Longrightarrow> swrap x = x"
  by (simp add: swrap_def in_int_def INT_MIN_def INT_MAX_def)

lemma swrap_nonneg: "0 \<le> x \<Longrightarrow> x \<le> INT_MAX \<Longrightarrow> swrap x = x"
  by (rule swrap_id) (simp add: in_int_def INT_MIN_def)

lemma swrap_in_int: "in_int (swrap x)"
proof -
  have "0 \<le> (x + 2147483648) mod 4294967296" "(x + 2147483648) mod 4294967296 < 4294967296"
    by simp_all
  then show ?thesis unfolding swrap_def in_int_def INT_MIN_def INT_MAX_def by linarith
qed

subsection \<open>Tables\<close>

lemma find_idx_Some [table_simps]:
  "find_idx P xs = Some i \<longleftrightarrow> i < length xs \<and> P (xs ! i) \<and> (\<forall>j<i. \<not> P (xs ! j))"
proof (induction xs arbitrary: i)
  case Nil
  then show ?case by simp
next
  case (Cons x xs)
  show ?case
    by (cases i) (auto simp: Cons.IH less_Suc_eq_0_disj)
qed

lemma find_idx_None [table_simps]:
  "find_idx P xs = None \<longleftrightarrow> (\<forall>i<length xs. \<not> P (xs ! i))"
  by (induction xs) (auto simp: less_Suc_eq_0_disj)

lemma find_idx_SomeD:
  "find_idx P xs = Some i \<Longrightarrow> i < length xs"
  "find_idx P xs = Some i \<Longrightarrow> P (xs ! i)"
  "find_idx P xs = Some i \<Longrightarrow> j < i \<Longrightarrow> \<not> P (xs ! j)"
  by (simp_all add: find_idx_Some)

lemma length_upd_at [simp]: "length (upd_at i f xs) = length xs"
  by (simp add: upd_at_def)

lemma nth_upd_at [table_simps]:
  "j < length xs \<Longrightarrow> upd_at i f xs ! j = (if j = i then f (xs ! j) else xs ! j)"
  by (auto simp: upd_at_def nth_list_update)

lemma upd_at_out [simp]: "\<not> i < length xs \<Longrightarrow> upd_at i f xs = xs"
  by (simp add: upd_at_def)

lemma upd_at_upd_at_same: "upd_at i f (upd_at i g xs) = upd_at i (\<lambda>x. f (g x)) xs"
  by (simp add: upd_at_def)

subsection \<open>Buffers\<close>

lemma cstr_no_NUL [buf_simps]: "NUL \<notin> set (cstr b)"
  by (auto simp: cstr_def dest: set_takeWhileD)

lemma cstr_append_NUL [buf_simps]: "NUL \<notin> set s \<Longrightarrow> cstr (s @ NUL # r) = s"
  unfolding cstr_def by (subst takeWhile_append2) auto

lemma cstr_id [buf_simps]: "NUL \<notin> set s \<Longrightarrow> cstr s = s"
  unfolding cstr_def by (subst takeWhile_eq_all_conv) auto

lemma cstr_all_NUL: "set b \<subseteq> {NUL} \<Longrightarrow> cstr b = []"
  by (cases b) (auto simp: cstr_def)

lemma length_cstr_le: "length (cstr b) \<le> length b"
  by (simp add: cstr_def length_takeWhile_le)

subsection \<open>Transition systems\<close>

text \<open>
  A component that runs by steps: the states it may start in, its step relation and an
  invariant. What the contract gives is that every reachable state satisfies the invariant.
\<close>

locale transition_system =
  fixes init :: "'s \<Rightarrow> bool"
    and step :: "'s \<Rightarrow> 's \<Rightarrow> bool"
    and inv :: "'s \<Rightarrow> bool"
  assumes init_inv: "init s \<Longrightarrow> inv s"
    and step_inv: "inv s \<Longrightarrow> step s t \<Longrightarrow> inv t"
begin

lemma run_inv: "step\<^sup>*\<^sup>* s t \<Longrightarrow> inv s \<Longrightarrow> inv t"
  by (induction rule: rtranclp_induct) (auto intro: step_inv)

lemma reachable_inv: "init s \<Longrightarrow> step\<^sup>*\<^sup>* s t \<Longrightarrow> inv t"
  by (blast intro: run_inv init_inv)

lemma reachable_stable:
  assumes "init s" and "step\<^sup>*\<^sup>* s t" and "P s"
    and "\<And>u v. inv u \<Longrightarrow> P u \<Longrightarrow> step u v \<Longrightarrow> P v"
  shows "P t"
proof -
  from assms(2) have "inv t \<and> P t"
    by (induction rule: rtranclp_induct) (use assms(1,3,4) in \<open>auto intro: init_inv step_inv\<close>)
  then show ?thesis by simp
qed

end

text \<open>
  A transition system that implements an abstract one: every step is seen as no step or as a
  step of the specification, so a run is seen as a run of it.
\<close>

locale simulation = transition_system init step inv
  for init :: "'s \<Rightarrow> bool" and step :: "'s \<Rightarrow> 's \<Rightarrow> bool" and inv :: "'s \<Rightarrow> bool" +
  fixes abs :: "'s \<Rightarrow> 'a" and astep :: "'a \<Rightarrow> 'a \<Rightarrow> bool"
  assumes step_sim: "inv s \<Longrightarrow> step s t \<Longrightarrow> abs t = abs s \<or> astep (abs s) (abs t)"
begin

lemma run_sim: "step\<^sup>*\<^sup>* s t \<Longrightarrow> inv s \<Longrightarrow> astep\<^sup>*\<^sup>* (abs s) (abs t)"
proof (induction rule: rtranclp_induct)
  case (step t u)
  have "inv t" by (rule run_inv[OF step.hyps(1) step.prems])
  from step_sim[OF this step.hyps(2)] step.IH[OF step.prems] show ?case
    by (auto intro: rtranclp.rtrancl_into_rtrancl)
qed simp

lemma reachable_sim: "init s \<Longrightarrow> step\<^sup>*\<^sup>* s t \<Longrightarrow> astep\<^sup>*\<^sup>* (abs s) (abs t)"
  by (blast intro: run_sim init_inv)

end

end
