(* ===== verification/Proc.thy ===== *)
theory Proc
  imports OS_Prelude
begin

text \<open>
  The process component of the xv6 kernel: the data of \<^verbatim>\<open>src/hw3/proc.h\<close> and the operations of
  \<^verbatim>\<open>src/hw3/proc.c\<close>. The process table is a list (its length is NPROC), a process
  pointer is an index into it, and \<open>None\<close> is the null pointer. Everything the file calls
  but the repository does not contain (page allocator, virtual memory, files, inodes,
  spinlocks, the random generator) is a field of the record \<open>kenv\<close> over an opaque
  external state \<open>'x\<close>. A kernel operation runs up to the point where it calls
  \<^verbatim>\<open>swtch\<close>; what the saved context would continue with is recorded as a \<open>kcont\<close>.
\<close>

section \<open>Data\<close>

datatype procstate = UNUSED | EMBRYO | SLEEPING | RUNNABLE | RUNNING | ZOMBIE

text \<open>The value of the enumeration constant, which C compares and uses as an index.\<close>

fun state_num :: "procstate \<Rightarrow> nat" where
  "state_num UNUSED = 0"
| "state_num EMBRYO = 1"
| "state_num SLEEPING = 2"
| "state_num RUNNABLE = 3"
| "state_num RUNNING = 4"
| "state_num ZOMBIE = 5"

lemma state_num_eq_iff [simp]: "state_num a = state_num b \<longleftrightarrow> a = b"
  by (cases a; cases b) simp_all

instantiation procstate :: linorder
begin

definition less_eq_procstate :: "procstate \<Rightarrow> procstate \<Rightarrow> bool" where
  "less_eq_procstate a b \<longleftrightarrow> state_num a \<le> state_num b"

definition less_procstate :: "procstate \<Rightarrow> procstate \<Rightarrow> bool" where
  "less_procstate a b \<longleftrightarrow> state_num a < state_num b"

instance
  by standard (auto simp: less_eq_procstate_def less_procstate_def dest: le_antisym)

end

datatype lockid = PtableLock | TicksLock | OtherLock nat

datatype chan = ChProc nat | ChTicks | ChOther u32

text \<open>Where a process that called \<^verbatim>\<open>swtch\<close> continues.\<close>

datatype kcont = KForkret | KYield | KWait | KSysSleep u32 int | KSleep lockid | KExit

record trapframe =
  tf_eax :: u32
  tf_esp :: u32
  tf_eip :: u32
  tf_cs :: u32
  tf_ds :: u32
  tf_es :: u32
  tf_ss :: u32
  tf_eflags :: u32

record kcontext =
  c_edi :: u32
  c_esi :: u32
  c_ebx :: u32
  c_ebp :: u32
  c_eip :: u32

record proc =
  p_sz :: u32
  p_pgdir :: u32
  p_kstack :: u32
  p_state :: procstate
  p_pid :: int
  p_parent :: "nat option"
  p_tf :: trapframe
  p_tfaddr :: u32
  p_retslot :: "u32 \<times> u32"
  p_context :: kcontext
  p_ctxaddr :: u32
  p_kcont :: kcont
  p_intena :: int
  p_chan :: "chan option"
  p_killed :: int
  p_ofile :: "u32 list"
  p_cwd :: u32
  p_name :: string
  p_tickets :: int

text \<open>The code outside the repository, with the constants of its headers.\<close>

record 'x kenv =
  e_KSTACKSIZE :: u32
  e_sizeof_tf :: u32
  e_PGSIZE :: u32
  e_forkret :: u32
  e_trapret :: u32
  e_user_cs :: u32
  e_user_ds :: u32
  e_FL_IF :: u32
  e_kalloc :: "'x \<Rightarrow> u32 \<times> 'x"
  e_kfree :: "u32 \<Rightarrow> 'x \<Rightarrow> 'x"
  e_setupkvm :: "'x \<Rightarrow> u32 \<times> 'x"
  e_inituvm :: "u32 \<Rightarrow> 'x \<Rightarrow> 'x"
  e_copyuvm :: "u32 \<Rightarrow> u32 \<Rightarrow> 'x \<Rightarrow> u32 \<times> 'x"
  e_allocuvm :: "u32 \<Rightarrow> u32 \<Rightarrow> u32 \<Rightarrow> 'x \<Rightarrow> u32 \<times> 'x"
  e_deallocuvm :: "u32 \<Rightarrow> u32 \<Rightarrow> u32 \<Rightarrow> 'x \<Rightarrow> u32 \<times> 'x"
  e_freevm :: "u32 \<Rightarrow> 'x \<Rightarrow> 'x"
  e_switchuvm :: "proc \<Rightarrow> 'x \<Rightarrow> 'x"
  e_switchkvm :: "'x \<Rightarrow> 'x"
  e_filedup :: "u32 \<Rightarrow> 'x \<Rightarrow> u32 \<times> 'x"
  e_fileclose :: "u32 \<Rightarrow> 'x \<Rightarrow> 'x"
  e_idup :: "u32 \<Rightarrow> 'x \<Rightarrow> u32 \<times> 'x"
  e_iput :: "u32 \<Rightarrow> 'x \<Rightarrow> 'x"
  e_namei :: "string \<Rightarrow> 'x \<Rightarrow> u32 \<times> 'x"
  e_begin_op :: "'x \<Rightarrow> 'x"
  e_end_op :: "'x \<Rightarrow> 'x"
  e_fs_init :: "'x \<Rightarrow> 'x"
  e_safestrcpy :: "string \<Rightarrow> string \<Rightarrow> nat \<Rightarrow> string"
  e_initlock :: "lockid \<Rightarrow> 'x \<Rightarrow> 'x"
  e_acquire :: "lockid \<Rightarrow> 'x \<Rightarrow> 'x"
  e_release :: "lockid \<Rightarrow> 'x \<Rightarrow> 'x"
  e_holding :: "lockid \<Rightarrow> 'x \<Rightarrow> bool"
  e_ncli :: "'x \<Rightarrow> int"
  e_intena :: "'x \<Rightarrow> int"
  e_set_intena :: "int \<Rightarrow> 'x \<Rightarrow> 'x"
  e_readeflags :: "'x \<Rightarrow> u32"
  e_registers :: "'x \<Rightarrow> kcontext"
  e_sti :: "'x \<Rightarrow> 'x"
  e_hlt :: "'x \<Rightarrow> 'x"
  e_unixtime :: "'x \<Rightarrow> u32"
  e_sgenrand :: "u32 \<Rightarrow> 'x \<Rightarrow> 'x"
  e_random_at_most :: "int \<Rightarrow> 'x \<Rightarrow> int \<times> 'x"
  e_getcallerpcs :: "u32 \<Rightarrow> 'x \<Rightarrow> u32 list"
  e_ticks :: "'x \<Rightarrow> u32"
  e_cmostime :: "u32 \<Rightarrow> 'x \<Rightarrow> 'x"
  e_sizeof_rtcdate :: int
  e_umem :: "u32 \<Rightarrow> 'x \<Rightarrow> u32 \<Rightarrow> u8"

record 'x kstate =
  ptable :: "proc list"
  nextpid :: int
  initproc :: "nat option"
  forkret_first :: bool
  cpu_proc :: "nat \<Rightarrow> nat option"
  ext :: 'x

datatype kerror = Panic string | NullDeref

definition MAGIC_TICKET_NUM :: int where
  "MAGIC_TICKET_NUM = 20"

abbreviation upd_proc :: "nat \<Rightarrow> (proc \<Rightarrow> proc) \<Rightarrow> 'x kstate \<Rightarrow> 'x kstate" where
  "upd_proc i f s \<equiv> s\<lparr>ptable := upd_at i f (ptable s)\<rparr>"

abbreviation the_proc :: "'x kstate \<Rightarrow> nat \<Rightarrow> proc" where
  "the_proc s i \<equiv> ptable s ! i"

definition acquire :: "'x kenv \<Rightarrow> lockid \<Rightarrow> 'x kstate \<Rightarrow> 'x kstate" where
  "acquire E l s = s\<lparr>ext := e_acquire E l (ext s)\<rparr>"

definition release :: "'x kenv \<Rightarrow> lockid \<Rightarrow> 'x kstate \<Rightarrow> 'x kstate" where
  "release E l s = s\<lparr>ext := e_release E l (ext s)\<rparr>"

section \<open>Creation of processes\<close>

definition pinit :: "'x kenv \<Rightarrow> 'x kstate \<Rightarrow> 'x kstate" where
  "pinit E s =
     (let x = e_initlock E PtableLock (ext s)
      in s\<lparr>ext := e_sgenrand E (e_unixtime E x) x\<rparr>)"

text \<open>The part of \<^verbatim>\<open>allocproc\<close> after \<^verbatim>\<open>kalloc\<close> succeeded: laying out the kernel stack.\<close>

definition setup_kstack :: "'x kenv \<Rightarrow> u32 \<Rightarrow> proc \<Rightarrow> proc" where
  "setup_kstack E k p =
     (let sp0 = k + e_KSTACKSIZE E;
          sp1 = sp0 - e_sizeof_tf E;
          sp2 = sp1 - 4;
          sp3 = sp2 - 20
      in p\<lparr>p_kstack := k, p_tfaddr := sp1, p_retslot := (sp2, e_trapret E), p_ctxaddr := sp3,
           p_context := \<lparr>c_edi = 0, c_esi = 0, c_ebx = 0, c_ebp = 0, c_eip = e_forkret E\<rparr>,
           p_kcont := KForkret\<rparr>)"

definition allocproc :: "'x kenv \<Rightarrow> 'x kstate \<Rightarrow> nat option \<times> 'x kstate" where
  "allocproc E s =
     (let s1 = acquire E PtableLock s
      in case find_idx (\<lambda>p. p_state p = UNUSED) (ptable s1) of
           None \<Rightarrow> (None, release E PtableLock s1)
         | Some i \<Rightarrow>
             (let s2 = (upd_proc i (\<lambda>p. p\<lparr>p_state := EMBRYO, p_pid := nextpid s1,
                                          p_tickets := MAGIC_TICKET_NUM\<rparr>) s1)
                         \<lparr>nextpid := swrap (nextpid s1 + 1)\<rparr>;
                  s3 = release E PtableLock s2;
                  (k, x) = e_kalloc E (ext s3);
                  s4 = s3\<lparr>ext := x\<rparr>
              in if k = 0
                 then (None, upd_proc i (\<lambda>p. p\<lparr>p_kstack := 0, p_state := UNUSED\<rparr>) s4)
                 else (Some i, upd_proc i (setup_kstack E k) s4)))"

definition userinit :: "'x kenv \<Rightarrow> 'x kstate \<Rightarrow> kerror + 'x kstate" where
  "userinit E s =
     (case allocproc E s of
        (None, s1) \<Rightarrow> Inl NullDeref
      | (Some i, s1) \<Rightarrow>
          (let s2 = s1\<lparr>initproc := Some i\<rparr>;
               (d, x) = e_setupkvm E (ext s2);
               s3 = upd_proc i (\<lambda>p. p\<lparr>p_pgdir := d\<rparr>) (s2\<lparr>ext := x\<rparr>)
           in if d = 0 then Inl (Panic ''userinit: out of memory?'')
              else
                (let s4 = s3\<lparr>ext := e_inituvm E d (ext s3)\<rparr>;
                     (cw, x2) = e_namei E ''/'' (ext s4);
                     s5 = s4\<lparr>ext := x2\<rparr>
                 in Inr (upd_proc i (\<lambda>p. p\<lparr>p_sz := e_PGSIZE E,
                      p_tf := \<lparr>tf_eax = 0, tf_esp = e_PGSIZE E, tf_eip = 0,
                               tf_cs = e_user_cs E, tf_ds = e_user_ds E, tf_es = e_user_ds E,
                               tf_ss = e_user_ds E, tf_eflags = e_FL_IF E\<rparr>,
                      p_name := e_safestrcpy E (p_name p) ''initcode'' 16,
                      p_cwd := cw, p_state := RUNNABLE\<rparr>) s5))))"

definition growproc :: "'x kenv \<Rightarrow> nat \<Rightarrow> int \<Rightarrow> 'x kstate \<Rightarrow> int \<times> 'x kstate" where
  "growproc E me n s =
     (let p = the_proc s me;
          sz = p_sz p;
          (sz', x) = (if n > 0 then e_allocuvm E (p_pgdir p) sz (sz + word_of_int n) (ext s)
                      else if n < 0 then e_deallocuvm E (p_pgdir p) sz (sz + word_of_int n) (ext s)
                      else (sz, ext s));
          s1 = s\<lparr>ext := x\<rparr>
      in if n \<noteq> 0 \<and> sz' = 0 then (- 1, s1)
         else (let s2 = upd_proc me (\<lambda>p. p\<lparr>p_sz := sz'\<rparr>) s1
               in (0, s2\<lparr>ext := e_switchuvm E (the_proc s2 me) (ext s2)\<rparr>)))"

text \<open>The loop of \<^verbatim>\<open>fork\<close> over the open files: the parent's list against the child's.\<close>

fun dup_ofiles :: "'x kenv \<Rightarrow> u32 list \<Rightarrow> u32 list \<Rightarrow> 'x \<Rightarrow> u32 list \<times> 'x" where
  "dup_ofiles E (f # fs) (c # cs) x =
     (let (c', x1) = (if f \<noteq> 0 then e_filedup E f x else (c, x));
          (cs', x2) = dup_ofiles E fs cs x1
      in (c' # cs', x2))"
| "dup_ofiles E _ cs x = (cs, x)"

text \<open>\<^verbatim>\<open>fork\<close> after \<^verbatim>\<open>allocproc\<close> returned the slot \<open>np\<close>; the table lock is only held for the last store.\<close>

definition fork_rest :: "'x kenv \<Rightarrow> nat \<Rightarrow> nat \<Rightarrow> 'x kstate \<Rightarrow> int \<times> 'x kstate" where
  "fork_rest E me np s1 =
     (let cur = the_proc s1 me;
          (d, x) = e_copyuvm E (p_pgdir cur) (p_sz cur) (ext s1);
          s2 = upd_proc np (\<lambda>p. p\<lparr>p_pgdir := d\<rparr>) (s1\<lparr>ext := x\<rparr>)
      in if d = 0
         then (- 1, upd_proc np (\<lambda>p. p\<lparr>p_kstack := 0, p_state := UNUSED\<rparr>)
                      (s2\<lparr>ext := e_kfree E (p_kstack (the_proc s2 np)) (ext s2)\<rparr>))
         else
           (let (fs, x1) = dup_ofiles E (p_ofile cur) (p_ofile (the_proc s2 np)) (ext s2);
                (cw, x2) = e_idup E (p_cwd cur) x1;
                s3 = upd_proc np (\<lambda>p. p\<lparr>p_sz := p_sz cur, p_parent := Some me,
                       p_tf := (p_tf cur)\<lparr>tf_eax := 0\<rparr>, p_ofile := fs, p_cwd := cw,
                       p_name := e_safestrcpy E (p_name p) (p_name cur) 16\<rparr>)
                       (s2\<lparr>ext := x2\<rparr>);
                pid = p_pid (the_proc s3 np);
                s4 = acquire E PtableLock s3;
                s5 = upd_proc np (\<lambda>p. p\<lparr>p_state := RUNNABLE\<rparr>) s4
            in (pid, release E PtableLock s5)))"

definition fork :: "'x kenv \<Rightarrow> nat \<Rightarrow> 'x kstate \<Rightarrow> int \<times> 'x kstate" where
  "fork E me s =
     (case allocproc E s of
        (None, s1) \<Rightarrow> (- 1, s1)
      | (Some np, s1) \<Rightarrow> fork_rest E me np s1)"

section \<open>Sleeping, waking and leaving the processor\<close>

text \<open>
  \<^verbatim>\<open>sched\<close> up to \<^verbatim>\<open>swtch\<close>: the checks, and the saved context of the process that leaves
  (its registers, where it continues, and the interrupt flag it restores later).
\<close>

definition sched :: "'x kenv \<Rightarrow> nat \<Rightarrow> kcont \<Rightarrow> 'x kstate \<Rightarrow> kerror + 'x kstate" where
  "sched E me k s =
     (if \<not> e_holding E PtableLock (ext s) then Inl (Panic ''sched ptable.lock'')
      else if e_ncli E (ext s) \<noteq> 1 then Inl (Panic ''sched locks'')
      else if p_state (the_proc s me) = RUNNING then Inl (Panic ''sched running'')
      else if and (e_readeflags E (ext s)) (e_FL_IF E) \<noteq> 0
           then Inl (Panic ''sched interruptible'')
      else Inr (upd_proc me (\<lambda>p. p\<lparr>p_intena := e_intena E (ext s),
                                    p_context := e_registers E (ext s), p_kcont := k\<rparr>) s))"

text \<open>\<^verbatim>\<open>sched\<close> after \<^verbatim>\<open>swtch\<close> returned to the process.\<close>

definition sched_resume :: "'x kenv \<Rightarrow> nat \<Rightarrow> 'x kstate \<Rightarrow> 'x kstate" where
  "sched_resume E me s = s\<lparr>ext := e_set_intena E (p_intena (the_proc s me)) (ext s)\<rparr>"

definition yield :: "'x kenv \<Rightarrow> nat \<Rightarrow> 'x kstate \<Rightarrow> kerror + 'x kstate" where
  "yield E me s =
     sched E me KYield (upd_proc me (\<lambda>p. p\<lparr>p_state := RUNNABLE\<rparr>) (acquire E PtableLock s))"

definition yield_resume :: "'x kenv \<Rightarrow> nat \<Rightarrow> 'x kstate \<Rightarrow> 'x kstate" where
  "yield_resume E me s = release E PtableLock (sched_resume E me s)"

definition forkret :: "'x kenv \<Rightarrow> 'x kstate \<Rightarrow> 'x kstate" where
  "forkret E s =
     (let s1 = release E PtableLock s
      in if forkret_first s1
         then s1\<lparr>forkret_first := False, ext := e_fs_init E (ext s1)\<rparr>
         else s1)"

text \<open>
  \<^verbatim>\<open>sleep\<close> up to its \<^verbatim>\<open>swtch\<close>; \<open>k\<close> says which caller it returns to. The null checks of the
  code are on the current process and on the lock.
\<close>

definition sleep :: "'x kenv \<Rightarrow> nat option \<Rightarrow> chan option \<Rightarrow> lockid option \<Rightarrow> kcont \<Rightarrow> 'x kstate
    \<Rightarrow> kerror + 'x kstate" where
  "sleep E cur ch lk k s =
     (case cur of
        None \<Rightarrow> Inl (Panic ''sleep'')
      | Some me \<Rightarrow>
          (case lk of
             None \<Rightarrow> Inl (Panic ''sleep without lk'')
           | Some l \<Rightarrow>
               (let s1 = (if l \<noteq> PtableLock then release E l (acquire E PtableLock s) else s);
                    s2 = upd_proc me (\<lambda>p. p\<lparr>p_chan := ch, p_state := SLEEPING\<rparr>) s1
                in sched E me k s2)))"

definition sleep_resume :: "'x kenv \<Rightarrow> nat \<Rightarrow> lockid \<Rightarrow> 'x kstate \<Rightarrow> 'x kstate" where
  "sleep_resume E me l s =
     (let s1 = upd_proc me (\<lambda>p. p\<lparr>p_chan := None\<rparr>) (sched_resume E me s)
      in if l \<noteq> PtableLock then acquire E l (release E PtableLock s1) else s1)"

text \<open>The body of the loop of \<^verbatim>\<open>wakeup1\<close>, and the loop.\<close>

definition wake_one :: "chan option \<Rightarrow> proc \<Rightarrow> proc" where
  "wake_one ch p = (if p_state p = SLEEPING \<and> p_chan p = ch then p\<lparr>p_state := RUNNABLE\<rparr> else p)"

definition wakeup1 :: "chan option \<Rightarrow> 'x kstate \<Rightarrow> 'x kstate" where
  "wakeup1 ch s = s\<lparr>ptable := map (wake_one ch) (ptable s)\<rparr>"

definition wakeup :: "'x kenv \<Rightarrow> chan option \<Rightarrow> 'x kstate \<Rightarrow> 'x kstate" where
  "wakeup E ch s = release E PtableLock (wakeup1 ch (acquire E PtableLock s))"

definition kill :: "'x kenv \<Rightarrow> int \<Rightarrow> 'x kstate \<Rightarrow> int \<times> 'x kstate" where
  "kill E pid s =
     (let s1 = acquire E PtableLock s
      in case find_idx (\<lambda>p. p_pid p = pid) (ptable s1) of
           Some i \<Rightarrow>
             (0, release E PtableLock
                   (upd_proc i (\<lambda>p. p\<lparr>p_killed := 1,
                      p_state := (if p_state p = SLEEPING then RUNNABLE else p_state p)\<rparr>) s1))
         | None \<Rightarrow> (- 1, release E PtableLock s1))"

section \<open>Exit and wait\<close>

text \<open>The loop of \<^verbatim>\<open>exit\<close> over the open files.\<close>

fun close_ofiles :: "'x kenv \<Rightarrow> u32 list \<Rightarrow> 'x \<Rightarrow> u32 list \<times> 'x" where
  "close_ofiles E [] x = ([], x)"
| "close_ofiles E (f # fs) x =
     (let x1 = (if f \<noteq> 0 then e_fileclose E f x else x);
          (fs', x2) = close_ofiles E fs x1
      in (0 # fs', x2))"

text \<open>One turn of the loop of \<^verbatim>\<open>exit\<close> that hands the children to \<^verbatim>\<open>initproc\<close>, and the loop.\<close>

definition adopt_one :: "nat \<Rightarrow> nat \<Rightarrow> 'x kstate \<Rightarrow> 'x kstate" where
  "adopt_one me i s =
     (if p_parent (the_proc s i) = Some me
      then (let s1 = upd_proc i (\<lambda>p. p\<lparr>p_parent := initproc s\<rparr>) s
            in if p_state (the_proc s1 i) = ZOMBIE
               then wakeup1 (map_option ChProc (initproc s1)) s1 else s1)
      else s)"

definition adopt_all :: "nat \<Rightarrow> 'x kstate \<Rightarrow> 'x kstate" where
  "adopt_all me s = fold (adopt_one me) [0..<length (ptable s)] s"

definition exit :: "'x kenv \<Rightarrow> nat \<Rightarrow> 'x kstate \<Rightarrow> kerror + 'x kstate" where
  "exit E me s =
     (if initproc s = Some me then Inl (Panic ''init exiting'')
      else
        (let (fs, x1) = close_ofiles E (p_ofile (the_proc s me)) (ext s);
             x2 = e_end_op E (e_iput E (p_cwd (the_proc s me)) (e_begin_op E x1));
             s1 = upd_proc me (\<lambda>p. p\<lparr>p_ofile := fs, p_cwd := 0\<rparr>) (s\<lparr>ext := x2\<rparr>);
             s2 = acquire E PtableLock s1;
             s3 = wakeup1 (map_option ChProc (p_parent (the_proc s2 me))) s2;
             s4 = adopt_all me s3;
             s5 = upd_proc me (\<lambda>p. p\<lparr>p_state := ZOMBIE\<rparr>) s4
         in sched E me KExit s5))"

text \<open>The scan of \<^verbatim>\<open>wait\<close>: whether there are children, and the first zombie among them.\<close>

fun wait_scan :: "nat \<Rightarrow> proc list \<Rightarrow> bool \<times> nat option" where
  "wait_scan me [] = (False, None)"
| "wait_scan me (p # ps) =
     (if p_parent p \<noteq> Some me
      then (case wait_scan me ps of (h, r) \<Rightarrow> (h, map_option Suc r))
      else if p_state p = ZOMBIE then (True, Some 0)
      else (True, map_option Suc (snd (wait_scan me ps))))"

datatype wait_result = WReturn int | WSleep

definition reap :: "'x kenv \<Rightarrow> nat \<Rightarrow> 'x kstate \<Rightarrow> 'x kstate" where
  "reap E i s =
     (let p = the_proc s i;
          x = e_freevm E (p_pgdir p) (e_kfree E (p_kstack p) (ext s))
      in upd_proc i (\<lambda>p. p\<lparr>p_kstack := 0, p_state := UNUSED, p_pid := 0, p_parent := None,
                           p_name := (p_name p)[0 := NUL], p_killed := 0\<rparr>) (s\<lparr>ext := x\<rparr>))"

text \<open>One turn of the endless loop of \<^verbatim>\<open>wait\<close>, entered with the table lock held.\<close>

definition wait_turn :: "'x kenv \<Rightarrow> nat \<Rightarrow> 'x kstate \<Rightarrow> kerror + wait_result \<times> 'x kstate" where
  "wait_turn E me s =
     (case wait_scan me (ptable s) of
        (_, Some i) \<Rightarrow>
          Inr (WReturn (p_pid (the_proc s i)), release E PtableLock (reap E i s))
      | (havekids, None) \<Rightarrow>
          (if \<not> havekids \<or> p_killed (the_proc s me) \<noteq> 0
           then Inr (WReturn (- 1), release E PtableLock s)
           else (case sleep E (Some me) (Some (ChProc me)) (Some PtableLock) KWait s of
                   Inl e \<Rightarrow> Inl e
                 | Inr s' \<Rightarrow> Inr (WSleep, s'))))"

definition wait :: "'x kenv \<Rightarrow> nat \<Rightarrow> 'x kstate \<Rightarrow> kerror + wait_result \<times> 'x kstate" where
  "wait E me s = wait_turn E me (acquire E PtableLock s)"

definition wait_resume :: "'x kenv \<Rightarrow> nat \<Rightarrow> 'x kstate \<Rightarrow> kerror + wait_result \<times> 'x kstate" where
  "wait_resume E me s = wait_turn E me (sleep_resume E me PtableLock s)"

section \<open>The scheduler\<close>

text \<open>The first loop: the tickets of the runnable processes, summed in an \<^verbatim>\<open>int\<close>.\<close>

fun count_tickets :: "int \<Rightarrow> proc list \<Rightarrow> int" where
  "count_tickets n [] = n"
| "count_tickets n (p # ps) =
     count_tickets (if p_state p = RUNNABLE then swrap (n + p_tickets p) else n) ps"

text \<open>The second loop: the slot the draw selects.\<close>

fun draw :: "int \<Rightarrow> int \<Rightarrow> proc list \<Rightarrow> nat option" where
  "draw winner counter [] = None"
| "draw winner counter (p # ps) =
     (if p_state p \<noteq> RUNNABLE then map_option Suc (draw winner counter ps)
      else (let counter' = swrap (counter + p_tickets p)
            in if counter' < winner then map_option Suc (draw winner counter' ps)
               else Some 0))"

text \<open>
  One iteration of \<^verbatim>\<open>scheduler\<close> on a processor, up to the \<^verbatim>\<open>swtch\<close> into the chosen process, or
  to the release of the lock when no process is chosen. The first component of the
  result is \<^verbatim>\<open>foundproc\<close> with the slot.
\<close>

definition scheduler :: "'x kenv \<Rightarrow> nat \<Rightarrow> bool \<Rightarrow> 'x kstate \<Rightarrow> nat option \<times> 'x kstate" where
  "scheduler E c foundproc s =
     (let x0 = e_sti E (ext s);
          x1 = (if \<not> foundproc then e_hlt E x0 else x0);
          s1 = acquire E PtableLock (s\<lparr>ext := x1\<rparr>);
          num_tickets = count_tickets 0 (ptable s1);
          (r, x2) = e_random_at_most E num_tickets (ext s1);
          winner = swrap r;
          s2 = s1\<lparr>ext := x2\<rparr>
      in case draw winner 0 (ptable s2) of
           None \<Rightarrow> (None, release E PtableLock s2)
         | Some i \<Rightarrow>
             (let s3 = s2\<lparr>cpu_proc := (cpu_proc s2)(c := Some i),
                          ext := e_switchuvm E (the_proc s2 i) (ext s2)\<rparr>
              in (Some i, upd_proc i (\<lambda>p. p\<lparr>p_state := RUNNING\<rparr>) s3)))"

text \<open>The rest of the iteration, after the process switched back.\<close>

definition scheduler_return :: "'x kenv \<Rightarrow> nat \<Rightarrow> 'x kstate \<Rightarrow> 'x kstate" where
  "scheduler_return E c s =
     release E PtableLock
       (s\<lparr>ext := e_switchkvm E (ext s), cpu_proc := (cpu_proc s)(c := None)\<rparr>)"

section \<open>The process listing\<close>

text \<open>The table \<^verbatim>\<open>states\<close> with its designated initialisers, and its lookup with the range check.\<close>

definition states :: "string list" where
  "states = [''unused'', ''embryo'', ''sleep '', ''runble'', ''run   '', ''zombie'']"

definition state_name :: "procstate \<Rightarrow> string" where
  "state_name st = (if state_num st < length states then states ! state_num st else ''???'')"

text \<open>One line per used slot: the pid, the state, the name and the return addresses printed.\<close>

definition procdump :: "'x kenv \<Rightarrow> 'x kstate \<Rightarrow> (int \<times> string \<times> string \<times> u32 list) list" where
  "procdump E s =
     map (\<lambda>p. (p_pid p, state_name (p_state p), cstr (p_name p),
                if p_state p = SLEEPING
                then takeWhile (\<lambda>a. a \<noteq> 0) (take 10 (e_getcallerpcs E (c_ebp (p_context p) + 8) (ext s)))
                else []))
       (filter (\<lambda>p. p_state p \<noteq> UNUSED) (ptable s))"

text \<open>The fallback string is never printed: every state has an entry.\<close>

lemma state_name_entry: "state_name st \<in> set states" "state_name st \<noteq> ''???''"
  by (cases st; simp add: state_name_def states_def)+

end
