(* ===== verification/Lottery.thy ===== *)
theory Lottery
  imports Proc
begin

text \<open>
  The lottery of \<^verbatim>\<open>scheduler\<close> in \<^verbatim>\<open>src/hw3/proc.c\<close>: what its two loops compute, which process a
  drawn number selects, and how many of the numbers \<^verbatim>\<open>random_at_most\<close> may return select
  each process.
\<close>

text \<open>The tickets a slot contributes, and those of the slots before an index.\<close>

definition eff_tickets :: "proc \<Rightarrow> int" where
  "eff_tickets p = (if p_state p = RUNNABLE then p_tickets p else 0)"

definition tickets_before :: "proc list \<Rightarrow> nat \<Rightarrow> int" where
  "tickets_before ps i = sum_list (map eff_tickets (take i ps))"

definition total_tickets :: "proc list \<Rightarrow> int" where
  "total_tickets ps = sum_list (map eff_tickets ps)"

text \<open>Tables on which no sum of the scheduler can leave the range of an \<^verbatim>\<open>int\<close>.\<close>

definition tickets_ok :: "proc list \<Rightarrow> bool" where
  "tickets_ok ps \<longleftrightarrow> (\<forall>p\<in>set ps. 0 \<le> eff_tickets p) \<and> total_tickets ps \<le> INT_MAX"

definition first_runnable :: "proc list \<Rightarrow> nat option" where
  "first_runnable ps = find_idx (\<lambda>p. p_state p = RUNNABLE) ps"

lemma tickets_before_0 [simp]: "tickets_before ps 0 = 0"
  by (simp add: tickets_before_def)

lemma tickets_before_Suc:
  "i < length ps \<Longrightarrow> tickets_before ps (Suc i) = tickets_before ps i + eff_tickets (ps ! i)"
  by (simp add: tickets_before_def take_Suc_conv_app_nth)

lemma tickets_before_Cons_Suc [simp]:
  "tickets_before (p # ps) (Suc i) = eff_tickets p + tickets_before ps i"
  by (simp add: tickets_before_def)

lemma tickets_before_all: "length ps \<le> i \<Longrightarrow> tickets_before ps i = total_tickets ps"
  by (simp add: tickets_before_def total_tickets_def)

lemma sum_list_eff_nonneg: "\<forall>p\<in>set ps. 0 \<le> eff_tickets p \<Longrightarrow> 0 \<le> sum_list (map eff_tickets ps)"
  by (induction ps) auto

lemma tickets_before_mono:
  assumes "\<forall>p\<in>set ps. 0 \<le> eff_tickets p" and "i \<le> j"
  shows "tickets_before ps i \<le> tickets_before ps j"
proof -
  have split: "take j ps = take i ps @ take (j - i) (drop i ps)"
    using assms(2) by (metis le_add_diff_inverse take_add)
  have "0 \<le> sum_list (map eff_tickets (take (j - i) (drop i ps)))"
    using assms(1) by (intro sum_list_eff_nonneg) (meson in_set_dropD in_set_takeD)
  then show ?thesis by (simp add: tickets_before_def split)
qed

lemma tickets_before_le_total:
  assumes "\<forall>p\<in>set ps. 0 \<le> eff_tickets p"
  shows "tickets_before ps i \<le> total_tickets ps"
  using tickets_before_mono[OF assms, of i "max i (length ps)"] tickets_before_all[of ps "max i (length ps)"]
  by simp

lemma tickets_before_nonneg:
  assumes "\<forall>p\<in>set ps. 0 \<le> eff_tickets p"
  shows "0 \<le> tickets_before ps i"
  using tickets_before_mono[OF assms, of 0 i] by simp

lemma total_tickets_nonneg: "tickets_ok ps \<Longrightarrow> 0 \<le> total_tickets ps"
  by (simp add: tickets_ok_def total_tickets_def sum_list_eff_nonneg)

lemma count_tickets_sum:
  assumes "\<forall>p\<in>set ps. 0 \<le> eff_tickets p" and "0 \<le> n" and "n + total_tickets ps \<le> INT_MAX"
  shows "count_tickets n ps = n + total_tickets ps"
  using assms
proof (induction ps arbitrary: n)
  case Nil
  then show ?case by (simp add: total_tickets_def)
next
  case (Cons p ps)
  have rest: "0 \<le> total_tickets ps"
    using Cons.prems(1) by (simp add: total_tickets_def sum_list_eff_nonneg)
  have tot: "total_tickets (p # ps) = eff_tickets p + total_tickets ps"
    by (simp add: total_tickets_def)
  have "in_int (n + eff_tickets p)"
    using Cons.prems rest tot by (auto simp: in_int_def INT_MIN_def INT_MAX_def)
  then have "(if p_state p = RUNNABLE then swrap (n + p_tickets p) else n) = n + eff_tickets p"
    by (auto simp: eff_tickets_def swrap_id)
  then show ?case using Cons.IH[of "n + eff_tickets p"] Cons.prems tot by simp
qed

lemma count_tickets_total: "tickets_ok ps \<Longrightarrow> count_tickets 0 ps = total_tickets ps"
  using count_tickets_sum[of ps 0] by (simp add: tickets_ok_def)

lemma draw_counter:
  assumes "\<forall>p\<in>set ps. 0 \<le> eff_tickets p" and "0 \<le> c" and "c + total_tickets ps \<le> INT_MAX"
  shows "draw w c ps = find_idx (\<lambda>i. p_state (ps ! i) = RUNNABLE \<and> w \<le> c + tickets_before ps (Suc i))
                         [0..<length ps]"
  using assms
proof (induction ps arbitrary: c)
  case Nil
  then show ?case by simp
next
  case (Cons p ps)
  have tot: "total_tickets (p # ps) = eff_tickets p + total_tickets ps"
    by (simp add: total_tickets_def)
  have rest: "0 \<le> total_tickets ps"
    using Cons.prems(1) by (simp add: total_tickets_def sum_list_eff_nonneg)
  have inr: "in_int (c + eff_tickets p)"
    using Cons.prems rest tot by (auto simp: in_int_def INT_MIN_def INT_MAX_def)
  have shift: "[0..<length (p # ps)] = 0 # map Suc [0..<length ps]"
    by (simp add: map_Suc_upt upt_conv_Cons del: upt_Suc)
  have fmap: "find_idx P (map Suc xs) = find_idx (\<lambda>i. P (Suc i)) xs" for P :: "nat \<Rightarrow> bool" and xs
    by (induction xs) auto
  have ih: "draw w (c + eff_tickets p) ps =
      find_idx (\<lambda>i. p_state (ps ! i) = RUNNABLE \<and> w \<le> (c + eff_tickets p) + tickets_before ps (Suc i))
        [0..<length ps]"
    using Cons.prems tot by (intro Cons.IH) auto
  show ?case
  proof (cases "p_state p = RUNNABLE")
    case True
    then have "swrap (c + p_tickets p) = c + eff_tickets p"
      using inr by (simp add: eff_tickets_def swrap_id)
    then show ?thesis unfolding shift using True ih by (simp add: fmap Let_def algebra_simps not_less)
  next
    case False
    then have "eff_tickets p = 0" by (simp add: eff_tickets_def)
    then show ?thesis unfolding shift using False ih by (simp add: fmap)
  qed
qed

text \<open>The slot a draw selects, on tables without overflow.\<close>

lemma draw_Some_iff:
  assumes "tickets_ok ps"
  shows "draw w 0 ps = Some i \<longleftrightarrow>
    i < length ps \<and> p_state (ps ! i) = RUNNABLE \<and> w \<le> tickets_before ps (Suc i) \<and>
    (\<forall>j<i. p_state (ps ! j) = RUNNABLE \<longrightarrow> tickets_before ps (Suc j) < w)"
proof -
  have "draw w 0 ps = find_idx (\<lambda>i. p_state (ps ! i) = RUNNABLE \<and> w \<le> 0 + tickets_before ps (Suc i))
                         [0..<length ps]"
    using assms by (intro draw_counter) (auto simp: tickets_ok_def)
  then show ?thesis by (auto simp: table_simps not_le)
qed

lemma draw_None_iff:
  assumes "tickets_ok ps"
  shows "draw w 0 ps = None \<longleftrightarrow>
    (\<forall>i<length ps. p_state (ps ! i) = RUNNABLE \<longrightarrow> tickets_before ps (Suc i) < w)"
proof -
  have "draw w 0 ps = find_idx (\<lambda>i. p_state (ps ! i) = RUNNABLE \<and> w \<le> 0 + tickets_before ps (Suc i))
                         [0..<length ps]"
    using assms by (intro draw_counter) (auto simp: tickets_ok_def)
  then show ?thesis by (auto simp: table_simps not_le)
qed

text \<open>Without any assumption on tickets: a selected slot is in the table and runnable.\<close>

lemma draw_runnable: "draw w c ps = Some i \<Longrightarrow> i < length ps \<and> p_state (ps ! i) = RUNNABLE"
proof (induction ps arbitrary: c i)
  case Nil
  then show ?case by simp
next
  case (Cons p ps)
  then show ?case by (cases i) (auto simp: Let_def split: if_splits)
qed

lemma draw_no_runnable: "\<forall>p\<in>set ps. p_state p \<noteq> RUNNABLE \<Longrightarrow> draw w c ps = None"
  by (induction ps) auto

lemma tickets_before_gap:
  assumes "a \<le> b" and "b \<le> length ps" and "\<And>k. a \<le> k \<Longrightarrow> k < b \<Longrightarrow> eff_tickets (ps ! k) = 0"
  shows "tickets_before ps b = tickets_before ps a"
  using assms
proof (induction b rule: dec_induct)
  case (step n)
  then show ?case by (simp add: tickets_before_Suc[of n])
qed simp

lemma first_runnable_before:
  assumes "first_runnable ps = Some f"
  shows "tickets_before ps f = 0"
proof -
  have "tickets_before ps f = tickets_before ps 0"
    using assms by (intro tickets_before_gap) (auto simp: first_runnable_def table_simps eff_tickets_def)
  then show ?thesis by simp
qed

lemma last_runnable_before:
  assumes "i < length ps" and "\<exists>j<i. p_state (ps ! j) = RUNNABLE"
  obtains j where "j < i" and "p_state (ps ! j) = RUNNABLE"
    and "tickets_before ps i = tickets_before ps (Suc j)"
proof -
  let ?R = "{j. j < i \<and> p_state (ps ! j) = RUNNABLE}"
  have fin: "finite ?R" by simp
  then have "Max ?R \<in> ?R" using assms(2) by (intro Max_in) auto
  then have j: "Max ?R < i" "p_state (ps ! Max ?R) = RUNNABLE" by auto
  have "tickets_before ps i = tickets_before ps (Suc (Max ?R))"
  proof (rule tickets_before_gap)
    fix k assume k: "Suc (Max ?R) \<le> k" "k < i"
    have "k \<notin> ?R"
    proof
      assume "k \<in> ?R"
      then have "k \<le> Max ?R" by (rule Max_ge[OF fin])
      then show False using k(1) by linarith
    qed
    then show "eff_tickets (ps ! k) = 0" using k by (simp add: eff_tickets_def)
  qed (use j assms(1) in simp_all)
  with j that show thesis by blast
qed

text \<open>
  The numbers that select a runnable slot: above the tickets before it and up to its own,
  except that the first runnable slot also takes everything down to zero.
\<close>

lemma draw_interval:
  assumes ok: "tickets_ok ps" and i: "i < length ps" "p_state (ps ! i) = RUNNABLE"
  shows "draw w 0 ps = Some i \<longleftrightarrow>
    w \<le> tickets_before ps (Suc i) \<and> (first_runnable ps = Some i \<or> tickets_before ps i < w)"
proof -
  have nn: "\<forall>p\<in>set ps. 0 \<le> eff_tickets p" using ok by (simp add: tickets_ok_def)
  show ?thesis
  proof (cases "first_runnable ps = Some i")
    case True
    then have "\<forall>j<i. p_state (ps ! j) \<noteq> RUNNABLE"
      by (auto simp: first_runnable_def table_simps)
    then show ?thesis using True draw_Some_iff[OF ok] i by auto
  next
    case False
    have "\<exists>j<i. p_state (ps ! j) = RUNNABLE"
      using False i by (auto simp: first_runnable_def table_simps)
    then obtain j where j: "j < i" "p_state (ps ! j) = RUNNABLE"
      and eq: "tickets_before ps i = tickets_before ps (Suc j)"
      using last_runnable_before[OF i(1)] by blast
    have le: "k < i \<Longrightarrow> tickets_before ps (Suc k) \<le> tickets_before ps i" for k
      by (rule tickets_before_mono[OF nn]) simp
    have "(\<forall>k<i. p_state (ps ! k) = RUNNABLE \<longrightarrow> tickets_before ps (Suc k) < w)
          \<longleftrightarrow> tickets_before ps i < w"
      using j eq le by (metis order_le_less_trans)
    then show ?thesis using False draw_Some_iff[OF ok] i by auto
  qed
qed

lemma draw_set:
  assumes ok: "tickets_ok ps" and i: "i < length ps" "p_state (ps ! i) = RUNNABLE"
  shows "{w. 0 \<le> w \<and> w \<le> total_tickets ps \<and> draw w 0 ps = Some i} =
    (if first_runnable ps = Some i then {0..p_tickets (ps ! i)}
     else {tickets_before ps i<..tickets_before ps i + p_tickets (ps ! i)})"
proof -
  have nn: "\<forall>p\<in>set ps. 0 \<le> eff_tickets p" using ok by (simp add: tickets_ok_def)
  have suc: "tickets_before ps (Suc i) = tickets_before ps i + p_tickets (ps ! i)"
    using i by (simp add: tickets_before_Suc eff_tickets_def)
  have "tickets_before ps (Suc i) \<le> total_tickets ps" by (rule tickets_before_le_total[OF nn])
  moreover have "0 \<le> tickets_before ps i" by (rule tickets_before_nonneg[OF nn])
  ultimately have bnd: "0 \<le> tickets_before ps i"
    "tickets_before ps i + p_tickets (ps ! i) \<le> total_tickets ps" by (simp_all add: suc)
  show ?thesis
  proof (cases "first_runnable ps = Some i")
    case True
    then have "tickets_before ps i = 0" by (rule first_runnable_before)
    with True bnd show ?thesis by (simp add: draw_interval[OF ok i] suc set_eq_iff) linarith
  next
    case False
    with bnd show ?thesis by (simp add: draw_interval[OF ok i] suc set_eq_iff) linarith
  qed
qed

text \<open>When somebody is runnable and the number is in range, the draw selects a slot.\<close>

lemma draw_selects:
  assumes ok: "tickets_ok ps" and run: "\<exists>p\<in>set ps. p_state p = RUNNABLE"
    and w: "w \<le> total_tickets ps"
  shows "draw w 0 ps \<noteq> None"
proof
  assume none: "draw w 0 ps = None"
  have nn: "\<forall>p\<in>set ps. 0 \<le> eff_tickets p" using ok by (simp add: tickets_ok_def)
  have lt: "i < length ps \<Longrightarrow> p_state (ps ! i) = RUNNABLE \<Longrightarrow> tickets_before ps (Suc i) < w" for i
    using none draw_None_iff[OF ok] by blast
  have "k \<le> length ps \<Longrightarrow> tickets_before ps k = 0 \<or> tickets_before ps k < w" for k
    by (induction k) (use lt in \<open>auto simp: tickets_before_Suc eff_tickets_def\<close>)
  moreover obtain i where "i < length ps" "p_state (ps ! i) = RUNNABLE"
    using run by (auto simp: in_set_conv_nth)
  ultimately have "total_tickets ps = 0 \<or> total_tickets ps < w" and "0 < w"
    using lt[of i] tickets_before_all[of ps "length ps"] tickets_before_nonneg[OF nn, of "Suc i"]
    by fastforce+
  then show False using w by auto
qed

text \<open>How many of the numbers select a runnable slot; a table with two runnable slots.\<close>

lemma draw_card:
  assumes "tickets_ok ps" and "i < length ps" and "p_state (ps ! i) = RUNNABLE"
  shows "int (card {w. 0 \<le> w \<and> w \<le> count_tickets 0 ps \<and> draw w 0 ps = Some i}) =
    p_tickets (ps ! i) + (if first_runnable ps = Some i then 1 else 0)"
proof -
  have "0 \<le> p_tickets (ps ! i)"
    using assms by (auto simp: tickets_ok_def eff_tickets_def dest: bspec[OF _ nth_mem[OF assms(2)]])
  then show ?thesis unfolding count_tickets_total[OF assms(1)] draw_set[OF assms] by simp
qed

lemma total_tickets_two:
  assumes "i < length ps" and "j < length ps" and "i \<noteq> j"
    and run: "\<And>k. k < length ps \<Longrightarrow> p_state (ps ! k) = RUNNABLE \<longleftrightarrow> k = i \<or> k = j"
  shows "total_tickets ps = p_tickets (ps ! i) + p_tickets (ps ! j)"
proof -
  have "total_tickets ps = (\<Sum>k\<in>{..<length ps}. eff_tickets (ps ! k))"
    by (simp add: total_tickets_def sum_list_sum_nth atLeast0LessThan)
  also have "\<dots> = (\<Sum>k\<in>{i, j}. eff_tickets (ps ! k))"
    using assms(1,2) run by (intro sum.mono_neutral_right) (auto simp: eff_tickets_def)
  finally show ?thesis using assms by (simp add: eff_tickets_def run)
qed

lemma tickets_ok_two:
  assumes "i < length ps" and "j < length ps" and "i \<noteq> j"
    and run: "\<And>k. k < length ps \<Longrightarrow> p_state (ps ! k) = RUNNABLE \<longleftrightarrow> k = i \<or> k = j"
    and "0 \<le> p_tickets (ps ! i)" and "0 \<le> p_tickets (ps ! j)" and "p_tickets (ps ! i) + p_tickets (ps ! j) \<le> INT_MAX"
  shows "tickets_ok ps"
  using assms(5-7) run
  by (auto simp: tickets_ok_def total_tickets_two[OF assms(1-4)] eff_tickets_def all_set_conv_all_nth)

end
