(* ===== verification/Proc_Effects.thy ===== *)
theory Proc_Effects
  imports Lottery
begin

text \<open>
  What each operation of \<^verbatim>\<open>src/hw3/proc.c\<close> does to the process table, whatever the code
  outside the repository does to its own state: the external functions of \<open>kenv\<close>
  only act on \<open>ext\<close>. Loops become closed forms (\<open>adopted\<close>, \<open>forked\<close>, \<open>reaped\<close>), one per
  slot, which the invariant proofs use instead of the code.
\<close>

lemma acquire_fields [simp]:
  "ptable (acquire E l s) = ptable s" "nextpid (acquire E l s) = nextpid s"
  "initproc (acquire E l s) = initproc s" "cpu_proc (acquire E l s) = cpu_proc s"
  "ext (acquire E l s) = e_acquire E l (ext s)" "forkret_first (acquire E l s) = forkret_first s"
  by (simp_all add: acquire_def)

lemma release_fields [simp]:
  "ptable (release E l s) = ptable s" "nextpid (release E l s) = nextpid s"
  "initproc (release E l s) = initproc s" "cpu_proc (release E l s) = cpu_proc s"
  "ext (release E l s) = e_release E l (ext s)" "forkret_first (release E l s) = forkret_first s"
  by (simp_all add: release_def)

subsection \<open>allocproc and fork\<close>

text \<open>The slot \<^verbatim>\<open>allocproc\<close> takes, once its stack is laid out.\<close>

definition embryo :: "'x kenv \<Rightarrow> int \<Rightarrow> u32 \<Rightarrow> proc \<Rightarrow> proc" where
  "embryo E n k p =
     setup_kstack E k (p\<lparr>p_state := EMBRYO, p_pid := n, p_tickets := MAGIC_TICKET_NUM\<rparr>)"

definition embryo_lost :: "int \<Rightarrow> proc \<Rightarrow> proc" where
  "embryo_lost n p = p\<lparr>p_kstack := 0, p_state := UNUSED, p_pid := n, p_tickets := MAGIC_TICKET_NUM\<rparr>"

lemma allocproc_full:
  assumes "\<forall>p\<in>set (ptable s). p_state p \<noteq> UNUSED"
  shows "allocproc E s = (None, release E PtableLock (acquire E PtableLock s))"
proof -
  have "find_idx (\<lambda>p. p_state p = UNUSED) (ptable s) = None"
    using assms by (auto simp: table_simps)
  then show ?thesis by (simp add: allocproc_def)
qed

lemma allocproc_found:
  assumes "find_idx (\<lambda>p. p_state p = UNUSED) (ptable s) = Some i"
    and "e_kalloc E (e_release E PtableLock (e_acquire E PtableLock (ext s))) = (k, x)"
  shows "allocproc E s =
    (if k = 0
     then (None, s\<lparr>ptable := upd_at i (embryo_lost (nextpid s)) (ptable s),
                   nextpid := swrap (nextpid s + 1), ext := x\<rparr>)
     else (Some i, s\<lparr>ptable := upd_at i (embryo E (nextpid s) k) (ptable s),
                     nextpid := swrap (nextpid s + 1), ext := x\<rparr>))"
proof -
  have lost: "(\<lambda>p. embryo_lost n p) = (\<lambda>p. (p\<lparr>p_state := EMBRYO, p_pid := n, p_tickets := MAGIC_TICKET_NUM\<rparr>)
      \<lparr>p_kstack := 0, p_state := UNUSED\<rparr>)" for n
    by (simp add: embryo_lost_def fun_eq_iff)
  show ?thesis
    using assms
    by (simp add: allocproc_def Let_def embryo_def[abs_def] lost upd_at_upd_at_same acquire_def release_def)
qed

text \<open>Both cases at once, as the invariant proofs use them.\<close>

lemma allocproc_cases:
  obtains (full) "\<forall>p\<in>set (ptable s). p_state p \<noteq> UNUSED"
      "allocproc E s = (None, release E PtableLock (acquire E PtableLock s))"
  | (nomem) i x where "find_idx (\<lambda>p. p_state p = UNUSED) (ptable s) = Some i"
      "allocproc E s = (None, s\<lparr>ptable := upd_at i (embryo_lost (nextpid s)) (ptable s),
                                nextpid := swrap (nextpid s + 1), ext := x\<rparr>)"
  | (found) i k x where "find_idx (\<lambda>p. p_state p = UNUSED) (ptable s) = Some i" "k \<noteq> 0"
      "allocproc E s = (Some i, s\<lparr>ptable := upd_at i (embryo E (nextpid s) k) (ptable s),
                                  nextpid := swrap (nextpid s + 1), ext := x\<rparr>)"
proof (cases "find_idx (\<lambda>p. p_state p = UNUSED) (ptable s)")
  case None
  then have "\<forall>p\<in>set (ptable s). p_state p \<noteq> UNUSED"
    by (auto simp: table_simps in_set_conv_nth)
  then show thesis using full allocproc_full by blast
next
  case (Some i)
  obtain k x where "e_kalloc E (e_release E PtableLock (e_acquire E PtableLock (ext s))) = (k, x)"
    by fastforce
  from allocproc_found[OF Some this] show thesis
    using nomem[OF Some] found[OF Some] by (cases "k = 0") auto
qed

lemma embryo_fields [simp]:
  "p_state (embryo E n k p) = EMBRYO" "p_pid (embryo E n k p) = n"
  "p_tickets (embryo E n k p) = MAGIC_TICKET_NUM" "p_parent (embryo E n k p) = p_parent p"
  "p_kstack (embryo E n k p) = k" "p_kcont (embryo E n k p) = KForkret"
  "p_ofile (embryo E n k p) = p_ofile p" "p_name (embryo E n k p) = p_name p"
  "p_killed (embryo E n k p) = p_killed p" "p_chan (embryo E n k p) = p_chan p"
  by (simp_all add: embryo_def setup_kstack_def Let_def)

text \<open>The child \<^verbatim>\<open>fork\<close> publishes.\<close>

definition forked :: "'x kenv \<Rightarrow> nat \<Rightarrow> proc \<Rightarrow> u32 \<Rightarrow> u32 list \<Rightarrow> u32 \<Rightarrow> proc \<Rightarrow> proc" where
  "forked E me cur d fs cw p =
     p\<lparr>p_pgdir := d, p_sz := p_sz cur, p_parent := Some me, p_tf := (p_tf cur)\<lparr>tf_eax := 0\<rparr>,
       p_ofile := fs, p_cwd := cw, p_name := e_safestrcpy E (p_name p) (p_name cur) 16,
       p_state := RUNNABLE\<rparr>"

text \<open>The slot after \<^verbatim>\<open>copyuvm\<close> failed.\<close>

definition abandoned :: "proc \<Rightarrow> proc" where
  "abandoned p = p\<lparr>p_pgdir := 0, p_kstack := 0, p_state := UNUSED\<rparr>"

lemma abandoned_fields [simp]:
  "p_state (abandoned p) = UNUSED" "p_pid (abandoned p) = p_pid p" "p_parent (abandoned p) = p_parent p"
  "p_kcont (abandoned p) = p_kcont p" "p_tickets (abandoned p) = p_tickets p" "p_killed (abandoned p) = p_killed p"
  by (simp_all add: abandoned_def)

lemma fork_rest_cases:
  assumes np: "np < length (ptable s)"
  obtains (nocopy) s' where "fork_rest E me np s = (- 1, s')" "ptable s' = upd_at np abandoned (ptable s)"
      "nextpid s' = nextpid s" "initproc s' = initproc s" "cpu_proc s' = cpu_proc s"
  | (child) s' d fs cw where "fork_rest E me np s = (p_pid (the_proc s np), s')"
      "ptable s' = upd_at np (forked E me (the_proc s me) d fs cw) (ptable s)"
      "nextpid s' = nextpid s" "initproc s' = initproc s" "cpu_proc s' = cpu_proc s"
proof -
  obtain d x where c: "e_copyuvm E (p_pgdir (the_proc s me)) (p_sz (the_proc s me)) (ext s) = (d, x)" by fastforce
  obtain fs x1 where df: "dup_ofiles E (p_ofile (the_proc s me)) (p_ofile (the_proc s np)) x = (fs, x1)" by fastforce
  obtain cw x2 where cw: "e_idup E (p_cwd (the_proc s me)) x1 = (cw, x2)" by fastforce
  show thesis
  proof (cases "d = 0")
    case True
    then show thesis
      using np c by (intro nocopy[of "snd (fork_rest E me np s)", OF prod_eqI]) (simp_all add: fork_rest_def Let_def upd_at_upd_at_same abandoned_def[abs_def])
  next
    case False
    then show thesis
      using np c df cw
      by (intro child[of "snd (fork_rest E me np s)" d fs cw, OF prod_eqI])
        (simp_all add: fork_rest_def Let_def table_simps upd_at_upd_at_same forked_def[abs_def])
  qed
qed

text \<open>
  The table after \<^verbatim>\<open>fork\<close>: unchanged when it is full, one slot that stays unused when
  memory runs out, or one new child.
\<close>

lemma fork_cases:
  obtains (full) s' where "fork E me s = (- 1, s')" "ptable s' = ptable s"
      "nextpid s' = nextpid s" "initproc s' = initproc s" "cpu_proc s' = cpu_proc s"
      "\<forall>p\<in>set (ptable s). p_state p \<noteq> UNUSED"
  | (nomem) s' i f where "fork E me s = (- 1, s')" "ptable s' = upd_at i f (ptable s)"
      "find_idx (\<lambda>p. p_state p = UNUSED) (ptable s) = Some i"
      "\<And>p. p_state (f p) = UNUSED" "\<And>p. p_parent (f p) = p_parent p"
      "nextpid s' = swrap (nextpid s + 1)" "initproc s' = initproc s" "cpu_proc s' = cpu_proc s"
      "\<And>p. p_pid (f p) = nextpid s"
  | (child) s' i k cur d fs cw where "fork E me s = (nextpid s, s')"
      "ptable s' = upd_at i (\<lambda>p. forked E me cur d fs cw (embryo E (nextpid s) k p)) (ptable s)"
      "find_idx (\<lambda>p. p_state p = UNUSED) (ptable s) = Some i"
      "cur = ptable (snd (allocproc E s)) ! me"
      "nextpid s' = swrap (nextpid s + 1)" "initproc s' = initproc s" "cpu_proc s' = cpu_proc s"
proof (cases rule: allocproc_cases[of s E])
  case full
  then show thesis using that(1) by (simp add: fork_def)
next
  case (nomem i x)
  then show thesis
    using that(2)[of _ i "embryo_lost (nextpid s)"] by (simp add: fork_def fork_rest_def embryo_lost_def)
next
  case (found i k x)
  let ?s1 = "s\<lparr>ptable := upd_at i (embryo E (nextpid s) k) (ptable s),
               nextpid := swrap (nextpid s + 1), ext := x\<rparr>"
  have i: "i < length (ptable s)" using found(1) by (rule find_idx_SomeD)
  then have "i < length (ptable ?s1)" by simp
  then show thesis
  proof (cases rule: fork_rest_cases[of i ?s1 E me])
    case (nocopy s')
    then show thesis
      using found that(2)[of s' i "\<lambda>p. abandoned (embryo E (nextpid s) k p)"] by (simp add: fork_def upd_at_upd_at_same)
  next
    case (child s' d fs cw)
    then show thesis
      using found i that(3)[of s' i "the_proc ?s1 me" d fs cw k] by (simp add: fork_def upd_at_upd_at_same table_simps)
  qed
qed

lemma forked_fields [simp]:
  "p_state (forked E me cur d fs cw p) = RUNNABLE" "p_pid (forked E me cur d fs cw p) = p_pid p"
  "p_parent (forked E me cur d fs cw p) = Some me" "p_kcont (forked E me cur d fs cw p) = p_kcont p"
  "p_tickets (forked E me cur d fs cw p) = p_tickets p" "p_chan (forked E me cur d fs cw p) = p_chan p"
  "p_killed (forked E me cur d fs cw p) = p_killed p" "p_tf (forked E me cur d fs cw p) = (p_tf cur)\<lparr>tf_eax := 0\<rparr>"
  "p_sz (forked E me cur d fs cw p) = p_sz cur" "p_pgdir (forked E me cur d fs cw p) = d"
  "p_ofile (forked E me cur d fs cw p) = fs" "p_cwd (forked E me cur d fs cw p) = cw"
  "p_kstack (forked E me cur d fs cw p) = p_kstack p"
  by (simp_all add: forked_def)

subsection \<open>Leaving the processor\<close>

lemma sched_Inr:
  "sched E me k s = Inr s' \<longleftrightarrow>
     e_holding E PtableLock (ext s) \<and> e_ncli E (ext s) = 1 \<and> p_state (the_proc s me) \<noteq> RUNNING \<and>
     and (e_readeflags E (ext s)) (e_FL_IF E) = 0 \<and>
     s' = upd_proc me (\<lambda>p. p\<lparr>p_intena := e_intena E (ext s), p_context := e_registers E (ext s),
                             p_kcont := k\<rparr>) s"
  by (auto simp: sched_def)

lemma sched_resume_fields [simp]:
  "ptable (sched_resume E me s) = ptable s" "nextpid (sched_resume E me s) = nextpid s"
  "initproc (sched_resume E me s) = initproc s" "cpu_proc (sched_resume E me s) = cpu_proc s"
  by (simp_all add: sched_resume_def)

lemma yield_resume_fields [simp]:
  "ptable (yield_resume E me s) = ptable s" "nextpid (yield_resume E me s) = nextpid s"
  "initproc (yield_resume E me s) = initproc s" "cpu_proc (yield_resume E me s) = cpu_proc s"
  by (simp_all add: yield_resume_def)

lemma forkret_fields [simp]:
  "ptable (forkret E s) = ptable s" "nextpid (forkret E s) = nextpid s"
  "initproc (forkret E s) = initproc s" "cpu_proc (forkret E s) = cpu_proc s"
  by (simp_all add: forkret_def Let_def)

lemma scheduler_return_fields [simp]:
  "ptable (scheduler_return E c s) = ptable s" "nextpid (scheduler_return E c s) = nextpid s"
  "initproc (scheduler_return E c s) = initproc s"
  "cpu_proc (scheduler_return E c s) = (cpu_proc s)(c := None)"
  by (simp_all add: scheduler_return_def)

lemma sleep_resume_fields [simp]:
  "ptable (sleep_resume E me l s) = upd_at me (\<lambda>p. p\<lparr>p_chan := None\<rparr>) (ptable s)"
  "nextpid (sleep_resume E me l s) = nextpid s"
  "initproc (sleep_resume E me l s) = initproc s" "cpu_proc (sleep_resume E me l s) = cpu_proc s"
  by (simp_all add: sleep_resume_def Let_def)

text \<open>The slot of a process that went through \<^verbatim>\<open>sched\<close> with a new state.\<close>

definition parked :: "procstate \<Rightarrow> kcont \<Rightarrow> int \<Rightarrow> kcontext \<Rightarrow> proc \<Rightarrow> proc" where
  "parked st k ie r p = p\<lparr>p_state := st, p_intena := ie, p_context := r, p_kcont := k\<rparr>"

lemma parked_fields [simp]:
  "p_state (parked st k ie r p) = st" "p_kcont (parked st k ie r p) = k"
  "p_pid (parked st k ie r p) = p_pid p" "p_parent (parked st k ie r p) = p_parent p"
  "p_chan (parked st k ie r p) = p_chan p" "p_ofile (parked st k ie r p) = p_ofile p"
  "p_cwd (parked st k ie r p) = p_cwd p" "p_killed (parked st k ie r p) = p_killed p"
  "p_tickets (parked st k ie r p) = p_tickets p"
  by (simp_all add: parked_def)

lemma yield_Inr:
  assumes "yield E me s = Inr s'"
  obtains ie r where "ptable s' = upd_at me (parked RUNNABLE KYield ie r) (ptable s)"
    "nextpid s' = nextpid s" "initproc s' = initproc s" "cpu_proc s' = cpu_proc s"
proof -
  let ?s1 = "acquire E PtableLock s"
  have "s' = upd_proc me (\<lambda>p. p\<lparr>p_intena := e_intena E (ext ?s1), p_context := e_registers E (ext ?s1),
      p_kcont := KYield\<rparr>) (upd_proc me (\<lambda>p. p\<lparr>p_state := RUNNABLE\<rparr>) ?s1)"
    using assms by (simp add: yield_def sched_Inr)
  then show thesis
    by (intro that[of "e_intena E (ext ?s1)" "e_registers E (ext ?s1)"])
      (simp_all add: upd_at_upd_at_same parked_def[abs_def])
qed

lemma sleep_Inr:
  assumes "sleep E (Some me) ch (Some l) k s = Inr s'"
  obtains ie r where
    "ptable s' = upd_at me (\<lambda>p. parked SLEEPING k ie r (p\<lparr>p_chan := ch\<rparr>)) (ptable s)"
    "nextpid s' = nextpid s" "initproc s' = initproc s" "cpu_proc s' = cpu_proc s"
proof -
  let ?s1 = "if l \<noteq> PtableLock then release E l (acquire E PtableLock s) else s"
  have "s' = upd_proc me (\<lambda>p. p\<lparr>p_intena := e_intena E (ext ?s1), p_context := e_registers E (ext ?s1),
      p_kcont := k\<rparr>) (upd_proc me (\<lambda>p. p\<lparr>p_chan := ch, p_state := SLEEPING\<rparr>) ?s1)"
    using assms by (simp add: sleep_def sched_Inr Let_def)
  then show thesis
    by (intro that[of "e_intena E (ext ?s1)" "e_registers E (ext ?s1)"])
      (simp_all add: upd_at_upd_at_same parked_def[abs_def])
qed

subsection \<open>Waking up\<close>

lemma wakeup1_fields [simp]:
  "ptable (wakeup1 ch s) = map (wake_one ch) (ptable s)" "nextpid (wakeup1 ch s) = nextpid s"
  "initproc (wakeup1 ch s) = initproc s" "cpu_proc (wakeup1 ch s) = cpu_proc s"
  "ext (wakeup1 ch s) = ext s"
  by (simp_all add: wakeup1_def)

lemma wake_one_fields [simp]:
  "p_pid (wake_one ch p) = p_pid p" "p_parent (wake_one ch p) = p_parent p"
  "p_chan (wake_one ch p) = p_chan p" "p_kcont (wake_one ch p) = p_kcont p"
  "p_ofile (wake_one ch p) = p_ofile p" "p_cwd (wake_one ch p) = p_cwd p"
  "p_killed (wake_one ch p) = p_killed p" "p_tickets (wake_one ch p) = p_tickets p"
  by (simp_all add: wake_one_def)

lemma p_state_wake_one:
  "p_state (wake_one ch p) = (if p_state p = SLEEPING \<and> p_chan p = ch then RUNNABLE else p_state p)"
  by (simp add: wake_one_def)

lemma wake_one_state_iff [simp]:
  "p_state (wake_one ch p) = ZOMBIE \<longleftrightarrow> p_state p = ZOMBIE"
  "p_state (wake_one ch p) = UNUSED \<longleftrightarrow> p_state p = UNUSED"
  "p_state (wake_one ch p) = EMBRYO \<longleftrightarrow> p_state p = EMBRYO"
  "p_state (wake_one ch p) = RUNNING \<longleftrightarrow> p_state p = RUNNING"
  "p_state (wake_one ch p) = SLEEPING \<longleftrightarrow> p_state p = SLEEPING \<and> p_chan p \<noteq> ch"
  by (auto simp: p_state_wake_one)

lemma wake_one_idem [simp]: "wake_one ch (wake_one ch p) = wake_one ch p"
  by (simp add: wake_one_def)

lemma wake_one_parent_update: "wake_one ch (p\<lparr>p_parent := q\<rparr>) = (wake_one ch p)\<lparr>p_parent := q\<rparr>"
  by (simp add: wake_one_def)

lemma kill_found:
  assumes "find_idx (\<lambda>p. p_pid p = n) (ptable s) = Some i"
  shows "kill E n s = (0, s\<lparr>ptable := upd_at i (\<lambda>p. p\<lparr>p_killed := 1,
      p_state := (if p_state p = SLEEPING then RUNNABLE else p_state p)\<rparr>) (ptable s),
      ext := e_release E PtableLock (e_acquire E PtableLock (ext s))\<rparr>)"
  using assms by (simp add: kill_def acquire_def release_def)

lemma kill_missing:
  assumes "\<forall>p\<in>set (ptable s). p_pid p \<noteq> n"
  shows "kill E n s = (- 1, s\<lparr>ext := e_release E PtableLock (e_acquire E PtableLock (ext s))\<rparr>)"
proof -
  have "find_idx (\<lambda>p. p_pid p = n) (ptable s) = None" using assms by (auto simp: table_simps)
  then show ?thesis by (simp add: kill_def acquire_def release_def)
qed

subsection \<open>exit\<close>

lemma close_ofiles_zero: "fst (close_ofiles E fs x) = replicate (length fs) 0"
  by (induction fs arbitrary: x) (auto simp: Let_def split: prod.splits dest: arg_cong[where f = fst])

lemma adopt_one_fields [simp]:
  "length (ptable (adopt_one me i s)) = length (ptable s)" "nextpid (adopt_one me i s) = nextpid s"
  "initproc (adopt_one me i s) = initproc s" "cpu_proc (adopt_one me i s) = cpu_proc s"
  "ext (adopt_one me i s) = ext s"
  by (simp_all add: adopt_one_def Let_def)

text \<open>A slot after the loop ran over the first \<open>k\<close> slots of a table.\<close>

definition adopted :: "nat \<Rightarrow> nat option \<Rightarrow> proc list \<Rightarrow> nat \<Rightarrow> nat \<Rightarrow> proc" where
  "adopted me ip ps k i =
     (let p = ps ! i;
          q = (if i < k \<and> p_parent p = Some me then p\<lparr>p_parent := ip\<rparr> else p)
      in if \<exists>j<k. p_parent (ps ! j) = Some me \<and> p_state (ps ! j) = ZOMBIE
         then wake_one (map_option ChProc ip) q else q)"

lemma adopted_fields [simp]:
  "p_pid (adopted me ip ps k i) = p_pid (ps ! i)" "p_chan (adopted me ip ps k i) = p_chan (ps ! i)"
  "p_kcont (adopted me ip ps k i) = p_kcont (ps ! i)" "p_ofile (adopted me ip ps k i) = p_ofile (ps ! i)"
  "p_cwd (adopted me ip ps k i) = p_cwd (ps ! i)" "p_killed (adopted me ip ps k i) = p_killed (ps ! i)"
  "p_tickets (adopted me ip ps k i) = p_tickets (ps ! i)"
  by (simp_all add: adopted_def Let_def)

lemma adopted_parent:
  "p_parent (adopted me ip ps k i) =
     (if i < k \<and> p_parent (ps ! i) = Some me then ip else p_parent (ps ! i))"
  by (simp add: adopted_def Let_def)

lemma adopted_state:
  "p_state (adopted me ip ps k i) =
     (if (\<exists>j<k. p_parent (ps ! j) = Some me \<and> p_state (ps ! j) = ZOMBIE) \<and>
         p_state (ps ! i) = SLEEPING \<and> p_chan (ps ! i) = map_option ChProc ip
      then RUNNABLE else p_state (ps ! i))"
  by (auto simp: adopted_def Let_def p_state_wake_one)

lemma adopt_loop:
  assumes "k \<le> length (ptable s)"
  shows "length (ptable (fold (adopt_one me) [0..<k] s)) = length (ptable s) \<and>
    initproc (fold (adopt_one me) [0..<k] s) = initproc s \<and>
    (\<forall>i<length (ptable s). ptable (fold (adopt_one me) [0..<k] s) ! i = adopted me (initproc s) (ptable s) k i)"
  using assms
proof (induction k)
  case 0
  then show ?case by (simp add: adopted_def)
next
  case (Suc k)
  define t where "t = fold (adopt_one me) [0..<k] s"
  have len: "length (ptable t) = length (ptable s)" and ip: "initproc t = initproc s"
    and nth: "\<And>i. i < length (ptable s) \<Longrightarrow> ptable t ! i = adopted me (initproc s) (ptable s) k i"
    using Suc by (simp_all add: t_def)
  have k: "k < length (ptable s)" using Suc.prems by simp
  have tk: "p_parent (ptable t ! k) = p_parent (ptable s ! k)"
    "p_state (ptable t ! k) = ZOMBIE \<longleftrightarrow> p_state (ptable s ! k) = ZOMBIE"
    using nth[OF k] by (auto simp: adopted_parent adopted_state)
  have "ptable (adopt_one me k t) ! i = adopted me (initproc s) (ptable s) (Suc k) i"
    if i: "i < length (ptable s)" for i
    using i k len tk nth[OF i] nth[OF k] ip
    by (cases "i = k") (auto simp: adopt_one_def adopted_def Let_def table_simps less_Suc_eq
        wake_one_parent_update)
  then show ?case using len ip by (simp add: t_def)
qed

lemma adopt_fold_fields [simp]:
  "nextpid (fold (adopt_one me) ks s) = nextpid s" "cpu_proc (fold (adopt_one me) ks s) = cpu_proc s"
  "ext (fold (adopt_one me) ks s) = ext s"
  by (induction ks arbitrary: s) simp_all

lemma adopt_all_fields [simp]:
  "length (ptable (adopt_all me s)) = length (ptable s)" "initproc (adopt_all me s) = initproc s"
  "nextpid (adopt_all me s) = nextpid s" "cpu_proc (adopt_all me s) = cpu_proc s"
  "ext (adopt_all me s) = ext s"
  using adopt_loop[of "length (ptable s)" s me] by (simp_all add: adopt_all_def)

lemma nth_adopt_all:
  "i < length (ptable s) \<Longrightarrow>
   ptable (adopt_all me s) ! i = adopted me (initproc s) (ptable s) (length (ptable s)) i"
  using adopt_loop[of "length (ptable s)" s me] by (simp add: adopt_all_def)

text \<open>A successful \<^verbatim>\<open>exit\<close> as one expression, with the effects of external code named.\<close>

definition files_closed :: "proc \<Rightarrow> proc" where
  "files_closed p = p\<lparr>p_ofile := replicate (length (p_ofile p)) 0, p_cwd := 0\<rparr>"

lemma files_closed_fields [simp]:
  "p_state (files_closed p) = p_state p" "p_parent (files_closed p) = p_parent p"
  "p_pid (files_closed p) = p_pid p" "p_chan (files_closed p) = p_chan p"
  "p_kcont (files_closed p) = p_kcont p" "p_cwd (files_closed p) = 0" "p_killed (files_closed p) = p_killed p"
  "p_tickets (files_closed p) = p_tickets p"
  "p_ofile (files_closed p) = replicate (length (p_ofile p)) 0"
  by (simp_all add: files_closed_def)

lemma exit_form:
  assumes ex: "exit E me s = Inr s'" and me: "me < length (ptable s)"
  obtains ie r x where "initproc s \<noteq> Some me"
    "s' = upd_proc me (parked ZOMBIE KExit ie r) (adopt_all me
       (s\<lparr>ext := x, ptable := map (wake_one (map_option ChProc (p_parent (the_proc s me))))
                     (upd_at me files_closed (ptable s))\<rparr>))"
proof -
  obtain fs x1 where cl: "close_ofiles E (p_ofile (the_proc s me)) (ext s) = (fs, x1)" by fastforce
  have fs: "fs = replicate (length (p_ofile (the_proc s me))) 0"
    using close_ofiles_zero[of E "p_ofile (the_proc s me)" "ext s"] cl by simp
  let ?x2 = "e_end_op E (e_iput E (p_cwd (the_proc s me)) (e_begin_op E x1))"
  have closed: "upd_at me (\<lambda>p. p\<lparr>p_ofile := fs, p_cwd := 0\<rparr>) (ptable s) = upd_at me files_closed (ptable s)"
    by (simp add: upd_at_def files_closed_def fs)
  have ni: "initproc s \<noteq> Some me" using ex by (auto simp: exit_def)
  have "sched E me KExit (upd_proc me (\<lambda>p. p\<lparr>p_state := ZOMBIE\<rparr>) (adopt_all me
      (s\<lparr>ext := e_acquire E PtableLock ?x2,
         ptable := map (wake_one (map_option ChProc (p_parent (the_proc s me))))
                     (upd_at me files_closed (ptable s))\<rparr>))) = Inr s'"
    using ex ni me by (simp add: exit_def cl Let_def closed wakeup1_def acquire_def table_simps)
  then show thesis
    using that[OF ni] unfolding sched_Inr
    by (auto simp: upd_at_upd_at_same parked_def[abs_def])
qed

text \<open>The table a successful \<^verbatim>\<open>exit\<close> leaves behind, slot by slot.\<close>

lemma exit_Inr:
  assumes ex: "exit E me s = Inr s'" and me: "me < length (ptable s)"
  shows "initproc s \<noteq> Some me" and "length (ptable s') = length (ptable s)"
    and "nextpid s' = nextpid s" and "initproc s' = initproc s" and "cpu_proc s' = cpu_proc s"
    and "i < length (ptable s) \<Longrightarrow> i \<noteq> me \<Longrightarrow> ptable s' ! i =
      adopted me (initproc s)
        (map (wake_one (map_option ChProc (p_parent (the_proc s me)))) (ptable s))
        (length (ptable s)) i"
    and "p_state (ptable s' ! me) = ZOMBIE" and "p_kcont (ptable s' ! me) = KExit"
    and "p_pid (ptable s' ! me) = p_pid (the_proc s me)"
    and "p_ofile (ptable s' ! me) = replicate (length (p_ofile (the_proc s me))) 0"
    and "p_cwd (ptable s' ! me) = 0"
    and "p_parent (ptable s' ! me) =
      (if p_parent (the_proc s me) = Some me then initproc s else p_parent (the_proc s me))"
    and "p_tickets (ptable s' ! me) = p_tickets (the_proc s me)" and "p_killed (ptable s' ! me) = p_killed (the_proc s me)"
proof -
  let ?ch = "map_option ChProc (p_parent (the_proc s me))"
  let ?ps = "map (wake_one ?ch) (upd_at me files_closed (ptable s))"
  let ?n = "length (ptable s)"
  from exit_form[OF ex me] obtain ie r x where ni: "initproc s \<noteq> Some me"
    and s': "s' = upd_proc me (parked ZOMBIE KExit ie r) (adopt_all me (s\<lparr>ext := x, ptable := ?ps\<rparr>))" .
  show "initproc s \<noteq> Some me" by (fact ni)
  show "length (ptable s') = ?n" "nextpid s' = nextpid s" "initproc s' = initproc s"
    "cpu_proc s' = cpu_proc s" by (simp_all add: s')
  have same: "p_parent (?ps ! j) = p_parent (the_proc s j)"
    "p_state (?ps ! j) = ZOMBIE \<longleftrightarrow> p_state (the_proc s j) = ZOMBIE" if "j < ?n" for j
    using that by (simp_all add: table_simps)
  show "ptable s' ! i = adopted me (initproc s) (map (wake_one ?ch) (ptable s)) ?n i"
    if "i < ?n" "i \<noteq> me"
    using that same by (auto simp: s' table_simps nth_adopt_all adopted_def Let_def)
  show "p_state (ptable s' ! me) = ZOMBIE" "p_kcont (ptable s' ! me) = KExit"
    "p_pid (ptable s' ! me) = p_pid (the_proc s me)" "p_cwd (ptable s' ! me) = 0"
    "p_ofile (ptable s' ! me) = replicate (length (p_ofile (the_proc s me))) 0"
    "p_parent (ptable s' ! me) =
      (if p_parent (the_proc s me) = Some me then initproc s else p_parent (the_proc s me))"
    "p_tickets (ptable s' ! me) = p_tickets (the_proc s me)" "p_killed (ptable s' ! me) = p_killed (the_proc s me)"
    using me by (simp_all add: s' table_simps nth_adopt_all adopted_parent)
qed

subsection \<open>wait\<close>

lemma wait_scan_spec:
  "wait_scan me ps =
     (\<exists>p\<in>set ps. p_parent p = Some me,
      find_idx (\<lambda>p. p_parent p = Some me \<and> p_state p = ZOMBIE) ps)"
  by (induction ps) (auto split: prod.splits)

text \<open>A reaped slot.\<close>

definition reaped :: "proc \<Rightarrow> proc" where
  "reaped p = p\<lparr>p_kstack := 0, p_state := UNUSED, p_pid := 0, p_parent := None,
                p_name := (p_name p)[0 := NUL], p_killed := 0\<rparr>"

lemma reaped_fields [simp]:
  "p_state (reaped p) = UNUSED" "p_pid (reaped p) = 0" "p_parent (reaped p) = None"
  "p_killed (reaped p) = 0" "p_kstack (reaped p) = 0" "p_kcont (reaped p) = p_kcont p"
  "p_tickets (reaped p) = p_tickets p"
  by (simp_all add: reaped_def)

lemma wait_turn_reap:
  assumes "find_idx (\<lambda>p. p_parent p = Some me \<and> p_state p = ZOMBIE) (ptable s) = Some i"
  shows "wait_turn E me s =
    Inr (WReturn (p_pid (the_proc s i)),
         s\<lparr>ptable := upd_at i reaped (ptable s),
           ext := e_release E PtableLock
             (e_freevm E (p_pgdir (the_proc s i)) (e_kfree E (p_kstack (the_proc s i)) (ext s)))\<rparr>)"
  using assms
  by (simp add: wait_turn_def wait_scan_spec reap_def Let_def release_def reaped_def[abs_def])

lemma wait_turn_fail:
  assumes "\<forall>p\<in>set (ptable s). p_parent p = Some me \<longrightarrow> p_state p \<noteq> ZOMBIE"
    and "(\<forall>p\<in>set (ptable s). p_parent p \<noteq> Some me) \<or> p_killed (the_proc s me) \<noteq> 0"
  shows "wait_turn E me s = Inr (WReturn (- 1), release E PtableLock s)"
proof -
  have "find_idx (\<lambda>p. p_parent p = Some me \<and> p_state p = ZOMBIE) (ptable s) = None"
    using assms(1) by (auto simp: table_simps)
  then show ?thesis using assms(2) by (auto simp: wait_turn_def wait_scan_spec)
qed

text \<open>The three ways a turn of \<^verbatim>\<open>wait\<close> can end.\<close>

lemma wait_turn_cases:
  assumes "wait_turn E me s = Inr (r, s')"
  obtains (reaped) i where
      "find_idx (\<lambda>p. p_parent p = Some me \<and> p_state p = ZOMBIE) (ptable s) = Some i"
      "r = WReturn (p_pid (the_proc s i))" "ptable s' = upd_at i reaped (ptable s)"
      "nextpid s' = nextpid s" "initproc s' = initproc s" "cpu_proc s' = cpu_proc s"
  | (failed) "r = WReturn (- 1)" "ptable s' = ptable s" "nextpid s' = nextpid s"
      "initproc s' = initproc s" "cpu_proc s' = cpu_proc s"
      "\<forall>p\<in>set (ptable s). p_parent p = Some me \<longrightarrow> p_state p \<noteq> ZOMBIE"
      "(\<forall>p\<in>set (ptable s). p_parent p \<noteq> Some me) \<or> p_killed (the_proc s me) \<noteq> 0"
  | (slept) ie reg where "r = WSleep"
      "ptable s' = upd_at me (\<lambda>p. parked SLEEPING KWait ie reg (p\<lparr>p_chan := Some (ChProc me)\<rparr>)) (ptable s)"
      "nextpid s' = nextpid s" "initproc s' = initproc s" "cpu_proc s' = cpu_proc s"
      "\<forall>p\<in>set (ptable s). p_parent p = Some me \<longrightarrow> p_state p \<noteq> ZOMBIE"
      "\<exists>p\<in>set (ptable s). p_parent p = Some me" "p_killed (the_proc s me) = 0"
proof (cases "find_idx (\<lambda>p. p_parent p = Some me \<and> p_state p = ZOMBIE) (ptable s)")
  case (Some i)
  then show thesis using assms that(1)[OF Some] wait_turn_reap[OF Some, of E] by auto
next
  case None
  then have nz: "\<forall>p\<in>set (ptable s). p_parent p = Some me \<longrightarrow> p_state p \<noteq> ZOMBIE"
    by (auto simp: table_simps in_set_conv_nth)
  show thesis
  proof (cases "(\<forall>p\<in>set (ptable s). p_parent p \<noteq> Some me) \<or> p_killed (the_proc s me) \<noteq> 0")
    case True
    then show thesis using assms wait_turn_fail[OF nz True, of E] that(2) nz by auto
  next
    case False
    then have kids: "\<exists>p\<in>set (ptable s). p_parent p = Some me" "p_killed (the_proc s me) = 0" by auto
    then have "sleep E (Some me) (Some (ChProc me)) (Some PtableLock) KWait s = Inr s'" and "r = WSleep"
      using assms None by (auto simp: wait_turn_def wait_scan_spec split: sum.splits)
    then show thesis using sleep_Inr that(3) nz kids by metis
  qed
qed

subsection \<open>The scheduler\<close>

lemma scheduler_Some:
  assumes "scheduler E c f s = (Some i, s')"
  shows "\<exists>w. draw w 0 (ptable s) = Some i"
    and "ptable s' = upd_at i (\<lambda>p. p\<lparr>p_state := RUNNING\<rparr>) (ptable s)"
    and "cpu_proc s' = (cpu_proc s)(c := Some i)"
    and "nextpid s' = nextpid s" and "initproc s' = initproc s"
  using assms by (auto simp: scheduler_def Let_def split: prod.splits option.splits)

lemma scheduler_None:
  assumes "scheduler E c f s = (None, s')"
  shows "ptable s' = ptable s" and "cpu_proc s' = cpu_proc s"
    and "nextpid s' = nextpid s" and "initproc s' = initproc s"
  using assms by (auto simp: scheduler_def Let_def split: prod.splits option.splits)

end
