(* ===== verification/Syscall.thy ===== *)
theory Syscall
  imports Proc_Effects
begin

text \<open>
  The system call layer: argument fetching and dispatch of \<^verbatim>\<open>src/hw3/syscall.c\<close> and the
  handlers of \<^verbatim>\<open>src/hw3/sysproc.c\<close>, with the numbers of \<^verbatim>\<open>src/hw3/syscall.h\<close>. User memory
  is a function from addresses to bytes; addresses are 32-bit words, so the additions in
  the range checks wrap as they do in C. A handler either returns an \<^verbatim>\<open>int\<close> or leaves the
  processor (\<open>WSleep\<close>). The handlers of \<^verbatim>\<open>sysfile.c\<close> (an empty file in the repository)
  are an argument of the dispatcher.
\<close>

section \<open>Arguments\<close>

definition load_int :: "(u32 \<Rightarrow> u8) \<Rightarrow> u32 \<Rightarrow> int" where
  "load_int mem a =
     sint (ucast (mem a) + 256 * ucast (mem (a + 1)) + 65536 * ucast (mem (a + 2))
           + 16777216 * ucast (mem (a + 3)) :: u32)"

definition fetchint :: "(u32 \<Rightarrow> u8) \<Rightarrow> u32 \<Rightarrow> u32 \<Rightarrow> int option" where
  "fetchint mem sz addr = (if addr \<ge> sz \<or> addr + 4 > sz then None else Some (load_int mem addr))"

text \<open>The loop of \<^verbatim>\<open>fetchstr\<close> (its pointer difference is signed): from \<open>s\<close> up to \<open>ep\<close>, looking for a NUL.\<close>

function str_scan :: "(u32 \<Rightarrow> u8) \<Rightarrow> u32 \<Rightarrow> u32 \<Rightarrow> u32 option" where
  "str_scan mem s ep = (if s < ep then (if mem s = 0 then Some s else str_scan mem (s + 1) ep) else None)"
  by pat_completeness auto
termination
proof (relation "measure (\<lambda>(mem, s, ep). unat ep - unat s)")
  fix mem :: "u32 \<Rightarrow> u8" and s ep :: u32
  assume "s < ep"
  then have lt: "unat s < unat ep" by (simp add: word_less_nat_alt)
  then have "unat s + 1 < 4294967296" using unsigned_less[of ep, where ?'a = nat] by simp
  then have "unat (s + 1) = unat s + 1" by (simp add: unat_word_ariths)
  with lt show "((mem, s + 1, ep), (mem, s, ep)) \<in> measure (\<lambda>(mem, s, ep). unat ep - unat s)"
    by simp
qed simp

declare str_scan.simps [simp del]

definition fetchstr :: "(u32 \<Rightarrow> u8) \<Rightarrow> u32 \<Rightarrow> u32 \<Rightarrow> (u32 \<times> int) option" where
  "fetchstr mem sz addr =
     (if addr \<ge> sz then None
      else map_option (\<lambda>s. (addr, sint (s - addr))) (str_scan mem addr sz))"

definition argint :: "(u32 \<Rightarrow> u8) \<Rightarrow> proc \<Rightarrow> int \<Rightarrow> int option" where
  "argint mem p n = fetchint mem (p_sz p) (tf_esp (p_tf p) + 4 + word_of_int (4 * n))"

definition argptr :: "(u32 \<Rightarrow> u8) \<Rightarrow> proc \<Rightarrow> int \<Rightarrow> int \<Rightarrow> u32 option" where
  "argptr mem p n len =
     (case argint mem p n of
        None \<Rightarrow> None
      | Some i \<Rightarrow>
          (let a = (word_of_int i :: u32)
           in if a \<ge> p_sz p \<or> a + word_of_int len > p_sz p then None else Some a))"

definition argstr :: "(u32 \<Rightarrow> u8) \<Rightarrow> proc \<Rightarrow> int \<Rightarrow> (u32 \<times> int) option" where
  "argstr mem p n =
     (case argint mem p n of None \<Rightarrow> None | Some addr \<Rightarrow> fetchstr mem (p_sz p) (word_of_int addr))"

section \<open>Handlers of sysproc.c\<close>

type_synonym 'x sysresult = "kerror + wait_result \<times> 'x kstate"

definition umem :: "'x kenv \<Rightarrow> 'x kstate \<Rightarrow> nat \<Rightarrow> u32 \<Rightarrow> u8" where
  "umem E s me = e_umem E (p_pgdir (the_proc s me)) (ext s)"

definition ret :: "int \<times> 'x kstate \<Rightarrow> 'x sysresult" where
  "ret rs = Inr (WReturn (fst rs), snd rs)"

definition sys_fork :: "'x kenv \<Rightarrow> nat \<Rightarrow> 'x kstate \<Rightarrow> 'x sysresult" where
  "sys_fork E me s = ret (fork E me s)"

definition sys_exit :: "'x kenv \<Rightarrow> nat \<Rightarrow> 'x kstate \<Rightarrow> 'x sysresult" where
  "sys_exit E me s = (case exit E me s of Inl e \<Rightarrow> Inl e | Inr s' \<Rightarrow> Inr (WSleep, s'))"

definition sys_wait :: "'x kenv \<Rightarrow> nat \<Rightarrow> 'x kstate \<Rightarrow> 'x sysresult" where
  "sys_wait E me s = wait E me s"

definition sys_kill :: "'x kenv \<Rightarrow> nat \<Rightarrow> 'x kstate \<Rightarrow> 'x sysresult" where
  "sys_kill E me s =
     (case argint (umem E s me) (the_proc s me) 0 of
        None \<Rightarrow> ret (- 1, s)
      | Some pid \<Rightarrow> ret (kill E pid s))"

definition sys_getpid :: "nat \<Rightarrow> 'x kstate \<Rightarrow> 'x sysresult" where
  "sys_getpid me s = ret (p_pid (the_proc s me), s)"

definition sys_sbrk :: "'x kenv \<Rightarrow> nat \<Rightarrow> 'x kstate \<Rightarrow> 'x sysresult" where
  "sys_sbrk E me s =
     (case argint (umem E s me) (the_proc s me) 0 of
        None \<Rightarrow> ret (- 1, s)
      | Some n \<Rightarrow>
          (let addr = sint (p_sz (the_proc s me));
               (r, s') = growproc E me n s
           in if r < 0 then ret (- 1, s') else ret (addr, s')))"

text \<open>
  One turn of the loop of \<^verbatim>\<open>sys_sleep\<close>, with \<^verbatim>\<open>tickslock\<close> held. The comparison is unsigned,
  because \<^verbatim>\<open>ticks - ticks0\<close> is.
\<close>

definition sys_sleep_turn :: "'x kenv \<Rightarrow> nat \<Rightarrow> u32 \<Rightarrow> int \<Rightarrow> 'x kstate \<Rightarrow> 'x sysresult" where
  "sys_sleep_turn E me ticks0 n s =
     (if e_ticks E (ext s) - ticks0 < word_of_int n
      then (if p_killed (the_proc s me) \<noteq> 0 then ret (- 1, release E TicksLock s)
            else (case sleep E (Some me) (Some ChTicks) (Some TicksLock) (KSysSleep ticks0 n) s of
                    Inl e \<Rightarrow> Inl e
                  | Inr s' \<Rightarrow> Inr (WSleep, s')))
      else ret (0, release E TicksLock s))"

definition sys_sleep :: "'x kenv \<Rightarrow> nat \<Rightarrow> 'x kstate \<Rightarrow> 'x sysresult" where
  "sys_sleep E me s =
     (case argint (umem E s me) (the_proc s me) 0 of
        None \<Rightarrow> ret (- 1, s)
      | Some n \<Rightarrow>
          (let s1 = acquire E TicksLock s
           in sys_sleep_turn E me (e_ticks E (ext s1)) n s1))"

definition sys_sleep_resume :: "'x kenv \<Rightarrow> nat \<Rightarrow> u32 \<Rightarrow> int \<Rightarrow> 'x kstate \<Rightarrow> 'x sysresult" where
  "sys_sleep_resume E me ticks0 n s = sys_sleep_turn E me ticks0 n (sleep_resume E me TicksLock s)"

definition sys_uptime :: "'x kenv \<Rightarrow> 'x kstate \<Rightarrow> 'x sysresult" where
  "sys_uptime E s =
     (let s1 = acquire E TicksLock s
      in ret (sint (e_ticks E (ext s1)), release E TicksLock s1))"

definition sys_gettime :: "'x kenv \<Rightarrow> nat \<Rightarrow> 'x kstate \<Rightarrow> 'x sysresult" where
  "sys_gettime E me s =
     (case argptr (umem E s me) (the_proc s me) 0 (e_sizeof_rtcdate E) of
        None \<Rightarrow> ret (- 1, s)
      | Some d \<Rightarrow> ret (0, s\<lparr>ext := e_cmostime E d (ext s)\<rparr>))"

definition sys_settickets :: "'x kenv \<Rightarrow> nat \<Rightarrow> 'x kstate \<Rightarrow> 'x sysresult" where
  "sys_settickets E me s =
     (case argint (umem E s me) (the_proc s me) 0 of
        None \<Rightarrow> ret (- 1, s)
      | Some tix \<Rightarrow>
          (let s1 = upd_proc me (\<lambda>p. p\<lparr>p_tickets := tix\<rparr>) s
           in ret (p_tickets (the_proc s1 me), s1)))"

section \<open>Dispatch\<close>

datatype sysno = SYS_fork | SYS_exit | SYS_wait | SYS_pipe | SYS_read | SYS_kill | SYS_exec
  | SYS_fstat | SYS_chdir | SYS_dup | SYS_getpid | SYS_sbrk | SYS_sleep | SYS_uptime | SYS_open
  | SYS_write | SYS_mknod | SYS_unlink | SYS_link | SYS_mkdir | SYS_close | SYS_gettime
  | SYS_settickets

text \<open>The numbers of \<^verbatim>\<open>syscall.h\<close>.\<close>

fun sysno_num :: "sysno \<Rightarrow> int" where
  "sysno_num SYS_fork = 1" | "sysno_num SYS_exit = 2" | "sysno_num SYS_wait = 3"
| "sysno_num SYS_pipe = 4" | "sysno_num SYS_read = 5" | "sysno_num SYS_kill = 6"
| "sysno_num SYS_exec = 7" | "sysno_num SYS_fstat = 8" | "sysno_num SYS_chdir = 9"
| "sysno_num SYS_dup = 10" | "sysno_num SYS_getpid = 11" | "sysno_num SYS_sbrk = 12"
| "sysno_num SYS_sleep = 13" | "sysno_num SYS_uptime = 14" | "sysno_num SYS_open = 15"
| "sysno_num SYS_write = 16" | "sysno_num SYS_mknod = 17" | "sysno_num SYS_unlink = 18"
| "sysno_num SYS_link = 19" | "sysno_num SYS_mkdir = 20" | "sysno_num SYS_close = 21"
| "sysno_num SYS_gettime = 22" | "sysno_num SYS_settickets = 23"

text \<open>
  The array \<^verbatim>\<open>syscalls\<close>: designated initialisers, so entry 0 is null and entries 1 to 23 hold
  the handlers in the order of the table.
\<close>

definition syscalls :: "sysno option list" where
  "syscalls = None # map Some [SYS_fork, SYS_exit, SYS_wait, SYS_pipe, SYS_read, SYS_kill, SYS_exec,
     SYS_fstat, SYS_chdir, SYS_dup, SYS_getpid, SYS_sbrk, SYS_sleep, SYS_uptime, SYS_open,
     SYS_write, SYS_mknod, SYS_unlink, SYS_link, SYS_mkdir, SYS_close, SYS_gettime,
     SYS_settickets]"

fun run_handler :: "'x kenv \<Rightarrow> (sysno \<Rightarrow> nat \<Rightarrow> 'x kstate \<Rightarrow> 'x sysresult) \<Rightarrow> sysno \<Rightarrow> nat
    \<Rightarrow> 'x kstate \<Rightarrow> 'x sysresult" where
  "run_handler E H SYS_fork me s = sys_fork E me s"
| "run_handler E H SYS_exit me s = sys_exit E me s"
| "run_handler E H SYS_wait me s = sys_wait E me s"
| "run_handler E H SYS_kill me s = sys_kill E me s"
| "run_handler E H SYS_getpid me s = sys_getpid me s"
| "run_handler E H SYS_sbrk me s = sys_sbrk E me s"
| "run_handler E H SYS_sleep me s = sys_sleep E me s"
| "run_handler E H SYS_uptime me s = sys_uptime E s"
| "run_handler E H SYS_gettime me s = sys_gettime E me s"
| "run_handler E H SYS_settickets me s = sys_settickets E me s"
| "run_handler E H n me s = H n me s"

definition set_eax :: "nat \<Rightarrow> int \<Rightarrow> 'x kstate \<Rightarrow> 'x kstate" where
  "set_eax me r s = upd_proc me (\<lambda>p. p\<lparr>p_tf := (p_tf p)\<lparr>tf_eax := word_of_int r\<rparr>\<rparr>) s"

definition lookup_syscall :: "int \<Rightarrow> sysno option" where
  "lookup_syscall num =
     (if num > 0 \<and> num < int (length syscalls) then syscalls ! nat num else None)"

text \<open>
  \<^verbatim>\<open>syscall\<close>: the result of a handler that returns goes to \<^verbatim>\<open>eax\<close>; a handler that left
  the processor stores it when it is resumed. The message for an unknown number is
  the component that is printed: the pid, the name and the number.
\<close>

definition syscall :: "'x kenv \<Rightarrow> (sysno \<Rightarrow> nat \<Rightarrow> 'x kstate \<Rightarrow> 'x sysresult) \<Rightarrow> nat \<Rightarrow> 'x kstate
    \<Rightarrow> kerror + wait_result \<times> (int \<times> string \<times> int) list \<times> 'x kstate" where
  "syscall E H me s =
     (let num = sint (tf_eax (p_tf (the_proc s me)))
      in case lookup_syscall num of
           Some n \<Rightarrow>
             (case run_handler E H n me s of
                Inl e \<Rightarrow> Inl e
              | Inr (WReturn r, s') \<Rightarrow> Inr (WReturn r, [], set_eax me r s')
              | Inr (WSleep, s') \<Rightarrow> Inr (WSleep, [], s'))
         | None \<Rightarrow>
             Inr (WReturn (- 1),
                  [(p_pid (the_proc s me), cstr (p_name (the_proc s me)), num)],
                  set_eax me (- 1) s))"

end
