(* ===== verification/Kernel.thy ===== *)
theory Kernel
  imports Syscall
begin

text \<open>
  The kernel as a transition system: any number of processors, each running a process or its
  scheduler, one operation of \<^verbatim>\<open>src/hw3/proc.c\<close> per step. An operation that leaves the
  processor is followed by the tail of the scheduler's iteration, and a dispatch by the
  continuation of the process chosen, because \<^verbatim>\<open>ptable.lock\<close> is held over both. The
  invariant covers pids, the process tree, the processors, sleeping parents and zombies.
\<close>

section \<open>Steps\<close>

text \<open>What a process does when the scheduler switches to it.\<close>

fun resume_as :: "'x kenv \<Rightarrow> nat \<Rightarrow> 'x kstate \<Rightarrow> kcont \<Rightarrow> 'x sysresult" where
  "resume_as E me s KForkret = ret (0, forkret E s)"
| "resume_as E me s KYield = ret (0, yield_resume E me s)"
| "resume_as E me s KWait = wait_resume E me s"
| "resume_as E me s (KSysSleep t n) = sys_sleep_resume E me t n s"
| "resume_as E me s (KSleep l) = ret (0, sleep_resume E me l s)"
| "resume_as E me s KExit = Inl (Panic ''zombie exit'')"

definition resume :: "'x kenv \<Rightarrow> nat \<Rightarrow> 'x kstate \<Rightarrow> 'x sysresult" where
  "resume E me s = resume_as E me s (p_kcont (the_proc s me))"

text \<open>
  The operations outside \<^verbatim>\<open>fork\<close>. The first argument is the process that makes a system call, if
  the operation is one that a process inside \<^verbatim>\<open>fork\<close> does not make; the timer may make
  any process yield, also one inside \<^verbatim>\<open>fork\<close>. \<open>o_user\<close> is a process that ran in user mode and
  trapped with other registers, \<open>o_external\<close> any change of state outside these files.
\<close>

inductive ostep :: "'x kenv \<Rightarrow> nat option \<Rightarrow> 'x kstate \<Rightarrow> 'x kstate \<Rightarrow> bool" for E where
  o_exit: "cpu_proc s c = Some me \<Longrightarrow> exit E me s = Inr s' \<Longrightarrow> ostep E (Some me) s (scheduler_return E c s')"
| o_wait_return: "cpu_proc s c = Some me \<Longrightarrow> wait E me s = Inr (WReturn r, s') \<Longrightarrow> ostep E (Some me) s s'"
| o_wait_sleep: "cpu_proc s c = Some me \<Longrightarrow> wait E me s = Inr (WSleep, s') \<Longrightarrow>
    ostep E (Some me) s (scheduler_return E c s')"
| o_sleep: "cpu_proc s c = Some me \<Longrightarrow> k \<noteq> KWait \<Longrightarrow> k \<noteq> KExit \<Longrightarrow>
    sleep E (Some me) ch (Some l) k s = Inr s' \<Longrightarrow> ostep E (Some me) s (scheduler_return E c s')"
| o_growproc: "cpu_proc s c = Some me \<Longrightarrow> ostep E (Some me) s (snd (growproc E me n s))"
| o_settickets: "cpu_proc s c = Some me \<Longrightarrow> sys_settickets E me s = Inr (r, s') \<Longrightarrow> ostep E (Some me) s s'"
| o_user: "cpu_proc s c = Some me \<Longrightarrow> ostep E (Some me) s (upd_proc me (\<lambda>p. p\<lparr>p_tf := tf\<rparr>) s)"
| o_external: "ostep E None s (s\<lparr>ext := x\<rparr>)"
| o_yield: "cpu_proc s c = Some me \<Longrightarrow> yield E me s = Inr s' \<Longrightarrow> ostep E None s (scheduler_return E c s')"
| o_wakeup: "ostep E None s (wakeup E ch s)"
| o_kill: "ostep E None s (snd (kill E n s))"
| o_idle: "cpu_proc s c = None \<Longrightarrow> scheduler E c f s = (None, s') \<Longrightarrow> ostep E None s s'"
| o_dispatch: "cpu_proc s c = None \<Longrightarrow> scheduler E c f s = (Some i, s1) \<Longrightarrow>
    resume E i s1 = Inr (WReturn r, s') \<Longrightarrow> ostep E None s s'"
| o_dispatch_block: "cpu_proc s c = None \<Longrightarrow> scheduler E c f s = (Some i, s1) \<Longrightarrow>
    resume E i s1 = Inr (WSleep, s') \<Longrightarrow> ostep E None s (scheduler_return E c s')"

text \<open>
  The kernel: \<^verbatim>\<open>fork\<close> holds no lock between \<^verbatim>\<open>allocproc\<close> and its last store, so it is two steps and
  others may come in between. The second component of a configuration maps a process that
  is inside \<^verbatim>\<open>fork\<close> to the slot in its local variable \<^verbatim>\<open>np\<close>. A step of \<^verbatim>\<open>fork\<close> carries the value it
  returns, if it is the last one.
\<close>

type_synonym 'x kconf = "'x kstate \<times> (nat \<rightharpoonup> nat)"

inductive fork_step :: "'x kenv \<Rightarrow> nat \<Rightarrow> int option \<Rightarrow> 'x kconf \<Rightarrow> 'x kconf \<Rightarrow> bool" for E where
  f_alloc: "cpu_proc s c = Some me \<Longrightarrow> fk me = None \<Longrightarrow> nextpid s < INT_MAX \<Longrightarrow>
    allocproc E s = (Some np, s') \<Longrightarrow> fork_step E me None (s, fk) (s', fk(me \<mapsto> np))"
| f_noproc: "cpu_proc s c = Some me \<Longrightarrow> fk me = None \<Longrightarrow> nextpid s < INT_MAX \<Longrightarrow>
    allocproc E s = (None, s') \<Longrightarrow> fork_step E me (Some (- 1)) (s, fk) (s', fk)"
| f_rest: "cpu_proc s c = Some me \<Longrightarrow> fk me = Some np \<Longrightarrow> fork_rest E me np s = (r, s') \<Longrightarrow>
    fork_step E me (Some r) (s, fk) (s', fk(me := None))"

inductive kstep :: "'x kenv \<Rightarrow> 'x kconf \<Rightarrow> 'x kconf \<Rightarrow> bool" for E where
  k_fork: "fork_step E me r z z' \<Longrightarrow> kstep E z z'"
| k_other: "ostep E a s s' \<Longrightarrow> (\<And>me. a = Some me \<Longrightarrow> fk me = None) \<Longrightarrow> kstep E (s, fk) (s', fk)"

text \<open>Boot: an empty table, then \<^verbatim>\<open>userinit\<close>.\<close>

definition blank :: "'x kstate \<Rightarrow> bool" where
  "blank s \<longleftrightarrow> (\<forall>p\<in>set (ptable s). p_state p = UNUSED \<and> p_parent p = None \<and> p_pid p = 0) \<and> nextpid s = 1 \<and>
     cpu_proc s = (\<lambda>_. None)"

definition booted :: "'x kenv \<Rightarrow> 'x kstate \<Rightarrow> bool" where
  "booted E s \<longleftrightarrow> (\<exists>s0. blank s0 \<and> userinit E s0 = Inr s)"

definition kinit :: "'x kenv \<Rightarrow> 'x kconf \<Rightarrow> bool" where
  "kinit E z \<longleftrightarrow> booted E (fst z) \<and> snd z = Map.empty"

section \<open>The invariant\<close>

definition active :: "proc \<Rightarrow> bool" where
  "active p \<longleftrightarrow> p_state p = SLEEPING \<or> p_state p = RUNNABLE \<or> p_state p = RUNNING"

definition live :: "proc \<Rightarrow> bool" where
  "live p \<longleftrightarrow> active p \<or> p_state p = ZOMBIE"

text \<open>The pids of processes are fresh and distinct.\<close>

definition pid_inv :: "'x kstate \<Rightarrow> bool" where
  "pid_inv s \<longleftrightarrow> 0 < nextpid s \<and>
     (\<forall>i<length (ptable s). live (the_proc s i) \<longrightarrow> 0 < p_pid (the_proc s i) \<and> p_pid (the_proc s i) < nextpid s) \<and>
     (\<forall>i<length (ptable s). \<forall>j<length (ptable s). live (the_proc s i) \<longrightarrow> live (the_proc s j) \<longrightarrow>
        p_pid (the_proc s i) = p_pid (the_proc s j) \<longrightarrow> i = j)"

text \<open>
  The process tree: the first process is active and has no parent; every other used slot
  has an active parent with a smaller pid; unused slots and embryos have none.
\<close>

definition tree_root :: "'x kstate \<Rightarrow> nat \<Rightarrow> bool" where
  "tree_root s r \<longleftrightarrow>
     r < length (ptable s) \<and> initproc s = Some r \<and> active (the_proc s r) \<and> p_parent (the_proc s r) = None \<and>
     (\<forall>i<length (ptable s). live (the_proc s i) \<longrightarrow> i \<noteq> r \<longrightarrow> p_pid (the_proc s r) < p_pid (the_proc s i) \<and>
        (\<exists>j<length (ptable s). p_parent (the_proc s i) = Some j \<and> active (the_proc s j) \<and>
           p_pid (the_proc s j) < p_pid (the_proc s i))) \<and>
     (\<forall>i<length (ptable s). \<not> live (the_proc s i) \<longrightarrow> p_parent (the_proc s i) = None)"

definition tree_inv :: "'x kstate \<Rightarrow> bool" where
  "tree_inv s \<longleftrightarrow> (\<exists>r. tree_root s r)"

text \<open>A process is running exactly when it is the current process of one processor.\<close>

definition cpu_inv :: "'x kstate \<Rightarrow> bool" where
  "cpu_inv s \<longleftrightarrow>
     (\<forall>i<length (ptable s). p_state (the_proc s i) = RUNNING \<longleftrightarrow> (\<exists>c. cpu_proc s c = Some i)) \<and>
     (\<forall>c i. cpu_proc s c = Some i \<longrightarrow> i < length (ptable s)) \<and>
     (\<forall>c d i. cpu_proc s c = Some i \<longrightarrow> cpu_proc s d = Some i \<longrightarrow> c = d)"

text \<open>
  No lost wakeup: a process asleep in \<^verbatim>\<open>wait\<close> sleeps on itself, has a child and none of its
  children is a zombie.
\<close>

definition sleep_inv :: "'x kstate \<Rightarrow> bool" where
  "sleep_inv s \<longleftrightarrow>
     (\<forall>i<length (ptable s). p_state (the_proc s i) = SLEEPING \<longrightarrow> p_kcont (the_proc s i) = KWait \<longrightarrow>
        p_chan (the_proc s i) = Some (ChProc i) \<and>
        (\<exists>j<length (ptable s). p_parent (the_proc s j) = Some i) \<and>
        (\<forall>j<length (ptable s). p_parent (the_proc s j) = Some i \<longrightarrow> p_state (the_proc s j) \<noteq> ZOMBIE))"

text \<open>Zombies have released their files; an active process never resumes behind \<^verbatim>\<open>exit\<close>.\<close>

definition zombie_inv :: "'x kstate \<Rightarrow> bool" where
  "zombie_inv s \<longleftrightarrow>
     (\<forall>i<length (ptable s).
        (p_state (the_proc s i) = ZOMBIE \<longrightarrow> (\<forall>f\<in>set (p_ofile (the_proc s i)). f = 0) \<and> p_cwd (the_proc s i) = 0) \<and>
        (active (the_proc s i) \<longrightarrow> p_kcont (the_proc s i) \<noteq> KExit))"

definition kinv :: "'x kstate \<Rightarrow> bool" where
  "kinv s \<longleftrightarrow> pid_inv s \<and> tree_inv s \<and> cpu_inv s \<and> sleep_inv s \<and> zombie_inv s"

lemmas kinv_defs = pid_inv_def tree_inv_def tree_root_def cpu_inv_def sleep_inv_def zombie_inv_def

lemma active_states [simp]:
  "p_state p = SLEEPING \<Longrightarrow> active p" "p_state p = RUNNABLE \<Longrightarrow> active p" "p_state p = RUNNING \<Longrightarrow> active p"
  "p_state p = UNUSED \<Longrightarrow> \<not> active p" "p_state p = EMBRYO \<Longrightarrow> \<not> active p" "p_state p = ZOMBIE \<Longrightarrow> \<not> active p"
  by (simp_all add: active_def)

lemma live_states [simp]:
  "active p \<Longrightarrow> live p" "p_state p = ZOMBIE \<Longrightarrow> live p" "p_state p = UNUSED \<Longrightarrow> \<not> live p"
  "p_state p = EMBRYO \<Longrightarrow> \<not> live p"
  by (simp_all add: live_def)

lemma active_wake_one [simp]: "active (wake_one ch p) \<longleftrightarrow> active p"
  by (auto simp: active_def p_state_wake_one)

lemma live_wake_one [simp]: "live (wake_one ch p) \<longleftrightarrow> live p"
  by (simp add: live_def)

text \<open>The invariant only looks at four fields of the state.\<close>

lemma kinv_cong:
  assumes "ptable t = ptable s" "nextpid t = nextpid s" "initproc t = initproc s" "cpu_proc t = cpu_proc s"
  shows "kinv t = kinv s"
  using assms by (simp add: kinv_def kinv_defs)

lemma kinv_current:
  assumes "kinv s" and "cpu_proc s c = Some me"
  shows "me < length (ptable s)" and "p_state (the_proc s me) = RUNNING"
  using assms by (auto simp: kinv_def cpu_inv_def)

section \<open>Preservation\<close>

lemma active_cong: "p_state p = p_state q \<Longrightarrow> active p = active q"
  by (simp add: active_def)

lemma live_cong: "p_state p = p_state q \<Longrightarrow> live p = live q"
  by (simp add: live_def active_def)

lemma live_split: "live p \<longleftrightarrow> active p \<or> p_state p = ZOMBIE"
  by (simp add: live_def)

text \<open>Waking sleepers: any change of some sleeping slots to runnable.\<close>

lemma wake_inv:
  assumes inv: "kinv s" and len: "length (ptable t) = length (ptable s)"
    and fields: "nextpid t = nextpid s" "initproc t = initproc s" "cpu_proc t = cpu_proc s"
    and same: "\<And>i. i < length (ptable s) \<Longrightarrow> p_pid (the_proc t i) = p_pid (the_proc s i) \<and>
        p_parent (the_proc t i) = p_parent (the_proc s i) \<and> p_chan (the_proc t i) = p_chan (the_proc s i) \<and>
        p_kcont (the_proc t i) = p_kcont (the_proc s i) \<and> p_ofile (the_proc t i) = p_ofile (the_proc s i) \<and>
        p_cwd (the_proc t i) = p_cwd (the_proc s i)"
    and st: "\<And>i. i < length (ptable s) \<Longrightarrow> p_state (the_proc t i) = p_state (the_proc s i) \<or>
        p_state (the_proc s i) = SLEEPING \<and> p_state (the_proc t i) = RUNNABLE"
  shows "kinv t"
proof -
  have sts: "p_state (the_proc t i) = UNUSED \<longleftrightarrow> p_state (the_proc s i) = UNUSED"
    "p_state (the_proc t i) = ZOMBIE \<longleftrightarrow> p_state (the_proc s i) = ZOMBIE"
    "p_state (the_proc t i) = RUNNING \<longleftrightarrow> p_state (the_proc s i) = RUNNING"
    "active (the_proc t i) = active (the_proc s i)" "live (the_proc t i) = live (the_proc s i)"
    "p_state (the_proc t i) = SLEEPING \<Longrightarrow> p_state (the_proc s i) = SLEEPING"
    if "i < length (ptable s)" for i
    using st[OF that] by (auto simp: active_def live_def)
  have pid: "pid_inv t" and tree: "tree_inv t" and cpu: "cpu_inv t" and zombie: "zombie_inv t"
    using inv unfolding kinv_def kinv_defs len fields
    by (simp_all add: same sts cong: conj_cong imp_cong)
  have "sleep_inv t"
    using inv unfolding kinv_def sleep_inv_def len fields
    by (simp add: same sts cong: conj_cong imp_cong)
  with pid tree cpu zombie show ?thesis by (simp add: kinv_def)
qed

lemma wakeup_inv: "kinv s \<Longrightarrow> kinv (wakeup E ch s)"
  by (rule wake_inv) (auto simp: wakeup_def p_state_wake_one split: if_splits)

lemma kill_inv: "kinv s \<Longrightarrow> kinv (snd (kill E n s))"
proof (cases "find_idx (\<lambda>p. p_pid p = n) (ptable s)")
  case None
  then show "kinv s \<Longrightarrow> ?thesis"
    by (subst kill_missing) (auto simp: find_idx_None in_set_conv_nth intro: kinv_cong[THEN iffD2])
next
  case (Some i)
  show "kinv s \<Longrightarrow> ?thesis"
    by (rule wake_inv) (auto simp: kill_found[OF Some] nth_upd_at split: if_splits)
qed

text \<open>A processor gives up its process.\<close>

lemma cpu_inv_leave:
  assumes inv: "cpu_inv s" and cur: "cpu_proc s c = Some me"
    and len: "length (ptable t) = length (ptable s)" and cpu: "cpu_proc t = (cpu_proc s)(c := None)"
    and run: "\<And>i. i < length (ptable s) \<Longrightarrow>
      p_state (the_proc t i) = RUNNING \<longleftrightarrow> i \<noteq> me \<and> p_state (the_proc s i) = RUNNING"
  shows "cpu_inv t"
proof -
  have "(\<exists>d. cpu_proc t d = Some i) \<longleftrightarrow> i \<noteq> me \<and> (\<exists>d. cpu_proc s d = Some i)" for i
  proof
    assume "\<exists>d. cpu_proc t d = Some i"
    then show "i \<noteq> me \<and> (\<exists>d. cpu_proc s d = Some i)"
      using inv cur unfolding cpu_inv_def cpu by (auto split: if_splits)
  next
    assume "i \<noteq> me \<and> (\<exists>d. cpu_proc s d = Some i)"
    then obtain d where "cpu_proc s d = Some i" "d \<noteq> c" using cur by fastforce
    then show "\<exists>d. cpu_proc t d = Some i" by (auto simp: cpu)
  qed
  moreover have "(\<forall>d i. cpu_proc t d = Some i \<longrightarrow> i < length (ptable s)) \<and>
      (\<forall>a b i. cpu_proc t a = Some i \<longrightarrow> cpu_proc t b = Some i \<longrightarrow> a = b)"
    using inv unfolding cpu_inv_def cpu by (auto split: if_splits)
  ultimately show ?thesis using inv unfolding cpu_inv_def len by (simp add: run)
qed

text \<open>A processor's process stops running, becoming runnable or asleep.\<close>

lemma park_inv:
  assumes inv: "kinv s" and cur: "cpu_proc s c = Some me"
    and tab: "ptable t = upd_at me f (ptable s)"
    and fields: "nextpid t = nextpid s" "initproc t = initproc s" "cpu_proc t = (cpu_proc s)(c := None)"
    and f: "\<And>p. p_pid (f p) = p_pid p" "\<And>p. p_parent (f p) = p_parent p" "\<And>p. p_kcont (f p) = k"
    and st: "\<And>p. p_state (f p) = st" "st = RUNNABLE \<or> st = SLEEPING" and k: "k \<noteq> KExit"
    and wait: "st = SLEEPING \<Longrightarrow> k = KWait \<Longrightarrow>
      (\<forall>p. p_chan (f p) = Some (ChProc me)) \<and>
      (\<exists>j<length (ptable s). p_parent (the_proc s j) = Some me) \<and>
      (\<forall>j<length (ptable s). p_parent (the_proc s j) = Some me \<longrightarrow> p_state (the_proc s j) \<noteq> ZOMBIE)"
  shows "kinv t"
proof -
  have len: "length (ptable t) = length (ptable s)" by (simp add: tab)
  have nth: "the_proc t i = (if i = me then f (the_proc s i) else the_proc s i)"
    if "i < length (ptable s)" for i
    using that by (simp add: tab table_simps)
  note me = kinv_current[OF inv cur]
  have sts: "p_pid (the_proc t i) = p_pid (the_proc s i)" "p_parent (the_proc t i) = p_parent (the_proc s i)"
    "active (the_proc t i) = active (the_proc s i)" "live (the_proc t i) = live (the_proc s i)"
    "p_state (the_proc t i) = UNUSED \<longleftrightarrow> p_state (the_proc s i) = UNUSED"
    "p_state (the_proc t i) = ZOMBIE \<longleftrightarrow> p_state (the_proc s i) = ZOMBIE"
    if "i < length (ptable s)" for i
    using that me st(2) by (auto simp: nth active_def live_def f st(1))
  have "pid_inv t" "tree_inv t"
    using inv unfolding kinv_def pid_inv_def tree_inv_def tree_root_def len fields
    by (simp_all add: sts cong: conj_cong imp_cong)
  moreover have "cpu_inv t"
  proof (rule cpu_inv_leave[OF _ cur len fields(3)])
    show "cpu_inv s" using inv by (simp add: kinv_def)
  qed (use st in \<open>auto simp: nth\<close>)
  moreover have "sleep_inv t"
  proof -
    have "sleep_inv s" using inv by (simp add: kinv_def)
    then have "p_chan (the_proc t i) = Some (ChProc i) \<and>
        (\<exists>j<length (ptable s). p_parent (the_proc s j) = Some i) \<and>
        (\<forall>j<length (ptable s). p_parent (the_proc s j) = Some i \<longrightarrow> p_state (the_proc s j) \<noteq> ZOMBIE)"
      if "i < length (ptable s)" "p_state (the_proc t i) = SLEEPING" "p_kcont (the_proc t i) = KWait" for i
      using that wait unfolding sleep_inv_def by (cases "i = me") (simp_all add: nth f st(1))
    then show ?thesis unfolding sleep_inv_def len by (simp add: sts cong: conj_cong imp_cong)
  qed
  moreover have "zombie_inv t"
  proof -
    have "zombie_inv s" using inv by (simp add: kinv_def)
    then show ?thesis unfolding zombie_inv_def len using k st(2) by (auto simp: nth f(3) st(1))
  qed
  ultimately show ?thesis by (simp add: kinv_def)
qed

text \<open>Introduction and elimination forms used by the remaining cases.\<close>

lemma pid_invI:
  assumes "0 < nextpid s"
    and "\<And>i. i < length (ptable s) \<Longrightarrow> live (the_proc s i) \<Longrightarrow> 0 < p_pid (the_proc s i) \<and> p_pid (the_proc s i) < nextpid s"
    and "\<And>i j. i < length (ptable s) \<Longrightarrow> live (the_proc s i) \<Longrightarrow> j < length (ptable s) \<Longrightarrow> live (the_proc s j) \<Longrightarrow>
      p_pid (the_proc s i) = p_pid (the_proc s j) \<Longrightarrow> i = j"
  shows "pid_inv s"
  using assms unfolding pid_inv_def by blast

lemma pid_invD:
  assumes "pid_inv s"
  shows "i < length (ptable s) \<Longrightarrow> live (the_proc s i) \<Longrightarrow> 0 < p_pid (the_proc s i)"
    and "i < length (ptable s) \<Longrightarrow> live (the_proc s i) \<Longrightarrow> p_pid (the_proc s i) < nextpid s"
    and "i < length (ptable s) \<Longrightarrow> j < length (ptable s) \<Longrightarrow> live (the_proc s i) \<Longrightarrow> live (the_proc s j) \<Longrightarrow>
      p_pid (the_proc s i) = p_pid (the_proc s j) \<Longrightarrow> i = j"
  using assms unfolding pid_inv_def by blast+

lemma tree_rootD:
  assumes "tree_root s r"
  shows "r < length (ptable s)" and "initproc s = Some r" and "active (the_proc s r)"
    and "p_parent (the_proc s r) = None"
    and "i < length (ptable s) \<Longrightarrow> live (the_proc s i) \<Longrightarrow> i \<noteq> r \<Longrightarrow> p_pid (the_proc s r) < p_pid (the_proc s i)"
    and "i < length (ptable s) \<Longrightarrow> live (the_proc s i) \<Longrightarrow> i \<noteq> r \<Longrightarrow>
       \<exists>j<length (ptable s). p_parent (the_proc s i) = Some j \<and> active (the_proc s j) \<and>
         p_pid (the_proc s j) < p_pid (the_proc s i)"
    and "i < length (ptable s) \<Longrightarrow> \<not> live (the_proc s i) \<Longrightarrow> p_parent (the_proc s i) = None"
  using assms unfolding tree_root_def by blast+

lemma tree_rootI:
  assumes "r < length (ptable s)" "initproc s = Some r" "active (the_proc s r)"
    "p_parent (the_proc s r) = None"
    "\<And>i. i < length (ptable s) \<Longrightarrow> live (the_proc s i) \<Longrightarrow> i \<noteq> r \<Longrightarrow> p_pid (the_proc s r) < p_pid (the_proc s i) \<and>
       (\<exists>j<length (ptable s). p_parent (the_proc s i) = Some j \<and> active (the_proc s j) \<and>
         p_pid (the_proc s j) < p_pid (the_proc s i))"
    "\<And>i. i < length (ptable s) \<Longrightarrow> \<not> live (the_proc s i) \<Longrightarrow> p_parent (the_proc s i) = None"
  shows "tree_root s r"
  using assms unfolding tree_root_def by blast

lemma parent_active:
  assumes "tree_root s r" and "pid_inv s" and "i < length (ptable s)" and "p_parent (the_proc s i) = Some j"
  shows "j < length (ptable s)" and "active (the_proc s j)" and "live (the_proc s i)"
    and "p_pid (the_proc s j) < p_pid (the_proc s i)"
proof -
  show l: "live (the_proc s i)" using tree_rootD(7)[OF assms(1,3)] assms(4) by auto
  have "i \<noteq> r" using tree_rootD(4)[OF assms(1)] assms(4) by auto
  from tree_rootD(6)[OF assms(1,3) l this] assms(4)
  show "j < length (ptable s)" "active (the_proc s j)" "p_pid (the_proc s j) < p_pid (the_proc s i)"
    by auto
qed

lemma kinvD:
  assumes "kinv s"
  shows "pid_inv s" "tree_inv s" "cpu_inv s" "sleep_inv s" "zombie_inv s"
  using assms by (simp_all add: kinv_def)

lemma cpu_inv_keep:
  assumes "cpu_inv s" and "length (ptable t) = length (ptable s)" and "cpu_proc t = cpu_proc s"
    and "\<And>i. i < length (ptable s) \<Longrightarrow>
      p_state (the_proc t i) = RUNNING \<longleftrightarrow> p_state (the_proc s i) = RUNNING"
  shows "cpu_inv t"
  using assms(1) unfolding cpu_inv_def assms(2,3) by (simp add: assms(4))

text \<open>A child of a sleeping process other than the one that changes stays its child.\<close>

lemma sleep_inv_upd:
  assumes inv: "sleep_inv s" and len: "length (ptable t) = length (ptable s)"
    and slp: "\<And>i. i < length (ptable s) \<Longrightarrow> p_state (the_proc t i) = SLEEPING \<Longrightarrow>
      p_kcont (the_proc t i) = KWait \<Longrightarrow> p_state (the_proc s i) = SLEEPING \<and>
      p_kcont (the_proc s i) = KWait \<and> p_chan (the_proc t i) = p_chan (the_proc s i)"
    and kid: "\<And>i j. i < length (ptable s) \<Longrightarrow> p_state (the_proc t i) = SLEEPING \<Longrightarrow>
      p_kcont (the_proc t i) = KWait \<Longrightarrow> j < length (ptable s) \<Longrightarrow> p_parent (the_proc s j) = Some i \<Longrightarrow>
      p_parent (the_proc t j) = Some i"
    and zom: "\<And>i j. i < length (ptable s) \<Longrightarrow> p_state (the_proc t i) = SLEEPING \<Longrightarrow>
      p_kcont (the_proc t i) = KWait \<Longrightarrow> j < length (ptable s) \<Longrightarrow> p_parent (the_proc t j) = Some i \<Longrightarrow>
      p_state (the_proc t j) = ZOMBIE \<Longrightarrow>
      p_parent (the_proc s j) = Some i \<and> p_state (the_proc s j) = ZOMBIE"
  shows "sleep_inv t"
  unfolding sleep_inv_def len
proof (intro allI impI)
  fix i assume i: "i < length (ptable s)" "p_state (the_proc t i) = SLEEPING" "p_kcont (the_proc t i) = KWait"
  have si: "p_chan (the_proc s i) = Some (ChProc i)"
    "\<exists>j<length (ptable s). p_parent (the_proc s j) = Some i"
    "\<forall>j<length (ptable s). p_parent (the_proc s j) = Some i \<longrightarrow> p_state (the_proc s j) \<noteq> ZOMBIE"
    using inv slp[OF i] i(1) unfolding sleep_inv_def by simp_all
  show "p_chan (the_proc t i) = Some (ChProc i) \<and> (\<exists>j<length (ptable s). p_parent (the_proc t j) = Some i) \<and>
    (\<forall>j<length (ptable s). p_parent (the_proc t j) = Some i \<longrightarrow> p_state (the_proc t j) \<noteq> ZOMBIE)"
    using si slp[OF i] kid[OF i] zom[OF i] by auto
qed

lemma reap_inv:
  assumes inv: "kinv s" and cur: "cpu_proc s c = Some me"
    and i: "find_idx (\<lambda>p. p_parent p = Some me \<and> p_state p = ZOMBIE) (ptable s) = Some i"
    and tab: "ptable t = upd_at i reaped (ptable s)"
    and fields: "nextpid t = nextpid s" "initproc t = initproc s" "cpu_proc t = cpu_proc s"
  shows "kinv t"
proof -
  have il: "i < length (ptable s)" "p_parent (the_proc s i) = Some me" "p_state (the_proc s i) = ZOMBIE"
    using i by (simp_all add: table_simps)
  have len: "length (ptable t) = length (ptable s)" by (simp add: tab)
  have nth: "the_proc t j = (if j = i then reaped (the_proc s j) else the_proc s j)"
    if "j < length (ptable s)" for j
    using that by (simp add: tab table_simps)
  note me = kinv_current[OF inv cur] and parts = kinvD[OF inv]
  obtain r where r: "tree_root s r" using parts(2) by (auto simp: tree_inv_def)
  have ri: "r \<noteq> i" using tree_rootD(3)[OF r] il(3) by auto
  have orphan: "p_parent (the_proc s j) \<noteq> Some i" if "j < length (ptable s)" for j
    using parent_active(2)[OF r parts(1) that, of i] il(3) by auto
  have "pid_inv t"
    using parts(1) unfolding pid_inv_def len fields by (auto simp: nth)
  moreover have "tree_root t r"
  proof (rule tree_rootI)
    fix j assume j: "j < length (ptable t)" "live (the_proc t j)" "j \<noteq> r"
    then have j': "j < length (ptable s)" "live (the_proc s j)" "j \<noteq> i"
      by (auto simp: len nth split: if_splits)
    with tree_rootD(5,6)[OF r j'(1,2) j(3)] ri orphan
    show "p_pid (the_proc t r) < p_pid (the_proc t j) \<and> (\<exists>k<length (ptable t).
        p_parent (the_proc t j) = Some k \<and> active (the_proc t k) \<and> p_pid (the_proc t k) < p_pid (the_proc t j))"
      using tree_rootD(1)[OF r] by (auto simp: nth len)
  qed (use tree_rootD[OF r] ri in \<open>auto simp: nth len fields split: if_splits\<close>)
  moreover have "cpu_inv t"
    using parts(3) len fields(3) by (rule cpu_inv_keep) (use il in \<open>auto simp: nth\<close>)
  moreover have "sleep_inv t"
    using parts(4) len by (rule sleep_inv_upd) (use me il in \<open>auto simp: nth split: if_splits\<close>)
  moreover have "zombie_inv t"
    using parts(5) unfolding zombie_inv_def len by (auto simp: nth)
  ultimately show ?thesis by (auto simp: kinv_def tree_inv_def)
qed

text \<open>
  An unused slot or embryo becomes a process with a pid that no process has. The changes of one
  slot are described by \<open>slot_set\<close>: slot \<open>i\<close> becomes \<open>p\<close>, the others stay.
\<close>

definition slot_set :: "nat \<Rightarrow> proc \<Rightarrow> 'x kstate \<Rightarrow> 'x kstate \<Rightarrow> bool" where
  "slot_set i p s t \<longleftrightarrow> length (ptable t) = length (ptable s) \<and> i < length (ptable s) \<and>
     (\<forall>j<length (ptable s). the_proc t j = (if j = i then p else the_proc s j))"

lemma slot_setD:
  assumes "slot_set i p s t"
  shows "length (ptable t) = length (ptable s)" and "i < length (ptable s)"
    and "j < length (ptable s) \<Longrightarrow> the_proc t j = (if j = i then p else the_proc s j)"
  using assms by (simp_all add: slot_set_def)

lemma slot_set_upd:
  "i < length (ptable s) \<Longrightarrow> ptable t = upd_at i f (ptable s) \<Longrightarrow> slot_set i (f (the_proc s i)) s t"
  by (simp add: slot_set_def table_simps)

lemma spawn_pid_inv:
  assumes inv: "pid_inv s" and tab: "slot_set i p s t" and "nextpid s \<le> nextpid t"
    and pid: "0 < p_pid p" "p_pid p < nextpid t"
      "\<And>j. j < length (ptable s) \<Longrightarrow> live (the_proc s j) \<Longrightarrow> p_pid (the_proc s j) \<noteq> p_pid p"
  shows "pid_inv t"
proof (rule pid_invI)
  note set = slot_setD[OF tab]
  fix a assume a: "a < length (ptable t)" "live (the_proc t a)"
  then show "0 < p_pid (the_proc t a) \<and> p_pid (the_proc t a) < nextpid t"
    using pid_invD(1,2)[OF inv, of a] pid(1,2) assms(3) by (auto simp: set split: if_splits)
  fix b assume "b < length (ptable t)" "live (the_proc t b)" "p_pid (the_proc t a) = p_pid (the_proc t b)"
  then show "a = b"
    using a pid_invD(3)[OF inv, of a b] pid(3)[of a] pid(3)[of b] by (auto simp: set split: if_splits)
qed (use inv assms(3) in \<open>simp add: pid_inv_def\<close>)

lemma spawn_tree:
  assumes r: "tree_root s r" and inv: "pid_inv s" and me: "me < length (ptable s)" "active (the_proc s me)"
    and i: "\<not> live (the_proc s i)" and tab: "slot_set i p s t" and p: "active p" "p_parent p = Some me"
    and pid: "p_pid (the_proc s me) < p_pid p" and ip: "initproc t = initproc s"
  shows "tree_root t r"
proof (rule tree_rootI)
  note set = slot_setD[OF tab]
  have ri: "r \<noteq> i" and mi: "me \<noteq> i" using tree_rootD(3)[OF r] i me(2) by auto
  have pid_r: "p_pid (the_proc s r) < p_pid p"
    using tree_rootD(5)[OF r me(1)] me(2) pid by (cases "me = r") auto
  have orphan: "p_parent (the_proc s j) \<noteq> Some i" if "j < length (ptable s)" for j
    using parent_active(2)[OF r inv that, of i] i by auto
  show "p_pid (the_proc t r) < p_pid (the_proc t j) \<and> (\<exists>k<length (ptable t).
      p_parent (the_proc t j) = Some k \<and> active (the_proc t k) \<and> p_pid (the_proc t k) < p_pid (the_proc t j))"
    if j: "j < length (ptable t)" "live (the_proc t j)" "j \<noteq> r" for j
  proof (cases "j = i")
    case True
    then show ?thesis using set(1,2) me mi ri tree_rootD(1)[OF r] pid pid_r p(2) by (auto simp: set(3))
  next
    case False
    then have "j < length (ptable s)" "live (the_proc s j)" using j by (auto simp: set)
    from tree_rootD(5,6)[OF r this j(3)] show ?thesis
      using False j(1) ri orphan tree_rootD(1)[OF r] by (auto simp: set)
  qed
  show "r < length (ptable t)" "initproc t = Some r" "active (the_proc t r)" "p_parent (the_proc t r) = None"
    using tree_rootD(1-4)[OF r] ri ip by (simp_all add: set)
  show "p_parent (the_proc t j) = None" if "j < length (ptable t)" "\<not> live (the_proc t j)" for j
    using that tree_rootD(7)[OF r, of j] p(1) by (auto simp: set split: if_splits)
qed

lemma spawn_inv:
  assumes inv: "kinv s" and me: "me < length (ptable s)" "active (the_proc s me)"
    and i: "\<not> live (the_proc s i)" and tab: "slot_set i p s t"
    and p: "p_state p = RUNNABLE" "p_parent p = Some me" "p_kcont p = KForkret"
    and pid: "p_pid (the_proc s me) < p_pid p" "p_pid p < nextpid t"
      "\<And>j. j < length (ptable s) \<Longrightarrow> live (the_proc s j) \<Longrightarrow> p_pid (the_proc s j) \<noteq> p_pid p"
    and fields: "nextpid s \<le> nextpid t" "initproc t = initproc s" "cpu_proc t = cpu_proc s"
  shows "kinv t"
proof -
  note set = slot_setD[OF tab] and parts = kinvD[OF inv]
  obtain r where r: "tree_root s r" using parts(2) by (auto simp: tree_inv_def)
  have new: "active p" using p(1) by simp
  have "0 < p_pid p" using pid_invD(1)[OF parts(1) me(1)] me(2) pid(1) by simp
  then have "pid_inv t" using spawn_pid_inv[OF parts(1) tab fields(1)] pid(2,3) by blast
  moreover have "tree_root t r" by (rule spawn_tree[OF r parts(1) me i tab new p(2) pid(1) fields(2)])
  moreover have "cpu_inv t"
    using parts(3) set(1) fields(3) by (rule cpu_inv_keep) (use i p in \<open>auto simp: set live_def\<close>)
  moreover have "sleep_inv t"
    using parts(4) set(1)
    by (rule sleep_inv_upd) (use p tree_rootD(7)[OF r set(2) i] in \<open>auto simp: set split: if_splits\<close>)
  moreover have "zombie_inv t"
    using parts(5) unfolding zombie_inv_def set(1) by (auto simp: set p)
  ultimately show ?thesis by (auto simp: kinv_def tree_inv_def)
qed

text \<open>A slot that holds no process before and after; the pid counter may advance.\<close>

lemma unused_inv:
  assumes inv: "kinv s" and il: "i < length (ptable s)" "\<not> live (the_proc s i)"
    and tab: "ptable t = upd_at i f (ptable s)"
    and f: "\<And>p. p_state (f p) = UNUSED \<or> p_state (f p) = EMBRYO" "\<And>p. p_parent (f p) = p_parent p"
    and fields: "nextpid s \<le> nextpid t" "initproc t = initproc s" "cpu_proc t = cpu_proc s"
  shows "kinv t"
proof -
  have len: "length (ptable t) = length (ptable s)" by (simp add: tab)
  have nth: "the_proc t j = (if j = i then f (the_proc s j) else the_proc s j)"
    if "j < length (ptable s)" for j
    using that by (simp add: tab table_simps)
  have dead: "\<not> live (f p)" "\<not> active (f p)" "p_state (f p) \<noteq> RUNNING" "p_state (f p) \<noteq> ZOMBIE"
    "p_state (f p) \<noteq> SLEEPING" for p using f(1)[of p] by auto
  note parts = kinvD[OF inv]
  obtain r where r: "tree_root s r" using parts(2) by (auto simp: tree_inv_def)
  have ri: "r \<noteq> i" using tree_rootD(3)[OF r] il(2) by auto
  have "pid_inv t"
  proof (rule pid_invI)
    fix a assume a: "a < length (ptable t)" "live (the_proc t a)"
    then show "0 < p_pid (the_proc t a) \<and> p_pid (the_proc t a) < nextpid t"
      using pid_invD(1,2)[OF parts(1), of a] fields(1) by (auto simp: nth len dead split: if_splits)
    fix b assume "b < length (ptable t)" "live (the_proc t b)" "p_pid (the_proc t a) = p_pid (the_proc t b)"
    then show "a = b"
      using a pid_invD(3)[OF parts(1), of a b] by (auto simp: nth len dead split: if_splits)
  qed (use parts(1) fields(1) in \<open>simp add: pid_inv_def\<close>)
  moreover have "tree_root t r"
  proof (rule tree_rootI)
    fix j assume j: "j < length (ptable t)" "live (the_proc t j)" "j \<noteq> r"
    then have j': "j < length (ptable s)" "live (the_proc s j)" "j \<noteq> i"
      by (auto simp: len nth dead split: if_splits)
    from tree_rootD(5,6)[OF r j'(1,2) j(3)]
    show "p_pid (the_proc t r) < p_pid (the_proc t j) \<and> (\<exists>k<length (ptable t).
        p_parent (the_proc t j) = Some k \<and> active (the_proc t k) \<and> p_pid (the_proc t k) < p_pid (the_proc t j))"
      using il ri j' tree_rootD(1)[OF r] by (auto simp: nth len)
  qed (use tree_rootD[OF r] ri f il in \<open>auto simp: nth len fields split: if_splits\<close>)
  moreover have "cpu_inv t"
    using parts(3) len fields(3) by (rule cpu_inv_keep) (use il dead in \<open>auto simp: nth live_def\<close>)
  moreover have "sleep_inv t"
    using parts(4) len by (rule sleep_inv_upd) (use f dead in \<open>auto simp: nth split: if_splits\<close>)
  moreover have "zombie_inv t"
    using parts(5) unfolding zombie_inv_def len by (auto simp: nth dead)
  ultimately show ?thesis by (auto simp: kinv_def tree_inv_def)
qed

lemma nextpid_wrap: "kinv s \<Longrightarrow> nextpid s < INT_MAX \<Longrightarrow> swrap (nextpid s + 1) = nextpid s + 1"
  by (rule swrap_id) (auto simp: kinv_def pid_inv_def in_int_def INT_MIN_def INT_MAX_def)

text \<open>The scheduler hands an idle processor a runnable process.\<close>

lemma dispatch_inv:
  assumes inv: "kinv s" and cur: "cpu_proc s c = None" and sch: "scheduler E c f s = (Some i, t)"
  shows "kinv t"
proof -
  note eff = scheduler_Some[OF sch] and parts = kinvD[OF inv]
  have il: "i < length (ptable s)" "p_state (the_proc s i) = RUNNABLE"
    using eff(1) draw_runnable by blast+
  have len: "length (ptable t) = length (ptable s)" by (simp add: eff)
  have nth: "the_proc t j = (if j = i then (the_proc s j)\<lparr>p_state := RUNNING\<rparr> else the_proc s j)"
    if "j < length (ptable s)" for j
    using that by (simp add: eff table_simps)
  have sts: "p_pid (the_proc t j) = p_pid (the_proc s j)" "p_parent (the_proc t j) = p_parent (the_proc s j)"
    "active (the_proc t j) = active (the_proc s j)" "live (the_proc t j) = live (the_proc s j)"
    "p_state (the_proc t j) = UNUSED \<longleftrightarrow> p_state (the_proc s j) = UNUSED"
    "p_state (the_proc t j) = ZOMBIE \<longleftrightarrow> p_state (the_proc s j) = ZOMBIE"
    "p_kcont (the_proc t j) = p_kcont (the_proc s j)" "p_ofile (the_proc t j) = p_ofile (the_proc s j)"
    "p_cwd (the_proc t j) = p_cwd (the_proc s j)"
    if "j < length (ptable s)" for j
    using that il by (auto simp: nth active_def live_def)
  have "pid_inv t" "tree_inv t" "zombie_inv t"
    using parts(1,2,5) unfolding pid_inv_def tree_inv_def tree_root_def zombie_inv_def len eff(4,5)
    by (simp_all add: sts cong: conj_cong imp_cong)
  moreover have "cpu_inv t"
  proof -
    have off: "cpu_proc s d \<noteq> Some i" for d using parts(3) il unfolding cpu_inv_def by force
    have "p_state (the_proc t j) = RUNNING \<longleftrightarrow> (\<exists>d. cpu_proc t d = Some j)" if j: "j < length (ptable s)" for j
    proof (cases "j = i")
      case False
      have "(\<exists>d. cpu_proc t d = Some j) \<longleftrightarrow> (\<exists>d. cpu_proc s d = Some j)"
        using False cur eff(3) by (metis fun_upd_apply option.distinct(1) option.inject)
      then show ?thesis using parts(3) j False unfolding cpu_inv_def by (simp add: nth)
    qed (use j eff(3) in \<open>auto simp: nth\<close>)
    moreover have "d = e" if "cpu_proc t d = Some j" "cpu_proc t e = Some j" for d e j
      using that off parts(3) unfolding cpu_inv_def eff(3) by (auto split: if_splits)
    moreover have "j < length (ptable s)" if "cpu_proc t d = Some j" for d j
      using that il(1) parts(3) unfolding cpu_inv_def eff(3) by (auto split: if_splits)
    ultimately show ?thesis unfolding cpu_inv_def len by blast
  qed
  moreover have "sleep_inv t"
    using parts(4) len by (rule sleep_inv_upd) (auto simp: nth split: if_splits)
  ultimately show ?thesis by (simp add: kinv_def)
qed

text \<open>
  \<^verbatim>\<open>exit\<close>: the slot becomes a zombie, its parent is woken, its children go to the first process,
  which is woken when one of them is a zombie.
\<close>

definition zombie_child :: "'x kstate \<Rightarrow> nat \<Rightarrow> bool" where
  "zombie_child s me \<longleftrightarrow>
     (\<exists>j<length (ptable s). p_parent (the_proc s j) = Some me \<and> p_state (the_proc s j) = ZOMBIE)"

text \<open>The table after \<open>me\<close>, child of \<open>q\<close>, exited in a system rooted at \<open>r\<close>.\<close>

definition exited :: "'x kstate \<Rightarrow> nat \<Rightarrow> nat \<Rightarrow> nat \<Rightarrow> 'x kstate \<Rightarrow> bool" where
  "exited s me q r t \<longleftrightarrow>
     length (ptable t) = length (ptable s) \<and> initproc t = initproc s \<and> nextpid t = nextpid s \<and>
     p_state (the_proc t me) = ZOMBIE \<and> (\<forall>f\<in>set (p_ofile (the_proc t me)). f = 0) \<and>
     p_cwd (the_proc t me) = 0 \<and>
     (\<forall>i<length (ptable s). p_pid (the_proc t i) = p_pid (the_proc s i) \<and>
        p_parent (the_proc t i) = (if p_parent (the_proc s i) = Some me then Some r else p_parent (the_proc s i))) \<and>
     (\<forall>i<length (ptable s). i \<noteq> me \<longrightarrow>
        p_state (the_proc t i) = (if p_state (the_proc s i) = SLEEPING \<and>
           (p_chan (the_proc s i) = Some (ChProc q) \<or> zombie_child s me \<and> p_chan (the_proc s i) = Some (ChProc r))
           then RUNNABLE else p_state (the_proc s i)) \<and>
        p_kcont (the_proc t i) = p_kcont (the_proc s i) \<and> p_chan (the_proc t i) = p_chan (the_proc s i) \<and>
        p_ofile (the_proc t i) = p_ofile (the_proc s i) \<and> p_cwd (the_proc t i) = p_cwd (the_proc s i))"

lemma exit_exited:
  assumes ex: "exit E me s = Inr t" and me: "me < length (ptable s)" and ip: "initproc s = Some r"
    and q: "p_parent (the_proc s me) = Some q" "q \<noteq> me"
  shows "exited s me q r t"
proof -
  note eff = exit_Inr[OF ex me]
  let ?ps = "map (wake_one (Some (ChProc q))) (ptable s)"
  have zk: "(\<exists>j<length (ptable s). p_parent (?ps ! j) = Some me \<and> p_state (?ps ! j) = ZOMBIE) \<longleftrightarrow> zombie_child s me"
    unfolding zombie_child_def by (simp cong: conj_cong)
  have slot: "the_proc t i = adopted me (Some r) ?ps (length (ptable s)) i" if "i < length (ptable s)" "i \<noteq> me" for i
    using eff(6)[OF that] q(1) ip by simp
  have st: "p_state (the_proc t i) = (if p_state (the_proc s i) = SLEEPING \<and>
      (p_chan (the_proc s i) = Some (ChProc q) \<or> zombie_child s me \<and> p_chan (the_proc s i) = Some (ChProc r))
      then RUNNABLE else p_state (the_proc s i))" if "i < length (ptable s)" "i \<noteq> me" for i
    using that by (simp add: slot adopted_state zk p_state_wake_one)
  have par: "p_pid (the_proc t i) = p_pid (the_proc s i) \<and>
      p_parent (the_proc t i) = (if p_parent (the_proc s i) = Some me then Some r else p_parent (the_proc s i))"
    if "i < length (ptable s)" for i
    using that eff(9,12) ip q by (cases "i = me") (simp_all add: slot adopted_parent)
  show ?thesis unfolding exited_def using eff st par by (auto simp: slot)
qed

lemma exitedD:
  assumes "exited s me q r t"
  shows "length (ptable t) = length (ptable s)" and "initproc t = initproc s" and "nextpid t = nextpid s"
    and "p_state (the_proc t me) = ZOMBIE" and "\<forall>f\<in>set (p_ofile (the_proc t me)). f = 0"
    and "p_cwd (the_proc t me) = 0"
    and "i < length (ptable s) \<Longrightarrow> p_pid (the_proc t i) = p_pid (the_proc s i)"
    and "i < length (ptable s) \<Longrightarrow> p_parent (the_proc t i) =
      (if p_parent (the_proc s i) = Some me then Some r else p_parent (the_proc s i))"
    and "i < length (ptable s) \<Longrightarrow> i \<noteq> me \<Longrightarrow> p_state (the_proc t i) = (if p_state (the_proc s i) = SLEEPING \<and>
      (p_chan (the_proc s i) = Some (ChProc q) \<or> zombie_child s me \<and> p_chan (the_proc s i) = Some (ChProc r))
      then RUNNABLE else p_state (the_proc s i))"
    and "i < length (ptable s) \<Longrightarrow> i \<noteq> me \<Longrightarrow> p_kcont (the_proc t i) = p_kcont (the_proc s i)"
    and "i < length (ptable s) \<Longrightarrow> i \<noteq> me \<Longrightarrow> p_chan (the_proc t i) = p_chan (the_proc s i)"
    and "i < length (ptable s) \<Longrightarrow> i \<noteq> me \<Longrightarrow> p_ofile (the_proc t i) = p_ofile (the_proc s i)"
    and "i < length (ptable s) \<Longrightarrow> i \<noteq> me \<Longrightarrow> p_cwd (the_proc t i) = p_cwd (the_proc s i)"
  using assms unfolding exited_def by simp_all

lemma exited_classes:
  assumes "exited s me q r t" and "i < length (ptable s)" and "active (the_proc s me)"
  shows "active (the_proc t i) \<longleftrightarrow> i \<noteq> me \<and> active (the_proc s i)"
    and "live (the_proc t i) \<longleftrightarrow> live (the_proc s i)"
    and "p_state (the_proc t i) = UNUSED \<longleftrightarrow> p_state (the_proc s i) = UNUSED"
    and "p_state (the_proc t i) = RUNNING \<longleftrightarrow> i \<noteq> me \<and> p_state (the_proc s i) = RUNNING"
  using exitedD(4)[OF assms(1)] exitedD(9)[OF assms(1,2)] assms(3)
  by (cases "i = me"; auto simp: active_def live_def)+

lemma exited_tree:
  assumes r: "tree_root s r" and t: "exited s me q r t" and me: "active (the_proc s me)" "r \<noteq> me"
  shows "tree_root t r"
proof (rule tree_rootI)
  note par = exitedD(8)[OF t] and pid = exitedD(7)[OF t] and act = exited_classes[OF t _ me(1)]
    and len = exitedD(1)[OF t]
  fix j assume j: "j < length (ptable t)" "live (the_proc t j)" "j \<noteq> r"
  then have j': "j < length (ptable s)" "live (the_proc s j)" using len act by auto
  from tree_rootD(5,6)[OF r j' j(3)] obtain k where k: "p_pid (the_proc s r) < p_pid (the_proc s j)"
    "k < length (ptable s)" "p_parent (the_proc s j) = Some k" "active (the_proc s k)"
    "p_pid (the_proc s k) < p_pid (the_proc s j)" by blast
  show "p_pid (the_proc t r) < p_pid (the_proc t j) \<and> (\<exists>k<length (ptable t).
      p_parent (the_proc t j) = Some k \<and> active (the_proc t k) \<and> p_pid (the_proc t k) < p_pid (the_proc t j))"
    using k j' me(2) tree_rootD(1,3)[OF r] by (cases "k = me") (auto simp: pid par act len)
qed (use tree_rootD[OF r] me exitedD(1,2)[OF t] exitedD(8)[OF t] exited_classes[OF t] in auto)

lemma exited_sleep:
  assumes inv: "sleep_inv s" and t: "exited s me q r t" and q: "p_parent (the_proc s me) = Some q" "q \<noteq> me"
  shows "sleep_inv t"
  using inv exitedD(1)[OF t]
proof (rule sleep_inv_upd)
  note par = exitedD(8)[OF t] and st = exitedD(9)[OF t]
  fix i assume i: "i < length (ptable s)" "p_state (the_proc t i) = SLEEPING" "p_kcont (the_proc t i) = KWait"
  have im: "i \<noteq> me" using i(2) exitedD(4)[OF t] by auto
  show s: "p_state (the_proc s i) = SLEEPING \<and> p_kcont (the_proc s i) = KWait \<and>
      p_chan (the_proc t i) = p_chan (the_proc s i)"
    using i st[OF i(1) im] exitedD(10,11)[OF t i(1) im] by (auto split: if_splits)
  then have "p_chan (the_proc s i) = Some (ChProc i)"
    using inv i(1) unfolding sleep_inv_def by blast
  with s i(2) st[OF i(1) im] have iq: "i \<noteq> q" and ir: "zombie_child s me \<Longrightarrow> i \<noteq> r" by auto
  show "p_parent (the_proc t j) = Some i" if "j < length (ptable s)" "p_parent (the_proc s j) = Some i" for j
    using that im by (simp add: par)
  show "p_parent (the_proc s j) = Some i \<and> p_state (the_proc s j) = ZOMBIE"
    if j: "j < length (ptable s)" "p_parent (the_proc t j) = Some i" "p_state (the_proc t j) = ZOMBIE" for j
  proof -
    have jme: "j \<noteq> me" using j(2) par[OF j(1)] q iq by (auto split: if_splits)
    then have z: "p_state (the_proc s j) = ZOMBIE" using j(3) st[OF j(1)] by (auto split: if_splits)
    then have "p_parent (the_proc s j) = Some me \<Longrightarrow> zombie_child s me"
      using j(1) by (auto simp: zombie_child_def)
    then have "p_parent (the_proc s j) \<noteq> Some me" using ir j(2) par[OF j(1)] by auto
    then show ?thesis using z j(2) par[OF j(1)] by simp
  qed
qed

lemma exit_inv:
  assumes inv: "kinv s" and cur: "cpu_proc s c = Some me" and ex: "exit E me s = Inr s'"
  shows "kinv (scheduler_return E c s')"
proof -
  let ?t = "scheduler_return E c s'"
  note me = kinv_current[OF inv cur] and parts = kinvD[OF inv]
  have act: "active (the_proc s me)" using me(2) by simp
  obtain r where r: "tree_root s r" using parts(2) by (auto simp: tree_inv_def)
  have rme: "r \<noteq> me" using exit_Inr(1)[OF ex me(1)] tree_rootD(2)[OF r] by auto
  obtain q where q: "p_parent (the_proc s me) = Some q" "q \<noteq> me"
    using tree_rootD(6)[OF r me(1) _ rme[symmetric]] act by auto
  have "exited s me q r s'" by (rule exit_exited[OF ex me(1) tree_rootD(2)[OF r] q])
  then have t: "exited s me q r ?t" by (simp add: exited_def)
  note cls = exited_classes[OF t _ act] and len = exitedD(1)[OF t]
  have "pid_inv ?t"
    using parts(1) unfolding pid_inv_def len exitedD(3)[OF t]
    by (simp add: cls exitedD(7)[OF t] del: scheduler_return_fields cong: conj_cong imp_cong)
  moreover have "cpu_inv ?t"
    using parts(3) cur len by (rule cpu_inv_leave) (simp_all add: exit_Inr(5)[OF ex me(1)] cls[simplified])
  moreover have "zombie_inv ?t"
    unfolding zombie_inv_def len
  proof (intro allI impI)
    fix i assume i: "i < length (ptable s)"
    show "(p_state (the_proc ?t i) = ZOMBIE \<longrightarrow> (\<forall>f\<in>set (p_ofile (the_proc ?t i)). f = 0) \<and> p_cwd (the_proc ?t i) = 0) \<and>
        (active (the_proc ?t i) \<longrightarrow> p_kcont (the_proc ?t i) \<noteq> KExit)"
      using parts(5) i exitedD(5,6)[OF t] exitedD(9-13)[OF t i] cls[OF i] unfolding zombie_inv_def
      by (cases "i = me") (auto split: if_splits simp del: scheduler_return_fields)
  qed
  ultimately show ?thesis
    using exited_tree[OF r t act rme] exited_sleep[OF parts(4) t q] by (auto simp: kinv_def tree_inv_def)
qed

text \<open>The running process changes fields of its own that the invariant does not constrain.\<close>

lemma self_inv:
  assumes inv: "kinv s" and cur: "cpu_proc s c = Some me" and tab: "ptable t = upd_at me f (ptable s)"
    and f: "\<And>p. p_state (f p) = p_state p" "\<And>p. p_pid (f p) = p_pid p" "\<And>p. p_parent (f p) = p_parent p"
      "\<And>p. p_kcont (f p) = p_kcont p"
    and fields: "nextpid t = nextpid s" "initproc t = initproc s" "cpu_proc t = cpu_proc s"
  shows "kinv t"
proof -
  note me = kinv_current[OF inv cur] and parts = kinvD[OF inv]
  have len: "length (ptable t) = length (ptable s)" by (simp add: tab)
  have nth: "the_proc t i = (if i = me then f (the_proc s i) else the_proc s i)"
    if "i < length (ptable s)" for i
    using that by (simp add: tab table_simps)
  have sts: "p_state (the_proc t i) = p_state (the_proc s i)" "p_pid (the_proc t i) = p_pid (the_proc s i)"
    "p_parent (the_proc t i) = p_parent (the_proc s i)" "p_kcont (the_proc t i) = p_kcont (the_proc s i)"
    "active (the_proc t i) = active (the_proc s i)" "live (the_proc t i) = live (the_proc s i)"
    if "i < length (ptable s)" for i
    using that by (auto simp: nth f active_def live_def)
  have "pid_inv t" "tree_inv t" "cpu_inv t"
    using parts(1-3) unfolding pid_inv_def tree_inv_def tree_root_def cpu_inv_def len fields
    by (simp_all add: sts cong: conj_cong imp_cong)
  moreover have "sleep_inv t"
    using parts(4) len by (rule sleep_inv_upd) (use me in \<open>auto simp: sts nth f split: if_splits\<close>)
  moreover have "zombie_inv t"
    using parts(5) me unfolding zombie_inv_def len by (auto simp: nth f sts)
  ultimately show ?thesis by (simp add: kinv_def)
qed

lemma user_inv: "kinv s \<Longrightarrow> cpu_proc s c = Some me \<Longrightarrow> kinv (upd_proc me (\<lambda>p. p\<lparr>p_tf := tf\<rparr>) s)"
  by (rule self_inv[where f = "\<lambda>p. p\<lparr>p_tf := tf\<rparr>"]) simp_all

lemma kinv_ext [simp]: "kinv (s\<lparr>ext := x\<rparr>) = kinv s"
  by (rule kinv_cong) simp_all

lemma growproc_table:
  "ptable (snd (growproc E me n s)) = ptable s \<or>
   (\<exists>z. ptable (snd (growproc E me n s)) = upd_at me (\<lambda>p. p\<lparr>p_sz := z\<rparr>) (ptable s))"
  by (auto simp: growproc_def Let_def split: prod.splits)

lemma growproc_inv:
  assumes "kinv s" and "cpu_proc s c = Some me"
  shows "kinv (snd (growproc E me n s))"
proof -
  have same: "nextpid (snd (growproc E me n s)) = nextpid s" "initproc (snd (growproc E me n s)) = initproc s"
    "cpu_proc (snd (growproc E me n s)) = cpu_proc s"
    by (auto simp: growproc_def Let_def split: prod.splits)
  from growproc_table[of E me n s] show ?thesis
  proof
    assume "ptable (snd (growproc E me n s)) = ptable s"
    then show ?thesis using assms(1) same kinv_cong[of "snd (growproc E me n s)" s] by simp
  next
    assume "\<exists>z. ptable (snd (growproc E me n s)) = upd_at me (\<lambda>p. p\<lparr>p_sz := z\<rparr>) (ptable s)"
    then obtain z where "ptable (snd (growproc E me n s)) = upd_at me (\<lambda>p. p\<lparr>p_sz := z\<rparr>) (ptable s)" ..
    then show ?thesis by (rule self_inv[OF assms]) (simp_all add: same)
  qed
qed

lemma settickets_inv:
  assumes "kinv s" and "cpu_proc s c = Some me" and "sys_settickets E me s = Inr (r, s')"
  shows "kinv s'"
proof (cases "argint (umem E s me) (the_proc s me) 0")
  case None
  then show ?thesis using assms by (simp add: sys_settickets_def ret_def)
next
  case (Some tix)
  then have "s' = upd_proc me (\<lambda>p. p\<lparr>p_tickets := tix\<rparr>) s"
    using assms(3) by (simp add: sys_settickets_def ret_def Let_def)
  then show ?thesis using self_inv[OF assms(1,2), of s' "\<lambda>p. p\<lparr>p_tickets := tix\<rparr>"] by simp
qed

lemma sleep_resume_inv:
  "kinv s \<Longrightarrow> cpu_proc s c = Some me \<Longrightarrow> kinv (sleep_resume E me l s)"
  by (rule self_inv[where f = "\<lambda>p. p\<lparr>p_chan := None\<rparr>"]) auto

lemma kinv_acquire [simp]: "kinv (acquire E l s) = kinv s"
  by (rule kinv_cong) simp_all

lemma kinv_release [simp]: "kinv (release E l s) = kinv s"
  by (rule kinv_cong) simp_all

text \<open>Outcomes of an operation that may leave the processor.\<close>

definition outcome_inv :: "'x kenv \<Rightarrow> nat \<Rightarrow> wait_result \<Rightarrow> 'x kstate \<Rightarrow> bool" where
  "outcome_inv E c r s' \<longleftrightarrow> (case r of WReturn _ \<Rightarrow> kinv s' | WSleep \<Rightarrow> kinv (scheduler_return E c s'))"

lemma sleep_outcome:
  assumes "kinv s" and "cpu_proc s c = Some me" and "sleep E (Some me) ch (Some l) k s = Inr s'"
    and "k \<noteq> KWait" and "k \<noteq> KExit"
  shows "kinv (scheduler_return E c s')"
proof -
  from sleep_Inr[OF assms(3)] obtain ie r where
    "ptable s' = upd_at me (\<lambda>p. parked SLEEPING k ie r (p\<lparr>p_chan := ch\<rparr>)) (ptable s)"
    "nextpid s' = nextpid s" "initproc s' = initproc s" "cpu_proc s' = cpu_proc s" .
  with assms show ?thesis
    by (intro park_inv[OF assms(1,2), where f = "\<lambda>p. parked SLEEPING k ie r (p\<lparr>p_chan := ch\<rparr>)"
          and st = SLEEPING and k = k]) auto
qed

lemma yield_outcome:
  assumes "kinv s" and "cpu_proc s c = Some me" and "yield E me s = Inr s'"
  shows "kinv (scheduler_return E c s')"
proof -
  from yield_Inr[OF assms(3)] obtain ie r where
    "ptable s' = upd_at me (parked RUNNABLE KYield ie r) (ptable s)"
    "nextpid s' = nextpid s" "initproc s' = initproc s" "cpu_proc s' = cpu_proc s" .
  then show ?thesis
    by (intro park_inv[OF assms(1,2), where f = "parked RUNNABLE KYield ie r" and st = RUNNABLE
          and k = KYield]) auto
qed

lemma wait_turn_outcome:
  assumes inv: "kinv s" and cur: "cpu_proc s c = Some me" and w: "wait_turn E me s = Inr (r, s')"
  shows "outcome_inv E c r s'"
  using w
proof (cases rule: wait_turn_cases)
  case (reaped i)
  then show ?thesis using reap_inv[OF inv cur reaped(1,3-6)] by (simp add: outcome_inv_def)
next
  case failed
  then show ?thesis using inv kinv_cong[of s' s] by (simp add: outcome_inv_def)
next
  case (slept ie reg)
  have "kinv (scheduler_return E c s')"
    using slept
    by (intro park_inv[OF inv cur, where f = "\<lambda>p. parked SLEEPING KWait ie reg (p\<lparr>p_chan := Some (ChProc me)\<rparr>)"
          and st = SLEEPING and k = KWait]) (auto simp: in_set_conv_nth Bex_def dest: nth_mem)
  then show ?thesis using slept by (simp add: outcome_inv_def)
qed

lemma sys_sleep_turn_outcome:
  assumes "kinv s" and "cpu_proc s c = Some me" and "sys_sleep_turn E me t n s = Inr (r, s')"
  shows "outcome_inv E c r s'"
  using assms sleep_outcome[OF assms(1,2)]
  by (auto simp: sys_sleep_turn_def ret_def outcome_inv_def split: if_splits sum.splits)

lemma resume_outcome:
  assumes inv: "kinv s" and cur: "cpu_proc s c = Some me" and r: "resume E me s = Inr (r, s')"
  shows "outcome_inv E c r s'"
proof (cases "p_kcont (the_proc s me)")
  case KForkret
  then show ?thesis using r inv kinv_cong[of s' s] by (auto simp: resume_def ret_def outcome_inv_def)
next
  case KYield
  then show ?thesis using r inv kinv_cong[of s' s] by (auto simp: resume_def ret_def outcome_inv_def)
next
  case KWait
  then show ?thesis
    using r wait_turn_outcome[OF sleep_resume_inv[OF inv cur]] cur
    by (simp add: resume_def wait_resume_def)
next
  case (KSysSleep t n)
  then show ?thesis
    using r sys_sleep_turn_outcome[OF sleep_resume_inv[OF inv cur]] cur
    by (simp add: resume_def sys_sleep_resume_def)
next
  case (KSleep l)
  then show ?thesis
    using r sleep_resume_inv[OF inv cur] by (auto simp: resume_def ret_def outcome_inv_def)
next
  case KExit
  then show ?thesis using r by (simp add: resume_def)
qed

lemma dispatch_outcome:
  assumes "kinv s" "cpu_proc s c = None" "scheduler E c f s = (Some i, s1)" "resume E i s1 = Inr (r, s')"
  shows "outcome_inv E c r s'"
  using dispatch_inv[OF assms(1-3)] assms(4) scheduler_Some(3)[OF assms(3)]
  by (intro resume_outcome[of s1]) simp_all

lemma ostep_inv:
  assumes "kinv s" and "ostep E a s t"
  shows "kinv t"
  using assms(2,1)
proof (cases rule: ostep.cases)
  case (o_wait_return c me r)
  then show ?thesis
    using wait_turn_outcome[of "acquire E PtableLock s" c me E "WReturn r" t] assms(1)
    by (simp add: wait_def outcome_inv_def)
next
  case (o_wait_sleep c me s')
  then show ?thesis
    using wait_turn_outcome[of "acquire E PtableLock s" c me E WSleep s'] assms(1)
    by (simp add: wait_def outcome_inv_def)
next
  case (o_idle c f)
  then show ?thesis using scheduler_None[of E c f s t] assms(1) kinv_cong[of t s] by simp
next
  case (o_dispatch c f i s1 r)
  then show ?thesis using dispatch_outcome[OF assms(1)] by (force simp: outcome_inv_def)
next
  case (o_dispatch_block c f i s1 s')
  then show ?thesis using dispatch_outcome[OF assms(1)] by (force simp: outcome_inv_def)
qed (auto intro: exit_inv sleep_outcome yield_outcome wakeup_inv kill_inv growproc_inv settickets_inv user_inv)

section \<open>Boot\<close>

lemma userinit_Inr:
  assumes "userinit E s = Inr t"
  obtains i f where "find_idx (\<lambda>p. p_state p = UNUSED) (ptable s) = Some i"
    "ptable t = upd_at i f (ptable s)" "initproc t = Some i" "nextpid t = swrap (nextpid s + 1)"
    "cpu_proc t = cpu_proc s"
    "\<forall>p. p_state (f p) = RUNNABLE \<and> p_pid (f p) = nextpid s \<and> p_parent (f p) = p_parent p \<and>
       p_kcont (f p) = KForkret"
proof (cases rule: allocproc_cases[of s E])
  case full
  then show thesis using assms by (simp add: userinit_def)
next
  case (nomem i x)
  then show thesis using assms by (simp add: userinit_def)
next
  case (found i k x)
  let ?s2 = "s\<lparr>ptable := upd_at i (embryo E (nextpid s) k) (ptable s),
              nextpid := swrap (nextpid s + 1), ext := x\<rparr>"
  obtain d x1 where d: "e_setupkvm E x = (d, x1)" by fastforce
  obtain cw x2 where cw: "e_namei E ''/'' (e_inituvm E d x1) = (cw, x2)" by fastforce
  define g where "g p = (embryo E (nextpid s) k p)\<lparr>p_pgdir := d, p_sz := e_PGSIZE E,
      p_tf := \<lparr>tf_eax = 0, tf_esp = e_PGSIZE E, tf_eip = 0,
               tf_cs = e_user_cs E, tf_ds = e_user_ds E, tf_es = e_user_ds E,
               tf_ss = e_user_ds E, tf_eflags = e_FL_IF E\<rparr>,
      p_name := e_safestrcpy E (p_name p) ''initcode'' 16, p_cwd := cw, p_state := RUNNABLE\<rparr>" for p
  have "ptable t = upd_at i g (ptable s)" "initproc t = Some i" "nextpid t = swrap (nextpid s + 1)"
    "cpu_proc t = cpu_proc s"
    using assms found(3) d cw
    by (auto simp: userinit_def Let_def upd_at_upd_at_same g_def[abs_def] split: if_splits)
  then show thesis
    using that[OF found(1), of g] by (simp add: g_def)
qed

lemma booted_inv:
  assumes "booted E s"
  shows "kinv s"
proof -
  from assms obtain s0 where b: "blank s0" and u: "userinit E s0 = Inr s" by (auto simp: booted_def)
  from userinit_Inr[OF u] obtain i f where i: "find_idx (\<lambda>p. p_state p = UNUSED) (ptable s0) = Some i"
    and s: "ptable s = upd_at i f (ptable s0)" "initproc s = Some i" "nextpid s = swrap (nextpid s0 + 1)"
      "cpu_proc s = cpu_proc s0"
    and f: "\<forall>p. p_state (f p) = RUNNABLE \<and> p_pid (f p) = nextpid s0 \<and> p_parent (f p) = p_parent p \<and>
      p_kcont (f p) = KForkret" .
  have il: "i < length (ptable s0)" using i by (rule find_idx_SomeD)
  have np: "nextpid s = 2" "nextpid s0 = 1" "cpu_proc s = (\<lambda>_. None)"
    using b s by (simp_all add: blank_def swrap_id in_int_def INT_MIN_def INT_MAX_def)
  have un: "p_state (the_proc s0 j) = UNUSED" "p_parent (the_proc s0 j) = None" if "j < length (ptable s0)" for j
    using b that by (simp_all add: blank_def)
  have nth: "the_proc s j = (if j = i then f (the_proc s0 j) else the_proc s0 j)" if "j < length (ptable s0)" for j
    using that by (simp add: s table_simps)
  have len: "length (ptable s) = length (ptable s0)" by (simp add: s)
  have st: "p_state (the_proc s j) = (if j = i then RUNNABLE else UNUSED)"
    "p_parent (the_proc s j) = None" "live (the_proc s j) \<longleftrightarrow> j = i" "active (the_proc s j) \<longleftrightarrow> j = i"
    "j = i \<Longrightarrow> p_pid (the_proc s j) = 1 \<and> p_kcont (the_proc s j) = KForkret"
    if "j < length (ptable s0)" for j
    using that un f np by (auto simp: nth active_def live_def)
  have "pid_inv s" unfolding pid_inv_def len np by (simp add: st)
  moreover have "tree_root s i" by (rule tree_rootI) (simp_all add: len il st s(2) split: if_splits)
  moreover have "cpu_inv s" unfolding cpu_inv_def len np by (simp add: st)
  moreover have "sleep_inv s" unfolding sleep_inv_def len by (simp add: st)
  moreover have "zombie_inv s" unfolding zombie_inv_def len using st by auto
  ultimately show ?thesis by (auto simp: kinv_def tree_inv_def)
qed

end
