(* ===== verification/Kernel_Steps.thy ===== *)
theory Kernel_Steps
  imports Kernel
begin

text \<open>
  The steps of the kernel seen slot by slot, and the invariant of its configurations. First what an
  operation outside \<^verbatim>\<open>fork\<close> may do to a slot (\<open>slot_move\<close>), proved by one case analysis; from it
  follow that pids stay unique, that a slot \<^verbatim>\<open>fork\<close> is building is left alone, and that a
  process inside \<^verbatim>\<open>fork\<close> stays alive. With the two halves of \<^verbatim>\<open>fork\<close> this gives the invariant of all
  interleavings.
\<close>

section \<open>What an operation does to a slot\<close>

text \<open>
  The state changes of one step outside \<^verbatim>\<open>fork\<close>; a dispatched process may go back to sleep within
  the step that dispatched it.
\<close>

fun op_moves :: "procstate \<Rightarrow> procstate \<Rightarrow> bool" where
  "op_moves UNUSED b \<longleftrightarrow> b = UNUSED"
| "op_moves EMBRYO b \<longleftrightarrow> b = EMBRYO"
| "op_moves SLEEPING b \<longleftrightarrow> b = SLEEPING \<or> b = RUNNABLE"
| "op_moves RUNNABLE b \<longleftrightarrow> b = RUNNABLE \<or> b = RUNNING \<or> b = SLEEPING"
| "op_moves RUNNING b \<longleftrightarrow> b = RUNNING \<or> b = RUNNABLE \<or> b = SLEEPING \<or> b = ZOMBIE"
| "op_moves ZOMBIE b \<longleftrightarrow> b = ZOMBIE \<or> b = UNUSED"

lemma op_moves_refl [simp]: "op_moves a a"
  by (cases a) simp_all

text \<open>The fields of a slot that are \<^verbatim>\<open>int\<close> in C hold values of that type, the flag \<^verbatim>\<open>killed\<close> is 0 or 1.\<close>

definition fits :: "proc \<Rightarrow> bool" where
  "fits p \<longleftrightarrow> in_int (p_pid p) \<and> in_int (p_tickets p) \<and> (p_killed p = 0 \<or> p_killed p = 1)"

lemma in_int_small [simp]: "in_int 0" "in_int (sint (w :: u32))" "in_int MAGIC_TICKET_NUM"
  using sint_greater_eq[of w] sint_lt[of w] by (simp_all add: in_int_def INT_MIN_def INT_MAX_def MAGIC_TICKET_NUM_def)

lemma argint_in_int: "argint m p n = Some v \<Longrightarrow> in_int v"
  by (auto simp: argint_def fetchint_def load_int_def split: if_splits)

lemma fits_cong: "p_pid q = p_pid p \<Longrightarrow> p_tickets q = p_tickets p \<Longrightarrow> p_killed q = p_killed p \<Longrightarrow> fits q = fits p"
  by (simp add: fits_def)

lemma fits_changed [simp]: "fits p \<Longrightarrow> fits (reaped p)" "fits p \<Longrightarrow> fits (p\<lparr>p_killed := 1\<rparr>)" "fits (p\<lparr>p_state := st\<rparr>) = fits p"
  "fits (wake_one ch p) = fits p" "fits (parked st k ie r p) = fits p"
  by (simp_all add: fits_def)

definition slot_move :: "bool \<Rightarrow> proc \<Rightarrow> proc \<Rightarrow> bool" where
  "slot_move acts p q \<longleftrightarrow> op_moves (p_state p) (p_state q) \<and>
     (p_pid q = p_pid p \<or> p_state q = UNUSED \<and> p_pid q = 0) \<and>
     (p_state p = EMBRYO \<longrightarrow> p_kcont q = p_kcont p) \<and> (p_tickets q = p_tickets p \<or> acts) \<and>
     (p_state q = ZOMBIE \<longrightarrow> p_state p = ZOMBIE \<or> acts) \<and> (fits p \<longrightarrow> fits q) \<and>
     (p_killed q = 0 \<longrightarrow> p_killed p = 0 \<or> p_state p = ZOMBIE) \<and>
     (p_state p = SLEEPING \<or> p_state p = RUNNABLE \<longrightarrow> p_state q = SLEEPING \<or> p_state q = RUNNABLE \<longrightarrow>
        p_kcont q = p_kcont p)"

text \<open>Who the parent is changes only when the parent exits or the slot is freed.\<close>

definition parent_move :: "nat option \<Rightarrow> nat option \<Rightarrow> proc \<Rightarrow> proc \<Rightarrow> bool" where
  "parent_move a ip p q \<longleftrightarrow> p_parent q = p_parent p \<or> a \<noteq> None \<and> p_parent p = a \<and> p_parent q = ip \<or>
     p_state p = ZOMBIE \<and> p_parent q = None"

lemma parent_move_same [simp]: "p_parent q = p_parent p \<Longrightarrow> parent_move a ip p q"
  by (simp add: parent_move_def)

definition table_move :: "nat option \<Rightarrow> 'x kstate \<Rightarrow> 'x kstate \<Rightarrow> bool" where
  "table_move a s t \<longleftrightarrow> length (ptable t) = length (ptable s) \<and> nextpid t = nextpid s \<and> initproc t = initproc s \<and>
     (\<forall>i<length (ptable s). slot_move (a = Some i) (the_proc s i) (the_proc t i) \<and>
        parent_move a (initproc s) (the_proc s i) (the_proc t i))"

lemma slot_move_same [simp]:
  "p_state q = p_state p \<Longrightarrow> p_pid q = p_pid p \<Longrightarrow> p_kcont q = p_kcont p \<Longrightarrow>
   p_tickets q = p_tickets p \<or> b \<and> in_int (p_tickets q) \<Longrightarrow> p_killed q = p_killed p \<Longrightarrow> slot_move b p q"
  by (auto simp: slot_move_def fits_def)

lemma table_moveI:
  assumes "length (ptable t) = length (ptable s)" and "nextpid t = nextpid s" and "initproc t = initproc s"
    and "\<And>i. i < length (ptable s) \<Longrightarrow> slot_move (a = Some i) (the_proc s i) (the_proc t i)"
    and "\<And>i. i < length (ptable s) \<Longrightarrow> parent_move a (initproc s) (the_proc s i) (the_proc t i)"
  shows "table_move a s t"
  using assms by (simp add: table_move_def)

lemma table_move_upd:
  assumes "ptable t = upd_at i f (ptable s)" and "nextpid t = nextpid s" and "initproc t = initproc s"
    and "i < length (ptable s) \<Longrightarrow> slot_move (a = Some i) (the_proc s i) (f (the_proc s i))"
    and "i < length (ptable s) \<Longrightarrow> p_parent (f (the_proc s i)) = p_parent (the_proc s i)"
  shows "table_move a s t"
  by (rule table_moveI) (use assms in \<open>auto simp: table_simps\<close>)

lemma table_move_stay:
  "ptable t = ptable s \<Longrightarrow> nextpid t = nextpid s \<Longrightarrow> initproc t = initproc s \<Longrightarrow> table_move a s t"
  by (simp add: table_move_def)

lemma table_move_ext [simp]:
  "table_move a s (scheduler_return E c t) = table_move a s t" "table_move a (acquire E l s) t = table_move a s t"
  by (simp_all add: table_move_def)

lemma table_move_other:
  assumes "table_move a s t" and "a \<noteq> Some i" and "i < length (ptable s)"
  shows "slot_move False (the_proc s i) (the_proc t i)"
proof -
  have "(a = Some i) = False" using assms(2) by simp
  then show ?thesis using assms(1,3) unfolding table_move_def by metis
qed

text \<open>A process that goes on, perhaps to sleep, or frees a dead child of its own.\<close>

definition runs_on :: "nat \<Rightarrow> 'x kstate \<Rightarrow> 'x kstate \<Rightarrow> bool" where
  "runs_on me s t \<longleftrightarrow> length (ptable t) = length (ptable s) \<and> nextpid t = nextpid s \<and> initproc t = initproc s \<and>
     p_parent (the_proc t me) = p_parent (the_proc s me) \<and>
     p_pid (the_proc t me) = p_pid (the_proc s me) \<and> p_tickets (the_proc t me) = p_tickets (the_proc s me) \<and>
     p_killed (the_proc t me) = p_killed (the_proc s me) \<and>
     (p_state (the_proc t me) = p_state (the_proc s me) \<or> p_state (the_proc t me) = SLEEPING) \<and>
     (\<forall>j<length (ptable s). j \<noteq> me \<longrightarrow> the_proc t j = the_proc s j \<or>
        p_state (the_proc s j) = ZOMBIE \<and> p_parent (the_proc s j) = Some me \<and>
        p_state (the_proc t me) = p_state (the_proc s me) \<and> the_proc t j = reaped (the_proc s j))"

lemma runs_on_self:
  assumes "ptable t = upd_at me f (ptable s)" and "nextpid t = nextpid s" and "initproc t = initproc s"
    and "me < length (ptable s)" and "\<And>p. p_parent (f p) = p_parent p" and "\<And>p. p_pid (f p) = p_pid p"
    and "\<And>p. p_tickets (f p) = p_tickets p" and "\<And>p. p_killed (f p) = p_killed p"
    and "p_state (f (the_proc s me)) = SLEEPING \<or> p_state (f (the_proc s me)) = p_state (the_proc s me)"
  shows "runs_on me s t"
  using assms by (auto simp: runs_on_def table_simps)

lemma runs_on_same: "ptable t = ptable s \<Longrightarrow> nextpid t = nextpid s \<Longrightarrow> initproc t = initproc s \<Longrightarrow> runs_on me s t"
  by (simp add: runs_on_def)

lemma runs_on_wait:
  assumes "wait_turn E me s = Inr (r, t)" and "p_state (the_proc s me) \<noteq> ZOMBIE" and "me < length (ptable s)"
  shows "runs_on me s t"
  using assms(1)
proof (cases rule: wait_turn_cases)
  case (reaped i)
  then have i: "p_state (the_proc s i) = ZOMBIE" "p_parent (the_proc s i) = Some me" by (simp_all add: table_simps)
  then have "i \<noteq> me" using assms(2) by auto
  then show ?thesis using reaped(3-5) i assms(3) by (auto simp: runs_on_def table_simps)
next
  case failed
  then show ?thesis by (intro runs_on_same)
next
  case (slept ie reg)
  then show ?thesis using assms(3) by (intro runs_on_self[OF slept(2-4)]) simp_all
qed

lemma runs_on_sleep:
  assumes "sleep E (Some me) ch (Some l) k s = Inr t" and "me < length (ptable s)"
  shows "runs_on me s t"
proof -
  from sleep_Inr[OF assms(1)] obtain ie r where
    t: "ptable t = upd_at me (\<lambda>p. parked SLEEPING k ie r (p\<lparr>p_chan := ch\<rparr>)) (ptable s)" "nextpid t = nextpid s"
      "initproc t = initproc s" .
  show ?thesis by (rule runs_on_self[OF t assms(2)]) simp_all
qed

lemma runs_on_sys_sleep:
  assumes "sys_sleep_turn E me t0 n s = Inr (r, t)" and "me < length (ptable s)"
  shows "runs_on me s t"
  using assms runs_on_sleep[of E me "Some ChTicks" TicksLock "KSysSleep t0 n" s t]
  by (auto simp: sys_sleep_turn_def ret_def intro: runs_on_same split: if_splits sum.splits)

text \<open>A step of the current process before it goes on only clears its channel.\<close>

lemma runs_on_after_resume:
  assumes "runs_on me (sleep_resume E me l s) t" and "me < length (ptable s)"
  shows "runs_on me s t"
  using assms unfolding runs_on_def by (auto simp: table_simps)

lemma runs_on_resume:
  assumes "resume E me s = Inr (r, t)" and "p_state (the_proc s me) \<noteq> ZOMBIE" and "me < length (ptable s)"
  shows "runs_on me s t"
proof (cases "p_kcont (the_proc s me)")
  case KWait
  let ?u = "sleep_resume E me PtableLock s"
  have "p_state (the_proc ?u me) \<noteq> ZOMBIE" using assms(2,3) by (simp add: table_simps)
  then have "runs_on me ?u t"
    using assms(1,3) KWait by (intro runs_on_wait) (simp_all add: resume_def wait_resume_def)
  then show ?thesis using assms(3) by (rule runs_on_after_resume)
next
  case (KSysSleep t0 n)
  then have "runs_on me (sleep_resume E me TicksLock s) t"
    using assms(1,3) by (intro runs_on_sys_sleep) (simp_all add: resume_def sys_sleep_resume_def)
  then show ?thesis using assms(3) by (rule runs_on_after_resume)
next
  case (KSleep l)
  then have "t = sleep_resume E me l s" using assms(1) by (simp add: resume_def ret_def)
  then show ?thesis
    using assms(3) by (intro runs_on_self[where f = "\<lambda>p. p\<lparr>p_chan := None\<rparr>"]) simp_all
qed (use assms(1) in \<open>auto simp: resume_def ret_def intro: runs_on_same\<close>)

text \<open>A process that goes back to sleep will continue where it did before.\<close>

lemma resume_kcont:
  assumes "resume E me s = Inr (r, t)" and "me < length (ptable s)" and "p_state (the_proc s me) = RUNNING"
    and "p_state (the_proc t me) = SLEEPING"
  shows "p_kcont (the_proc t me) = p_kcont (the_proc s me)"
proof (cases "p_kcont (the_proc s me)")
  case KWait
  then have w: "wait_turn E me (sleep_resume E me PtableLock s) = Inr (r, t)"
    using assms(1) by (simp add: resume_def wait_resume_def)
  from w show ?thesis
    by (cases rule: wait_turn_cases) (use assms(2-4) KWait in \<open>auto simp: table_simps split: if_splits\<close>)
next
  case (KSysSleep t0 n)
  let ?u = "sleep_resume E me TicksLock s"
  have "sys_sleep_turn E me t0 n ?u = Inr (r, t)" using assms(1) KSysSleep by (simp add: resume_def sys_sleep_resume_def)
  then have "ptable t = ptable ?u \<or> sleep E (Some me) (Some ChTicks) (Some TicksLock) (KSysSleep t0 n) ?u = Inr t"
    by (auto simp: sys_sleep_turn_def ret_def split: if_splits sum.splits)
  then show ?thesis
  proof
    assume "sleep E (Some me) (Some ChTicks) (Some TicksLock) (KSysSleep t0 n) ?u = Inr t"
    then obtain ie x where "ptable t = upd_at me (\<lambda>p. parked SLEEPING (KSysSleep t0 n) ie x (p\<lparr>p_chan := Some ChTicks\<rparr>)) (ptable ?u)"
      by (rule sleep_Inr)
    then show ?thesis using assms(2) KSysSleep by (simp add: table_simps)
  qed (use assms(2-4) in \<open>simp add: table_simps\<close>)
qed (use assms in \<open>auto simp: resume_def ret_def table_simps\<close>)

lemma runs_on_parent:
  assumes "runs_on me s t" and "i < length (ptable s)"
  shows "parent_move a (initproc s) (the_proc s i) (the_proc t i)"
proof (cases "i = me")
  case False
  then have "the_proc t i = the_proc s i \<or> p_state (the_proc s i) = ZOMBIE \<and> the_proc t i = reaped (the_proc s i)"
    using assms unfolding runs_on_def by blast
  then show ?thesis by (auto simp: parent_move_def)
qed (use assms(1) in \<open>simp add: runs_on_def\<close>)

lemma runs_on_move:
  assumes "runs_on me s t" and "p_state (the_proc s me) = RUNNING"
  shows "table_move a s t"
proof (rule table_moveI)
  fix i assume i: "i < length (ptable s)"
  show "slot_move (a = Some i) (the_proc s i) (the_proc t i)"
  proof (cases "i = me")
    case False
    then have "the_proc t i = the_proc s i \<or> p_state (the_proc s i) = ZOMBIE \<and> the_proc t i = reaped (the_proc s i)"
      using assms(1) i unfolding runs_on_def by blast
    then show ?thesis by (auto simp: slot_move_def)
  qed (use assms in \<open>auto simp: runs_on_def slot_move_def intro: fits_cong[THEN iffD2]\<close>)
qed (use assms(1) runs_on_parent[OF assms(1)] in \<open>simp_all add: runs_on_def\<close>)

lemma dispatch_move:
  assumes sch: "scheduler E c f s = (Some i, s1)" and res: "resume E i s1 = Inr (r, t)"
  shows "table_move a s t"
proof -
  note eff = scheduler_Some[OF sch]
  have il: "i < length (ptable s)" "p_state (the_proc s i) = RUNNABLE" using eff(1) draw_runnable by blast+
  have nth: "the_proc s1 j = (if j = i then (the_proc s i)\<lparr>p_state := RUNNING\<rparr> else the_proc s j)"
    if "j < length (ptable s)" for j
    using that by (simp add: eff(2) table_simps)
  have run: "runs_on i s1 t" using res il(1) nth[OF il(1)] by (intro runs_on_resume) (simp_all add: eff(2))
  show ?thesis
  proof (rule table_moveI)
    fix j assume j: "j < length (ptable s)"
    have kc: "j = i \<Longrightarrow> p_state (the_proc t i) = SLEEPING \<Longrightarrow> p_kcont (the_proc t i) = p_kcont (the_proc s i)"
      using resume_kcont[OF res] il(1) nth[OF il(1)] by (simp add: eff(2))
    show "slot_move (a = Some j) (the_proc s j) (the_proc t j)"
      using run j il nth[OF j] kc unfolding runs_on_def
      by (cases "j = i") (auto simp: slot_move_def eff(2) intro: fits_cong[THEN iffD2])
    show "parent_move a (initproc s) (the_proc s j) (the_proc t j)"
      using runs_on_parent[OF run, of j a] j nth[OF j] by (auto simp: eff(2,5) parent_move_def split: if_splits)
  qed (use run in \<open>simp_all add: runs_on_def eff(2,4,5)\<close>)
qed

lemma exit_move:
  assumes inv: "kinv s" and cur: "cpu_proc s c = Some me" and ex: "exit E me s = Inr t"
  shows "table_move (Some me) s t"
proof -
  note me = kinv_current[OF inv cur] and parts = kinvD[OF inv]
  obtain r where r: "tree_root s r" using parts(2) by (auto simp: tree_inv_def)
  have rme: "r \<noteq> me" using exit_Inr(1)[OF ex me(1)] tree_rootD(2)[OF r] by auto
  obtain q where q: "p_parent (the_proc s me) = Some q" "q \<noteq> me"
    using tree_rootD(6)[OF r me(1) _ rme[symmetric]] me(2) by auto
  note t = exit_exited[OF ex me(1) tree_rootD(2)[OF r] q]
  show ?thesis
  proof (rule table_moveI)
    fix i assume i: "i < length (ptable s)"
    have same: "p_tickets (the_proc t i) = p_tickets (the_proc s i)" "p_killed (the_proc t i) = p_killed (the_proc s i)"
      using exit_Inr(6)[OF ex me(1) i] exit_Inr(13,14)[OF ex me(1)] i by (cases "i = me"; simp)+
    have "fits (the_proc t i) = fits (the_proc s i)" using exitedD(7)[OF t i] same by (intro fits_cong)
    then show "slot_move (Some me = Some i) (the_proc s i) (the_proc t i)"
      using me(2) same exitedD(4)[OF t] exitedD(7)[OF t i] exitedD(9,10)[OF t i]
      by (cases "i = me") (auto simp: slot_move_def)
    show "parent_move (Some me) (initproc s) (the_proc s i) (the_proc t i)"
      using exitedD(8)[OF t i] tree_rootD(2)[OF r] by (simp add: parent_move_def)
  qed (use exitedD(1-3)[OF t] in simp_all)
qed

lemma kill_move: "table_move a s (snd (kill E n s))"
proof (cases "find_idx (\<lambda>p. p_pid p = n) (ptable s)")
  case None
  then show ?thesis by (simp add: kill_def table_move_stay)
next
  case (Some i)
  show ?thesis
    by (rule table_move_upd[where i = i and f = "\<lambda>p. p\<lparr>p_killed := 1, p_state := if p_state p = SLEEPING then RUNNABLE else p_state p\<rparr>"])
      (auto simp: kill_found[OF Some] slot_move_def split: if_splits)
qed

lemma wakeup_move: "table_move a s (wakeup E ch s)"
  by (rule table_moveI) (auto simp: wakeup_def slot_move_def p_state_wake_one)

lemma wait_move:
  assumes inv: "kinv s" and cur: "cpu_proc s c = Some me" and w: "wait E me s = Inr (r, t)"
  shows "table_move a s t"
  using kinv_current[OF inv cur] w runs_on_wait[of E me "acquire E PtableLock s" r t]
    runs_on_move[of me "acquire E PtableLock s" t a] by (simp add: wait_def)

lemma growproc_move: "table_move a s (snd (growproc E me n s))"
proof -
  have "nextpid (snd (growproc E me n s)) = nextpid s" "initproc (snd (growproc E me n s)) = initproc s"
    by (auto simp: growproc_def Let_def split: prod.splits)
  then show ?thesis
    using growproc_table[of E me n s]
    by (auto intro: table_move_stay table_move_upd[where f = "\<lambda>p. p\<lparr>p_sz := z\<rparr>" for z])
qed

lemma settickets_move:
  assumes "sys_settickets E me s = Inr (r, t)"
  shows "table_move (Some me) s t"
proof (cases "argint (umem E s me) (the_proc s me) 0")
  case None
  then show ?thesis using assms by (auto simp: sys_settickets_def ret_def intro: table_move_stay)
next
  case (Some n)
  then have "t = upd_proc me (\<lambda>p. p\<lparr>p_tickets := n\<rparr>) s" using assms by (simp add: sys_settickets_def ret_def Let_def)
  then show ?thesis
    using argint_in_int[OF Some] by (intro table_move_upd[where i = me and f = "\<lambda>p. p\<lparr>p_tickets := n\<rparr>"]) simp_all
qed

lemma yield_move:
  assumes inv: "kinv s" and cur: "cpu_proc s c = Some me" and y: "yield E me s = Inr t"
  shows "table_move a s t"
proof -
  from y obtain ie r where "ptable t = upd_at me (parked RUNNABLE KYield ie r) (ptable s)" "nextpid t = nextpid s"
    "initproc t = initproc s" by (rule yield_Inr)
  then show ?thesis
    using kinv_current(2)[OF inv cur] by (intro table_move_upd[where f = "parked RUNNABLE KYield ie r"]) (auto simp: slot_move_def)
qed

lemma ostep_move:
  assumes inv: "kinv s" and st: "ostep E a s t"
  shows "table_move a s t"
  using st
proof (cases rule: ostep.cases)
  case (o_sleep c me k ch l s')
  then show ?thesis
    using kinv_current[OF inv o_sleep(3)] runs_on_sleep[OF o_sleep(6)] runs_on_move by simp
next
  case (o_user c me tf)
  then show ?thesis by (intro table_move_upd[where i = me and f = "\<lambda>p. p\<lparr>p_tf := tf\<rparr>"]) simp_all
next
  case (o_external x)
  then show ?thesis by (intro table_move_stay) simp_all
next
  case (o_idle c f)
  then show ?thesis using scheduler_None[of E c f s t] by (intro table_move_stay)
qed (auto intro: exit_move[OF inv] wait_move[OF inv] yield_move[OF inv] settickets_move growproc_move kill_move
      wakeup_move dispatch_move)

section \<open>Pids\<close>

text \<open>
  No two slots carry the same pid, except 0; slots that are free again may still carry the pid
  they last had.
\<close>

definition pid_unique :: "'x kstate \<Rightarrow> bool" where
  "pid_unique s \<longleftrightarrow> (\<forall>i<length (ptable s). p_pid (the_proc s i) < nextpid s) \<and>
     (\<forall>i<length (ptable s). \<forall>j<length (ptable s).
        p_pid (the_proc s i) = p_pid (the_proc s j) \<longrightarrow> p_pid (the_proc s i) = 0 \<or> i = j)"

lemma pid_uniqueI:
  assumes "\<And>i. i < length (ptable s) \<Longrightarrow> p_pid (the_proc s i) < nextpid s"
    and "\<And>i j. i < length (ptable s) \<Longrightarrow> j < length (ptable s) \<Longrightarrow>
      p_pid (the_proc s i) = p_pid (the_proc s j) \<Longrightarrow> p_pid (the_proc s i) = 0 \<or> i = j"
  shows "pid_unique s"
  using assms unfolding pid_unique_def by blast

lemma pid_uniqueD:
  assumes "pid_unique s" and "i < length (ptable s)"
  shows "p_pid (the_proc s i) < nextpid s"
    and "j < length (ptable s) \<Longrightarrow> p_pid (the_proc s i) = p_pid (the_proc s j) \<Longrightarrow> p_pid (the_proc s i) = 0 \<or> i = j"
  using assms unfolding pid_unique_def by blast+

text \<open>Slots keep their pid, lose it, or one of them gets the next one.\<close>

lemma pid_unique_keep:
  assumes u: "pid_unique s" and "0 < nextpid s" and len: "length (ptable t) = length (ptable s)"
    and np: "nextpid t = nextpid s"
    and pid: "\<And>i. i < length (ptable s) \<Longrightarrow> p_pid (the_proc t i) = p_pid (the_proc s i) \<or> p_pid (the_proc t i) = 0"
  shows "pid_unique t"
proof (rule pid_uniqueI)
  fix i assume i: "i < length (ptable t)"
  then show "p_pid (the_proc t i) < nextpid t" using pid_uniqueD(1)[OF u] pid[of i] assms(2) by (auto simp: len np)
  fix j assume "j < length (ptable t)" "p_pid (the_proc t i) = p_pid (the_proc t j)"
  then show "p_pid (the_proc t i) = 0 \<or> i = j" using pid_uniqueD(2)[OF u, of i j] pid[of i] pid[of j] i by (auto simp: len)
qed

lemma pid_unique_fresh:
  assumes u: "pid_unique s" and tab: "ptable t = upd_at i f (ptable s)"
    and f: "\<And>p. p_pid (f p) = nextpid s" and np: "nextpid t = nextpid s + 1"
  shows "pid_unique t"
proof (rule pid_uniqueI)
  have nth: "p_pid (the_proc t j) = (if j = i then nextpid s else p_pid (the_proc s j))" if "j < length (ptable s)" for j
    using that by (simp add: tab table_simps f)
  have len: "length (ptable t) = length (ptable s)" by (simp add: tab)
  fix a assume a: "a < length (ptable t)"
  then show "p_pid (the_proc t a) < nextpid t" using pid_uniqueD(1)[OF u, of a] by (simp add: len np nth)
  fix b assume "b < length (ptable t)" "p_pid (the_proc t a) = p_pid (the_proc t b)"
  then show "p_pid (the_proc t a) = 0 \<or> a = b"
    using a pid_uniqueD(1)[OF u, of a] pid_uniqueD(1)[OF u, of b] pid_uniqueD(2)[OF u, of a b]
    by (auto simp: len nth split: if_splits)
qed

lemma table_move_unique:
  assumes "pid_unique s" and "0 < nextpid s" and "table_move a s t"
  shows "pid_unique t"
  using assms(1,2) by (rule pid_unique_keep) (use assms(3) in \<open>auto simp: table_move_def slot_move_def\<close>)

section \<open>The invariant of configurations\<close>

text \<open>
  The embryos are the slots that processes inside \<^verbatim>\<open>fork\<close> are building, one each; such a process is
  alive and older than its child.
\<close>

definition fork_inv :: "'x kconf \<Rightarrow> bool" where
  "fork_inv z \<longleftrightarrow>
     (\<forall>i<length (ptable (fst z)). p_state (the_proc (fst z) i) = EMBRYO \<longrightarrow> (\<exists>me. snd z me = Some i)) \<and>
     (\<forall>me np. snd z me = Some np \<longrightarrow> me < length (ptable (fst z)) \<and> active (the_proc (fst z) me) \<and>
        np < length (ptable (fst z)) \<and> p_state (the_proc (fst z) np) = EMBRYO \<and>
        p_kcont (the_proc (fst z) np) = KForkret \<and> p_pid (the_proc (fst z) me) < p_pid (the_proc (fst z) np)) \<and>
     (\<forall>a b np. snd z a = Some np \<longrightarrow> snd z b = Some np \<longrightarrow> a = b)"

definition conf_inv :: "'x kconf \<Rightarrow> bool" where
  "conf_inv z \<longleftrightarrow> kinv (fst z) \<and> pid_unique (fst z) \<and> fork_inv z"

lemma fork_invI:
  assumes "\<And>i. i < length (ptable s) \<Longrightarrow> p_state (the_proc s i) = EMBRYO \<Longrightarrow> \<exists>me. fk me = Some i"
    and "\<And>me np. fk me = Some np \<Longrightarrow> me < length (ptable s) \<and> active (the_proc s me) \<and> np < length (ptable s) \<and>
      p_state (the_proc s np) = EMBRYO \<and> p_kcont (the_proc s np) = KForkret \<and>
      p_pid (the_proc s me) < p_pid (the_proc s np)"
    and "\<And>a b np. fk a = Some np \<Longrightarrow> fk b = Some np \<Longrightarrow> a = b"
  shows "fork_inv (s, fk)"
  using assms unfolding fork_inv_def by simp

lemma fork_invD:
  assumes "fork_inv (s, fk)"
  shows "i < length (ptable s) \<Longrightarrow> p_state (the_proc s i) = EMBRYO \<Longrightarrow> \<exists>me. fk me = Some i"
    and "fk me = Some np \<Longrightarrow> me < length (ptable s)" and "fk me = Some np \<Longrightarrow> active (the_proc s me)"
    and "fk me = Some np \<Longrightarrow> np < length (ptable s)"
    and "fk me = Some np \<Longrightarrow> p_state (the_proc s np) = EMBRYO"
    and "fk me = Some np \<Longrightarrow> p_kcont (the_proc s np) = KForkret"
    and "fk me = Some np \<Longrightarrow> p_pid (the_proc s me) < p_pid (the_proc s np)"
    and "fk a = Some np \<Longrightarrow> fk b = Some np \<Longrightarrow> a = b"
  using assms unfolding fork_inv_def by auto

lemma slot_move_active: "slot_move False p q \<Longrightarrow> active p \<Longrightarrow> active q \<and> p_pid q = p_pid p"
  by (cases "p_state p"; cases "p_state q") (simp_all add: slot_move_def active_def)

lemma slot_move_embryo:
  "slot_move b p q \<Longrightarrow> p_state q = EMBRYO \<longleftrightarrow> p_state p = EMBRYO"
  "slot_move b p q \<Longrightarrow> p_state p = EMBRYO \<Longrightarrow> p_kcont q = p_kcont p \<and> p_pid q = p_pid p"
  by (cases "p_state p"; cases "p_state q"; simp add: slot_move_def)+

lemma table_move_fork_inv:
  assumes inv: "fork_inv (s, fk)" and mv: "table_move a s t" and free: "\<And>me. a = Some me \<Longrightarrow> fk me = None"
  shows "fork_inv (t, fk)"
proof (rule fork_invI)
  have len: "length (ptable t) = length (ptable s)" using mv by (simp add: table_move_def)
  have slot: "slot_move (a = Some i) (the_proc s i) (the_proc t i)" if "i < length (ptable s)" for i
    using mv that by (simp add: table_move_def)
  fix i assume "i < length (ptable t)" "p_state (the_proc t i) = EMBRYO"
  then show "\<exists>me. fk me = Some i" using fork_invD(1)[OF inv] slot_move_embryo(1)[OF slot] by (simp add: len)
next
  fix me np assume fk: "fk me = Some np"
  have slot: "slot_move (a = Some i) (the_proc s i) (the_proc t i)" if "i < length (ptable s)" for i
    using mv that by (simp add: table_move_def)
  note d = fork_invD(2-7)[OF inv fk]
  have "a \<noteq> Some me" using free fk by auto
  then have "active (the_proc t me) \<and> p_pid (the_proc t me) = p_pid (the_proc s me)"
    using slot[OF d(1)] d(2) by (intro slot_move_active) simp_all
  then show "me < length (ptable t) \<and> active (the_proc t me) \<and> np < length (ptable t) \<and>
      p_state (the_proc t np) = EMBRYO \<and> p_kcont (the_proc t np) = KForkret \<and>
      p_pid (the_proc t me) < p_pid (the_proc t np)"
    using d slot_move_embryo[OF slot[OF d(3)]] mv by (simp add: table_move_def)
qed (rule fork_invD(8)[OF inv])

text \<open>The first half of \<^verbatim>\<open>fork\<close>: an unused slot is written, which no process inside \<^verbatim>\<open>fork\<close> knows.\<close>

abbreviation building :: "'x kstate \<Rightarrow> nat \<Rightarrow> nat \<Rightarrow> bool" where
  "building s me np \<equiv> me < length (ptable s) \<and> active (the_proc s me) \<and> np < length (ptable s) \<and>
     p_state (the_proc s np) = EMBRYO \<and> p_kcont (the_proc s np) = KForkret \<and>
     p_pid (the_proc s me) < p_pid (the_proc s np)"

lemma building_keep:
  assumes f: "fork_inv (s, fk)" and fk: "fk m = Some n" and i: "p_state (the_proc s i) = UNUSED"
    and tab: "ptable t = upd_at i g (ptable s)"
  shows "building t m n"
proof -
  note d = fork_invD(2-7)[OF f fk]
  have "m \<noteq> i" "n \<noteq> i" using d(2,4) i by auto
  then show ?thesis using d by (simp add: tab table_simps)
qed

lemma lost_fork_inv:
  assumes f: "fork_inv (s, fk)" and i: "p_state (the_proc s i) = UNUSED"
    and tab: "ptable t = upd_at i g (ptable s)" and g: "\<And>p. p_state (g p) = UNUSED"
  shows "fork_inv (t, fk)"
proof (rule fork_invI)
  fix j assume "j < length (ptable t)" "p_state (the_proc t j) = EMBRYO"
  then show "\<exists>me. fk me = Some j" using fork_invD(1)[OF f, of j] by (auto simp: tab table_simps g split: if_splits)
next
  fix m n assume "fk m = Some n"
  then show "building t m n" using i tab by (rule building_keep[OF f])
qed (rule fork_invD(8)[OF f])

lemma found_fork_inv:
  assumes f: "fork_inv (s, fk)" and me: "me < length (ptable s)" "active (the_proc s me)" "fk me = None"
    and i: "i < length (ptable s)" "p_state (the_proc s i) = UNUSED"
    and tab: "ptable t = upd_at i (embryo E n k) (ptable s)" and n: "p_pid (the_proc s me) < n"
  shows "fork_inv (t, fk(me \<mapsto> i))"
proof (rule fork_invI)
  fix j assume "j < length (ptable t)" "p_state (the_proc t j) = EMBRYO"
  then have "j = i \<or> (\<exists>m. fk m = Some j)" using fork_invD(1)[OF f, of j] by (auto simp: tab table_simps split: if_splits)
  then show "\<exists>m. (fk(me \<mapsto> i)) m = Some j" using me(3) by (metis fun_upd_apply option.distinct(1))
next
  have new: "fk b \<noteq> Some i" for b using fork_invD(5)[OF f, of b i] i(2) by auto
  show "(fk(me \<mapsto> i)) a = Some n \<Longrightarrow> (fk(me \<mapsto> i)) b = Some n \<Longrightarrow> a = b" for a b n
    using fork_invD(8)[OF f, of a n b] new by (auto split: if_splits)
  have "me \<noteq> i" using me(2) i(2) by auto
  then show "building t m j" if "(fk(me \<mapsto> i)) m = Some j" for m j
    using that me i n building_keep[OF f _ i(2) tab, of m j] by (cases "m = me") (auto simp: tab table_simps)
qed

lemma alloc_inv:
  assumes inv: "conf_inv (s, fk)" and cur: "cpu_proc s c = Some me" and free: "fk me = None"
    and np: "nextpid s < INT_MAX" and al: "allocproc E s = (r, s')"
  shows "conf_inv (s', case r of None \<Rightarrow> fk | Some i \<Rightarrow> fk(me \<mapsto> i))"
proof -
  have k: "kinv s" and u: "pid_unique s" and f: "fork_inv (s, fk)" using inv by (simp_all add: conf_inv_def)
  note wrap = nextpid_wrap[OF k np] and me = kinv_current[OF k cur]
  show ?thesis
  proof (cases rule: allocproc_cases[of s E])
    case full
    then have same: "ptable s' = ptable s" "nextpid s' = nextpid s" "initproc s' = initproc s" "cpu_proc s' = cpu_proc s"
      "r = None" using al by auto
    then show ?thesis
      using k u f kinv_cong[OF same(1-4)] by (simp add: conf_inv_def pid_unique_def fork_inv_def)
  next
    case (nomem i x)
    have i: "i < length (ptable s)" "p_state (the_proc s i) = UNUSED" using nomem(1) by (simp_all add: table_simps)
    have s': "ptable s' = upd_at i (embryo_lost (nextpid s)) (ptable s)" "nextpid s' = nextpid s + 1"
      "initproc s' = initproc s" "cpu_proc s' = cpu_proc s" "r = None" using al nomem(2) wrap by auto
    have "kinv s'" using k i(1) _ s'(1) by (rule unused_inv) (use i s' in \<open>simp_all add: embryo_lost_def\<close>)
    moreover have "pid_unique s'" using u s'(1) _ s'(2) by (rule pid_unique_fresh) (simp add: embryo_lost_def)
    ultimately show ?thesis
      using lost_fork_inv[OF f i(2) s'(1)] by (simp add: conf_inv_def s'(5) embryo_lost_def)
  next
    case (found i kk x)
    have i: "i < length (ptable s)" "p_state (the_proc s i) = UNUSED" using found(1) by (simp_all add: table_simps)
    have s': "ptable s' = upd_at i (embryo E (nextpid s) kk) (ptable s)" "nextpid s' = nextpid s + 1"
      "initproc s' = initproc s" "cpu_proc s' = cpu_proc s" "r = Some i" using al found(3) wrap by auto
    have "kinv s'" using k i(1) _ s'(1) by (rule unused_inv) (use i s' in simp_all)
    moreover have "pid_unique s'" using u s'(1) _ s'(2) by (rule pid_unique_fresh) simp
    ultimately show ?thesis
      using found_fork_inv[OF f me(1) _ free i s'(1) pid_uniqueD(1)[OF u me(1)]] me(2) by (simp add: conf_inv_def s'(5))
  qed
qed

text \<open>The second half: the embryo becomes a process, or is given back.\<close>

lemma rest_fork_inv:
  assumes f: "fork_inv (s, fk)" and fk: "fk me = Some np" and tab: "ptable t = upd_at np g (ptable s)"
    and g: "\<And>p. p_state (g p) \<noteq> EMBRYO"
  shows "fork_inv (t, fk(me := None))"
proof (rule fork_invI)
  fix j assume "j < length (ptable t)" "p_state (the_proc t j) = EMBRYO"
  then have j: "j < length (ptable s)" "p_state (the_proc s j) = EMBRYO" "j \<noteq> np"
    using g by (auto simp: tab table_simps split: if_splits)
  then obtain m where "fk m = Some j" using fork_invD(1)[OF f] by blast
  then show "\<exists>m. (fk(me := None)) m = Some j" using j(3) fk by (intro exI[of _ m]) auto
next
  fix m n assume "(fk(me := None)) m = Some n"
  then have mn: "fk m = Some n" "m \<noteq> me" by (auto split: if_splits)
  note d = fork_invD(2-7)[OF f mn(1)]
  have "n \<noteq> np" using fork_invD(8)[OF f fk, of m] mn by auto
  moreover have "m \<noteq> np" using fork_invD(5)[OF f fk] d(2) by auto
  ultimately show "building t m n" using d by (simp add: tab table_simps)
qed (use fork_invD(8)[OF f] in \<open>auto split: if_splits\<close>)

lemma rest_inv:
  assumes inv: "conf_inv (s, fk)" and fk: "fk me = Some np"
  shows "conf_inv (snd (fork_rest E me np s), fk(me := None))"
proof -
  have k: "kinv s" and u: "pid_unique s" and f: "fork_inv (s, fk)" using inv by (simp_all add: conf_inv_def)
  note d = fork_invD(2-7)[OF f fk]
  have nl: "\<not> live (the_proc s np)" using d(4) by simp
  have pos: "0 < nextpid s" using kinvD(1)[OF k] by (simp add: pid_inv_def)
  note pid = pid_unique_keep[OF u pos]
  from d(3) show ?thesis
  proof (cases rule: fork_rest_cases[of np s E me])
    case (nocopy s')
    have "kinv s'" using k d(3) nl nocopy(2) by (rule unused_inv) (use nocopy in simp_all)
    moreover have "pid_unique s'" by (rule pid) (use nocopy in \<open>auto simp: table_simps\<close>)
    ultimately show ?thesis using rest_fork_inv[OF f fk nocopy(2)] nocopy(1) by (simp add: conf_inv_def)
  next
    case (child s' dir fs cw)
    have "0 < p_pid (the_proc s me)" using pid_invD(1)[OF kinvD(1)[OF k] d(1)] d(2) by simp
    then have np: "p_pid (the_proc s np) \<noteq> 0" using d(6) by linarith
    have fresh: "p_pid (the_proc s j) \<noteq> p_pid (the_proc s np)" if "j < length (ptable s)" "live (the_proc s j)" for j
      using pid_uniqueD(2)[OF u d(3) that(1)] np nl that(2) by metis
    have "kinv s'"
      by (rule spawn_inv[OF k d(1,2) nl slot_set_upd[OF d(3) child(2)]])
        (simp_all add: child(3-5) d(5,6) fresh pid_uniqueD(1)[OF u d(3)])
    moreover have "pid_unique s'" by (rule pid) (use child in \<open>auto simp: table_simps\<close>)
    ultimately show ?thesis using rest_fork_inv[OF f fk child(2)] child(1) by (simp add: conf_inv_def)
  qed
qed

lemma fork_step_inv:
  assumes "conf_inv z" and "fork_step E me r z z'"
  shows "conf_inv z'"
  using assms(2)
proof (cases rule: fork_step.cases)
  case (f_alloc s c fk np s')
  then show ?thesis using alloc_inv[of s fk c me E "Some np" s'] assms(1) by simp
next
  case (f_noproc s c fk s')
  then show ?thesis using alloc_inv[of s fk c me E None s'] assms(1) by simp
next
  case (f_rest s c fk np v s')
  then show ?thesis using rest_inv[of s fk me np E] assms(1) by simp
qed

lemma kstep_inv:
  assumes "conf_inv z" and "kstep E z z'"
  shows "conf_inv z'"
  using assms(2)
proof (cases rule: kstep.cases)
  case (k_fork me r)
  show ?thesis by (rule fork_step_inv[OF assms(1) k_fork])
next
  case (k_other a s s' fk)
  have k: "kinv s" "pid_unique s" "fork_inv (s, fk)" using assms(1) k_other(1) by (simp_all add: conf_inv_def)
  have mv: "table_move a s s'" by (rule ostep_move[OF k(1) k_other(3)])
  moreover have "0 < nextpid s" using kinvD(1)[OF k(1)] by (simp add: pid_inv_def)
  ultimately show ?thesis
    using ostep_inv[OF k(1) k_other(3)] table_move_unique[OF k(2)] table_move_fork_inv[OF k(3) mv k_other(4)]
    by (simp add: conf_inv_def k_other(2))
qed

lemma used_pid_pos:
  assumes inv: "conf_inv (s, fk)" and i: "i < length (ptable s)" "p_state (the_proc s i) \<noteq> UNUSED"
  shows "0 < p_pid (the_proc s i)"
proof -
  have k: "pid_inv s" and f: "fork_inv (s, fk)" using inv by (simp_all add: conf_inv_def kinv_def)
  show ?thesis
  proof (cases "live (the_proc s i)")
    case True
    then show ?thesis using pid_invD(1)[OF k i(1)] by simp
  next
    case False
    then have "p_state (the_proc s i) = EMBRYO" using i(2) by (cases "p_state (the_proc s i)") simp_all
    then obtain me where me: "fk me = Some i" using fork_invD(1)[OF f i(1)] by blast
    then show ?thesis
      using pid_invD(1)[OF k fork_invD(2)[OF f me]] fork_invD(3,7)[OF f me] by (simp add: order.strict_trans)
  qed
qed

text \<open>A step of \<^verbatim>\<open>fork\<close> leaves the slots of all other processes alone, the dead ones too.\<close>

lemma fork_step_live:
  assumes inv: "conf_inv (s, fk)" and st: "fork_step E p r (s, fk) (s', fk')"
  shows "length (ptable s') = length (ptable s) \<and>
    (i < length (ptable s) \<longrightarrow> live (the_proc s i) \<longrightarrow> the_proc s' i = the_proc s i)"
proof -
  have f: "fork_inv (s, fk)" using inv by (simp add: conf_inv_def)
  let ?goal = "\<lambda>t. length (ptable t) = length (ptable s) \<and>
    (i < length (ptable s) \<longrightarrow> live (the_proc s i) \<longrightarrow> the_proc t i = the_proc s i)"
  have alloc: "?goal t" if "allocproc E s = (q, t)" for q t
    by (cases rule: allocproc_cases[of s E]) (use that in \<open>auto simp: table_simps\<close>)
  have rest: "?goal t" if "fk p = Some np" "fork_rest E p np s = (q, t)" for np q t
    using fork_invD(4)[OF f that(1)]
    by (cases rule: fork_rest_cases[of np s E p]) (use that(2) fork_invD(5)[OF f that(1)] in \<open>auto simp: table_simps\<close>)
  from st show "?goal s'" using alloc rest by (cases rule: fork_step.cases; force)
qed

lemma fork_step_others:
  assumes "conf_inv (s, fk)" and "fork_step E p r (s, fk) (s', fk')"
  shows "length (ptable s') = length (ptable s)"
    and "i < length (ptable s) \<Longrightarrow> active (the_proc s i) \<Longrightarrow> the_proc s' i = the_proc s i"
  using fork_step_live[OF assms, of i] by (simp_all add: live_def)

section \<open>Types\<close>

definition typed :: "'x kstate \<Rightarrow> bool" where
  "typed s \<longleftrightarrow> in_int (nextpid s) \<and> (\<forall>i<length (ptable s). fits (the_proc s i))"

lemma typed_move: "typed s \<Longrightarrow> table_move a s t \<Longrightarrow> typed t"
  by (auto simp: typed_def table_move_def slot_move_def)

lemma typed_upd:
  assumes "typed s" and "ptable t = upd_at i f (ptable s)" and "in_int (nextpid t)"
    and "i < length (ptable s) \<Longrightarrow> fits (the_proc s i) \<Longrightarrow> fits (f (the_proc s i))"
  shows "typed t"
  using assms by (auto simp: typed_def table_simps)

lemma alloc_typed:
  assumes "typed s" and k: "kinv s" and np: "nextpid s < INT_MAX" and al: "allocproc E s = (r, t)"
  shows "typed t \<and> length (ptable t) = length (ptable s)"
proof -
  note wrap = nextpid_wrap[OF k np]
  have pos: "in_int (nextpid s)" "in_int (nextpid s + 1)"
    using kinvD(1)[OF k] np by (auto simp: pid_inv_def in_int_def INT_MIN_def)
  show ?thesis
  proof (cases rule: allocproc_cases[of s E])
    case full
    then show ?thesis using al assms(1) by (auto simp: typed_def)
  next
    case (nomem i x)
    then have t: "ptable t = upd_at i (embryo_lost (nextpid s)) (ptable s)" "nextpid t = nextpid s + 1" using al wrap by auto
    show ?thesis
      using typed_upd[OF assms(1) t(1)] pos t by (simp add: fits_def embryo_lost_def)
  next
    case (found i kk x)
    then have t: "ptable t = upd_at i (embryo E (nextpid s) kk) (ptable s)" "nextpid t = nextpid s + 1" using al wrap by auto
    show ?thesis using typed_upd[OF assms(1) t(1)] pos t by (simp add: fits_def)
  qed
qed

lemma rest_typed:
  assumes "typed s" and "np < length (ptable s)" and "fork_rest E me np s = (r, t)"
  shows "typed t \<and> length (ptable t) = length (ptable s)"
  using assms(2)
proof (cases rule: fork_rest_cases[of np s E me])
  case (nocopy s')
  then show ?thesis using typed_upd[OF assms(1) nocopy(2)] assms(1,3) by (auto simp: fits_def typed_def)
next
  case (child s' d fs cw)
  then show ?thesis using typed_upd[OF assms(1) child(2)] assms(1,3) by (auto simp: fits_def typed_def)
qed

lemma kstep_typed:
  assumes inv: "conf_inv z" and ty: "typed (fst z)" and st: "kstep E z z'"
  shows "typed (fst z') \<and> length (ptable (fst z')) = length (ptable (fst z))"
  using st
proof (cases rule: kstep.cases)
  case (k_fork me r)
  have k: "kinv (fst z)" and f: "fork_inv z" using inv by (simp_all add: conf_inv_def)
  from k_fork show ?thesis
  proof (cases rule: fork_step.cases)
    case (f_rest s c fk np v s')
    then have "np < length (ptable s)" using fork_invD(4)[of s fk me np] f by simp
    then show ?thesis using rest_typed[OF _ _ f_rest(6)] ty f_rest by simp
  qed (use ty k alloc_typed[of _ E] in auto)
next
  case (k_other a s s' fk)
  have "kinv s" using inv k_other(1) by (simp add: conf_inv_def)
  then have mv: "table_move a s s'" using k_other(3) by (rule ostep_move)
  then show ?thesis using typed_move[OF _ mv] ty k_other(1,2) by (simp add: table_move_def)
qed

section \<open>Reachable configurations\<close>

lemma booted_conf:
  assumes "booted E s"
  shows "conf_inv (s, Map.empty)"
proof -
  from assms obtain s0 where b: "blank s0" and u: "userinit E s0 = Inr s" by (auto simp: booted_def)
  from userinit_Inr[OF u] obtain i f where s: "ptable s = upd_at i f (ptable s0)" "nextpid s = swrap (nextpid s0 + 1)"
    and f: "\<forall>p. p_state (f p) = RUNNABLE \<and> p_pid (f p) = nextpid s0 \<and> p_parent (f p) = p_parent p \<and>
      p_kcont (f p) = KForkret" by blast
  have np: "nextpid s = 2" "nextpid s0 = 1"
    using b s by (simp_all add: blank_def swrap_id in_int_def INT_MIN_def INT_MAX_def)
  have slot: "p_pid (the_proc s j) = (if j = i then 1 else 0)" "p_state (the_proc s j) \<noteq> EMBRYO"
    if "j < length (ptable s)" for j
    using b that f np by (simp_all add: s table_simps blank_def)
  have "pid_unique s" by (rule pid_uniqueI) (auto simp: slot np split: if_splits)
  moreover have "fork_inv (s, Map.empty)" by (rule fork_invI) (use slot(2) in auto)
  ultimately show ?thesis using booted_inv[OF assms] by (simp add: conf_inv_def)
qed

text \<open>The contract of a transition system, discharged for the kernel.\<close>

interpretation kern: transition_system "kinit E" "kstep E" conf_inv for E :: "'x kenv"
proof unfold_locales
  show "kinit E z \<Longrightarrow> conf_inv z" for z using booted_conf[of E "fst z"] by (cases z) (simp add: kinit_def)
qed (rule kstep_inv)

lemma reachable_typed:
  assumes "kinit E z0" and "(kstep E)\<^sup>*\<^sup>* z0 z" and "typed (fst z0)"
  shows "typed (fst z) \<and> length (ptable (fst z)) = length (ptable (fst z0))"
  using assms(1,2)
proof (rule kern.reachable_stable)
  fix u v assume "conf_inv u" "typed (fst u) \<and> length (ptable (fst u)) = length (ptable (fst z0))" "kstep E u v"
  then show "typed (fst v) \<and> length (ptable (fst v)) = length (ptable (fst z0))" using kstep_typed[of u E v] by simp
qed (use assms(3) in simp)

lemma reachable_kinv: "kinit E z0 \<Longrightarrow> (kstep E)\<^sup>*\<^sup>* z0 z \<Longrightarrow> kinv (fst z)"
  using kern.reachable_inv[of E z0 z] by (simp add: conf_inv_def)

text \<open>The function \<^verbatim>\<open>fork\<close> is what the two steps do when nothing comes in between.\<close>

lemma allocproc_cpu: "cpu_proc (snd (allocproc E s)) = cpu_proc s"
  by (cases rule: allocproc_cases[of s E]) simp_all

lemma fork_undisturbed:
  assumes "cpu_proc s c = Some me" and "fk me = None" and "nextpid s < INT_MAX"
  shows "(kstep E)\<^sup>*\<^sup>* (s, fk) (snd (fork E me s), fk)"
proof (cases "allocproc E s")
  case (Pair r s1)
  show ?thesis
  proof (cases r)
    case None
    then have "kstep E (s, fk) (s1, fk)" using assms Pair by (auto intro: k_fork[OF f_noproc])
    then show ?thesis using Pair None by (simp add: fork_def r_into_rtranclp[of "kstep E"])
  next
    case (Some np)
    have "cpu_proc s1 c = Some me" using allocproc_cpu[of E s] Pair assms(1) by simp
    then have "kstep E (s1, fk(me \<mapsto> np)) (snd (fork_rest E me np s1), (fk(me \<mapsto> np))(me := None))"
      by (rule k_fork[OF f_rest[where r = "fst (fork_rest E me np s1)"]]) simp_all
    moreover have "(fk(me \<mapsto> np))(me := None) = fk" using assms(2) by auto
    moreover have "kstep E (s, fk) (s1, fk(me \<mapsto> np))" using assms Pair Some by (auto intro: k_fork[OF f_alloc])
    ultimately show ?thesis
      using Pair Some by (auto simp: fork_def intro: converse_rtranclp_into_rtranclp[of "kstep E"])
  qed
qed

end
