(* ===== verification/Kernel_Props.thy ===== *)
theory Kernel_Props
  imports Kernel_Steps
begin

text \<open>
  The properties of the process component and of its scheduler, each over the definitions of
  \<open>Proc\<close>, with witnesses on a small simulated machine: \<open>sim_env\<close> instantiates the
  code outside the repository with functions that satisfy its documented behaviour.
\<close>

section \<open>A simulated machine\<close>

record sim =
  sim_held :: bool
  sim_ncli :: int
  sim_page :: u32
  sim_draw :: int

definition sim_env :: "sim kenv" where
  "sim_env = \<lparr>
     e_KSTACKSIZE = 4096, e_sizeof_tf = 76, e_PGSIZE = 4096, e_forkret = 1000, e_trapret = 2000,
     e_user_cs = 27, e_user_ds = 35, e_FL_IF = 512,
     e_kalloc = (\<lambda>x. (sim_page x, x\<lparr>sim_page := sim_page x + 4096\<rparr>)),
     e_kfree = (\<lambda>a x. x),
     e_setupkvm = (\<lambda>x. (sim_page x, x\<lparr>sim_page := sim_page x + 4096\<rparr>)),
     e_inituvm = (\<lambda>a x. x),
     e_copyuvm = (\<lambda>d n x. (sim_page x, x\<lparr>sim_page := sim_page x + 4096\<rparr>)),
     e_allocuvm = (\<lambda>d a b x. (b, x)), e_deallocuvm = (\<lambda>d a b x. (b, x)), e_freevm = (\<lambda>d x. x),
     e_switchuvm = (\<lambda>p x. x), e_switchkvm = (\<lambda>x. x),
     e_filedup = (\<lambda>f x. (f, x)), e_fileclose = (\<lambda>f x. x), e_idup = (\<lambda>i x. (i, x)),
     e_iput = (\<lambda>i x. x), e_namei = (\<lambda>n x. (7, x)), e_begin_op = (\<lambda>x. x), e_end_op = (\<lambda>x. x),
     e_fs_init = (\<lambda>x. x), e_safestrcpy = (\<lambda>d n k. take (k - 1) n @ [NUL]),
     e_initlock = (\<lambda>l x. x),
     e_acquire = (\<lambda>l x. x\<lparr>sim_held := (if l = PtableLock then True else sim_held x), sim_ncli := sim_ncli x + 1\<rparr>),
     e_release = (\<lambda>l x. x\<lparr>sim_held := (if l = PtableLock then False else sim_held x), sim_ncli := sim_ncli x - 1\<rparr>),
     e_holding = (\<lambda>l x. l = PtableLock \<and> sim_held x), e_ncli = sim_ncli,
     e_intena = (\<lambda>x. 1), e_set_intena = (\<lambda>n x. x), e_readeflags = (\<lambda>x. 0),
     e_registers = (\<lambda>x. \<lparr>c_edi = 0, c_esi = 0, c_ebx = 0, c_ebp = 0, c_eip = 0\<rparr>),
     e_sti = (\<lambda>x. x), e_hlt = (\<lambda>x. x), e_unixtime = (\<lambda>x. 0), e_sgenrand = (\<lambda>n x. x),
     e_random_at_most = (\<lambda>n x. (min n (sim_draw x), x)), e_getcallerpcs = (\<lambda>a x. []),
     e_ticks = (\<lambda>x. 0), e_cmostime = (\<lambda>a x. x), e_sizeof_rtcdate = 24, e_umem = (\<lambda>d x a. 0)\<rparr>"

definition sim_free :: proc where
  "sim_free = \<lparr>p_sz = 0, p_pgdir = 0, p_kstack = 0, p_state = UNUSED, p_pid = 0, p_parent = None,
     p_tf = \<lparr>tf_eax = 0, tf_esp = 0, tf_eip = 0, tf_cs = 0, tf_ds = 0, tf_es = 0, tf_ss = 0, tf_eflags = 0\<rparr>,
     p_tfaddr = 0, p_retslot = (0, 0), p_context = \<lparr>c_edi = 0, c_esi = 0, c_ebx = 0, c_ebp = 0, c_eip = 0\<rparr>,
     p_ctxaddr = 0, p_kcont = KForkret, p_intena = 0, p_chan = None, p_killed = 0,
     p_ofile = [0, 0], p_cwd = 0, p_name = replicate 16 NUL, p_tickets = 0\<rparr>"

definition sim_blank :: "sim kstate" where
  "sim_blank = \<lparr>ptable = replicate 3 sim_free, nextpid = 1, initproc = None, forkret_first = True,
     cpu_proc = (\<lambda>_. None), ext = \<lparr>sim_held = False, sim_ncli = 0, sim_page = 4096, sim_draw = 0\<rparr>\<rparr>"

text \<open>The machine after boot, after its first dispatch, and after the first process forked.\<close>

definition sim_boot :: "sim kstate" where
  "sim_boot = (case userinit sim_env sim_blank of Inr s \<Rightarrow> s | Inl _ \<Rightarrow> sim_blank)"

definition sim_sched :: "nat option \<times> sim kstate" where
  "sim_sched = scheduler sim_env 0 True sim_boot"

definition sim_run :: "sim kstate" where
  "sim_run = (case resume sim_env 0 (snd sim_sched) of Inr (_, t) \<Rightarrow> t | Inl _ \<Rightarrow> snd sim_sched)"

definition sim_fork :: "sim kstate" where
  "sim_fork = snd (fork sim_env 0 sim_run)"

definition sim_wait :: "sim kstate" where
  "sim_wait = (case wait sim_env 0 sim_fork of
     Inr (_, s) \<Rightarrow> scheduler_return sim_env 0 s | Inl _ \<Rightarrow> sim_fork)"

lemma sim_boot_ok: "userinit sim_env sim_blank = Inr sim_boot"
proof -
  have "\<not> isl (userinit sim_env sim_blank)" by code_simp
  then show ?thesis by (cases "userinit sim_env sim_blank") (auto simp: sim_boot_def)
qed

lemma sim_init: "kinit sim_env (sim_boot, Map.empty)"
proof -
  have "list_all (\<lambda>p. p_state p = UNUSED \<and> p_parent p = None \<and> p_pid p = 0) (ptable sim_blank)" by code_simp
  moreover have "nextpid sim_blank = 1" "cpu_proc sim_blank = (\<lambda>_. None)" by (simp_all add: sim_blank_def)
  ultimately have "blank sim_blank" by (simp add: blank_def list_all_iff)
  then show ?thesis using sim_boot_ok by (auto simp: kinit_def booted_def)
qed

definition returned :: "kerror + wait_result \<times> 'x kstate \<Rightarrow> bool" where
  "returned r \<longleftrightarrow> (case r of Inr (WReturn _, _) \<Rightarrow> True | _ \<Rightarrow> False)"

definition blocked :: "kerror + wait_result \<times> 'x kstate \<Rightarrow> bool" where
  "blocked r \<longleftrightarrow> (case r of Inr (WSleep, _) \<Rightarrow> True | _ \<Rightarrow> False)"

lemma returned_iff: "returned r \<longleftrightarrow> (\<exists>n s. r = Inr (WReturn n, s))"
  by (auto simp: returned_def split: sum.splits prod.splits wait_result.splits)

lemma blocked_iff: "blocked r \<longleftrightarrow> (\<exists>s. r = Inr (WSleep, s))"
  by (auto simp: blocked_def split: sum.splits prod.splits wait_result.splits)

text \<open>An operation outside \<^verbatim>\<open>fork\<close> while no process is inside.\<close>

lemma quiet_step: "ostep E a s t \<Longrightarrow> kstep E (s, Map.empty) (t, Map.empty)"
  by (rule k_other) simp_all

lemma sim_dispatch: "kstep sim_env (sim_boot, Map.empty) (sim_run, Map.empty)"
proof -
  have "fst sim_sched = Some 0" by code_simp
  then have s1: "scheduler sim_env 0 True sim_boot = (Some 0, snd sim_sched)"
    by (simp add: sim_sched_def prod_eq_iff)
  have "returned (resume sim_env 0 (snd sim_sched))" by code_simp
  then obtain r where r: "resume sim_env 0 (snd sim_sched) = Inr (WReturn r, sim_run)"
    by (auto simp: returned_iff sim_run_def)
  have "cpu_proc sim_boot 0 = None" by code_simp
  then show ?thesis using s1 r by (rule quiet_step[OF o_dispatch])
qed

lemma sim_fork_steps: "(kstep sim_env)\<^sup>*\<^sup>* (sim_run, Map.empty) (sim_fork, Map.empty)"
proof -
  have "cpu_proc sim_run 0 = Some 0" "nextpid sim_run < INT_MAX" by code_simp+
  then show ?thesis unfolding sim_fork_def by (intro fork_undisturbed) simp_all
qed

lemma sim_wait_step: "kstep sim_env (sim_fork, Map.empty) (sim_wait, Map.empty)"
proof -
  have "blocked (wait sim_env 0 sim_fork)" by code_simp
  then obtain s where s: "wait sim_env 0 sim_fork = Inr (WSleep, s)" by (auto simp: blocked_iff)
  have "cpu_proc sim_fork 0 = Some 0" by code_simp
  then have "kstep sim_env (sim_fork, Map.empty) (scheduler_return sim_env 0 s, Map.empty)"
    using s by (rule quiet_step[OF o_wait_sleep])
  then show ?thesis using s by (simp add: sim_wait_def)
qed

lemma sim_reach_fork: "(kstep sim_env)\<^sup>*\<^sup>* (sim_boot, Map.empty) (sim_fork, Map.empty)"
  using sim_dispatch sim_fork_steps by (rule converse_rtranclp_into_rtranclp)

lemma sim_reach_wait: "(kstep sim_env)\<^sup>*\<^sup>* (sim_boot, Map.empty) (sim_wait, Map.empty)"
  using sim_reach_fork sim_wait_step by (rule rtranclp.rtrancl_into_rtrancl)

section \<open>Reachable states\<close>

text \<open>
  C1. From boot on, whatever the processes, processors, interrupts and external code do, and
  wherever other steps come in between the two halves of a \<^verbatim>\<open>fork\<close>, the kernel invariant holds:
  pids are positive and distinct, the process tree hangs off the first process, a process
  runs on at most one processor, no parent sleeps over a zombie child, zombies hold no
  files, and each embryo is being built by exactly one live process, its future parent.
\<close>

theorem kernel_invariant:
  assumes "kinit E z0" and "(kstep E)\<^sup>*\<^sup>* z0 (s, fk)"
  shows "kinv s \<and> pid_unique s \<and> fork_inv (s, fk)"
  using kern.reachable_inv[OF assms] by (simp add: conf_inv_def)

text \<open>The first process is stopped by the timer in the middle of its \<^verbatim>\<open>fork\<close>.\<close>

definition sim_half :: "sim kstate" where
  "sim_half = snd (allocproc sim_env sim_run)"

definition sim_off :: "sim kstate" where
  "sim_off = scheduler_return sim_env 0 (case yield sim_env 0 sim_half of Inr s \<Rightarrow> s | Inl _ \<Rightarrow> sim_half)"

lemma sim_reach_off: "(kstep sim_env)\<^sup>*\<^sup>* (sim_boot, Map.empty) (sim_off, [0 \<mapsto> 1])"
proof -
  have h: "cpu_proc sim_run 0 = Some 0" "nextpid sim_run < INT_MAX" "cpu_proc sim_half 0 = Some 0" by code_simp+
  have "fst (allocproc sim_env sim_run) = Some 1" by code_simp
  then have "allocproc sim_env sim_run = (Some 1, sim_half)" by (simp add: sim_half_def prod_eq_iff)
  then have a: "kstep sim_env (sim_run, Map.empty) (sim_half, [0 \<mapsto> 1])" using h by (auto intro: k_fork[OF f_alloc])
  have "\<not> isl (yield sim_env 0 sim_half)" by code_simp
  then obtain t where t: "yield sim_env 0 sim_half = Inr t" by (cases "yield sim_env 0 sim_half") auto
  have "kstep sim_env (sim_half, [0 \<mapsto> 1]) (scheduler_return sim_env 0 t, [0 \<mapsto> 1])"
    by (rule k_other[OF o_yield[OF h(3) t]]) simp
  then have "kstep sim_env (sim_half, [0 \<mapsto> 1]) (sim_off, [0 \<mapsto> 1])" by (simp add: sim_off_def t)
  with a sim_dispatch show ?thesis by (meson rtranclp.rtrancl_into_rtrancl rtranclp.rtrancl_refl)
qed

theorem kernel_invariant_witness:
  "kinv sim_off \<and> fork_inv (sim_off, [0 \<mapsto> 1]) \<and> map p_state (ptable sim_off) = [RUNNABLE, EMBRYO, UNUSED]"
proof -
  have "map p_state (ptable sim_off) = [RUNNABLE, EMBRYO, UNUSED]" by code_simp
  then show ?thesis using kernel_invariant[OF sim_init sim_reach_off] by blast
qed

text \<open>
  C2. Types are kept: if the slots hold values of their C types at boot, then in every reachable state the
  pid counter, all pids and all ticket numbers are in the range of \<^verbatim>\<open>int\<close>, \<^verbatim>\<open>killed\<close> is 0 or 1, the table
  has kept its size, and every process pointer (the current processes, the parents, the
  first process) points into it.
\<close>

theorem kernel_types:
  assumes "kinit E z0" and "(kstep E)\<^sup>*\<^sup>* z0 (s, fk)" and "typed (fst z0)"
  shows "in_int (nextpid s) \<and> length (ptable s) = length (ptable (fst z0)) \<and>
    (\<forall>p\<in>set (ptable s). in_int (p_pid p) \<and> in_int (p_tickets p) \<and> (p_killed p = 0 \<or> p_killed p = 1) \<and>
       (\<forall>j. p_parent p = Some j \<longrightarrow> j < length (ptable s))) \<and>
    (\<forall>c i. cpu_proc s c = Some i \<longrightarrow> i < length (ptable s)) \<and> (\<exists>r<length (ptable s). initproc s = Some r)"
proof -
  have ty: "typed s" "length (ptable s) = length (ptable (fst z0))" using reachable_typed[OF assms] by simp_all
  have inv: "kinv s" using reachable_kinv[OF assms(1,2)] by simp
  then obtain r where r: "tree_root s r" by (auto simp: kinv_def tree_inv_def)
  have par: "j < length (ptable s)" if "i < length (ptable s)" "p_parent (the_proc s i) = Some j" for i j
    using r that unfolding tree_root_def by (cases "live (the_proc s i)"; cases "i = r") auto
  have "in_int (p_pid p) \<and> in_int (p_tickets p) \<and> (p_killed p = 0 \<or> p_killed p = 1) \<and>
      (\<forall>j. p_parent p = Some j \<longrightarrow> j < length (ptable s))" if "p \<in> set (ptable s)" for p
    using that ty(1) par by (auto simp: in_set_conv_nth typed_def fits_def)
  moreover have "cpu_proc s c = Some i \<Longrightarrow> i < length (ptable s)" for c i using inv by (rule kinv_current(1))
  moreover have "\<exists>r<length (ptable s). initproc s = Some r" using r by (auto simp: tree_root_def)
  ultimately show ?thesis using ty by (auto simp: typed_def)
qed

theorem kernel_types_witness:
  "length (ptable sim_off) = 3 \<and> in_int (p_tickets (ptable sim_off ! 1)) \<and> p_killed (ptable sim_off ! 1) \<in> {0, 1}"
proof -
  have "list_all fits (ptable sim_boot)" "in_int (nextpid sim_boot)" "length (ptable sim_boot) = 3" by code_simp+
  then have h: "typed (fst (sim_boot, Map.empty :: nat \<rightharpoonup> nat))" "length (ptable sim_boot) = 3"
    by (simp_all add: typed_def list_all_length)
  note ty = kernel_types[OF sim_init sim_reach_off h(1)]
  have "length (ptable sim_off) = 3" using ty h(2) by simp
  then have "ptable sim_off ! 1 \<in> set (ptable sim_off)" by (intro nth_mem) simp
  then show ?thesis using ty h(2) by auto
qed

text \<open>
  C4. In a reachable state the scheduler never resumes a process behind its \<^verbatim>\<open>exit\<close>, so the
  \<^verbatim>\<open>panic\<close> at the end of \<^verbatim>\<open>exit\<close> is never reached.
\<close>

theorem never_zombie_exit:
  assumes "kinit E z0" and "(kstep E)\<^sup>*\<^sup>* z0 (s, fk)" and "cpu_proc s c = None"
    and "scheduler E c f s = (Some i, s1)"
  shows "p_kcont (ptable s1 ! i) \<noteq> KExit \<and> p_state (ptable s1 ! i) = RUNNING \<and> cpu_proc s1 c = Some i"
proof -
  have inv: "kinv s1"
    by (rule dispatch_inv[OF reachable_kinv[OF assms(1,2), unfolded fst_conv] assms(3,4)])
  have c: "cpu_proc s1 c = Some i" using scheduler_Some(3)[OF assms(4)] by simp
  note cur = kinv_current[OF inv c]
  then have "active (ptable s1 ! i)" by simp
  then show ?thesis using inv cur c unfolding kinv_def zombie_inv_def by blast
qed

theorem never_zombie_exit_witness:
  "scheduler sim_env 0 True sim_boot = (Some 0, snd sim_sched) \<and> p_kcont (ptable (snd sim_sched) ! 0) \<noteq> KExit"
proof -
  have "fst sim_sched = Some 0" by code_simp
  then have s: "scheduler sim_env 0 True sim_boot = (Some 0, snd sim_sched)"
    by (simp add: sim_sched_def prod_eq_iff)
  have c: "cpu_proc sim_boot 0 = None" by code_simp
  show ?thesis using never_zombie_exit[OF sim_init rtranclp.rtrancl_refl c s] s by blast
qed

section \<open>fork\<close>

lemma allocproc_others:
  assumes "find_idx (\<lambda>p. p_state p = UNUSED) (ptable s) = Some i" and "j \<noteq> i" and "j < length (ptable s)"
  shows "ptable (snd (allocproc E s)) ! j = ptable s ! j"
proof (cases rule: allocproc_cases[of s E])
  case full
  then show ?thesis by simp
qed (use assms in \<open>auto simp: table_simps\<close>)

lemma fork_child_cur:
  assumes "find_idx (\<lambda>p. p_state p = UNUSED) (ptable s) = Some i"
    and "me < length (ptable s)" and "p_state (ptable s ! me) \<noteq> UNUSED"
  shows "ptable (snd (allocproc E s)) ! me = ptable s ! me"
  using assms find_idx_SomeD(2)[OF assms(1)] by (intro allocproc_others) auto

text \<open>
  C7. A successful \<^verbatim>\<open>fork\<close> turns the first unused slot into a runnable child with a fresh pid, the
  caller as parent, the caller's size and registers except \<^verbatim>\<open>eax = 0\<close>, the default number of
  tickets, and \<^verbatim>\<open>forkret\<close> as its first code; no other slot changes.
\<close>

theorem fork_makes_child:
  assumes "me < length (ptable s)" and "p_state (ptable s ! me) = RUNNING"
    and "fork E me s = (r, s')" and "r \<noteq> - 1"
  shows "\<exists>i<length (ptable s). p_state (ptable s ! i) = UNUSED \<and>
    (\<forall>j<i. p_state (ptable s ! j) \<noteq> UNUSED) \<and>
    (\<forall>j<length (ptable s). j \<noteq> i \<longrightarrow> ptable s' ! j = ptable s ! j) \<and>
    r = nextpid s \<and> nextpid s' = swrap (nextpid s + 1) \<and>
    p_state (ptable s' ! i) = RUNNABLE \<and> p_pid (ptable s' ! i) = r \<and> p_parent (ptable s' ! i) = Some me \<and>
    p_sz (ptable s' ! i) = p_sz (ptable s ! me) \<and>
    p_tf (ptable s' ! i) = (p_tf (ptable s ! me))\<lparr>tf_eax := 0\<rparr> \<and>
    p_tickets (ptable s' ! i) = MAGIC_TICKET_NUM \<and> p_kcont (ptable s' ! i) = KForkret"
proof (cases rule: fork_cases[of E me s])
  case (child t i k cur d fs cw)
  have il: "i < length (ptable s)" using child(3) by (rule find_idx_SomeD)
  have "cur = ptable s ! me" using child(4) fork_child_cur[OF child(3) assms(1)] assms(2) by simp
  then show ?thesis
    using child assms(3) il by (intro exI[of _ i]) (auto simp: table_simps)
qed (use assms in simp_all)

theorem fork_makes_child_witness:
  "fst (fork sim_env 0 sim_run) = 2 \<and> (\<exists>i<length (ptable sim_run). p_state (ptable sim_run ! i) = UNUSED \<and>
     p_state (ptable sim_fork ! i) = RUNNABLE \<and> p_parent (ptable sim_fork ! i) = Some 0)"
proof -
  have h: "0 < length (ptable sim_run)" "p_state (ptable sim_run ! 0) = RUNNING" by code_simp+
  have r: "fst (fork sim_env 0 sim_run) = 2" by code_simp
  then have f: "fork sim_env 0 sim_run = (2, sim_fork)" by (simp add: sim_fork_def prod_eq_iff)
  show ?thesis using fork_makes_child[OF h f] r by auto
qed

text \<open>
  C8. When \<^verbatim>\<open>fork\<close> returns -1 (with a valid pid counter) the process table is as before except
  that one unused slot may have been written and is unused again, and the table is not
  otherwise touched: no used slot changes, and no slot becomes used.
\<close>

theorem fork_failure_keeps_table:
  assumes "fork E me s = (- 1, s')" and "0 < nextpid s"
  shows "length (ptable s') = length (ptable s) \<and>
    (\<forall>j<length (ptable s). (p_state (ptable s ! j) \<noteq> UNUSED \<longrightarrow> ptable s' ! j = ptable s ! j) \<and>
       (p_state (ptable s' ! j) = UNUSED \<longleftrightarrow> p_state (ptable s ! j) = UNUSED) \<and>
       p_parent (ptable s' ! j) = p_parent (ptable s ! j))"
proof (cases rule: fork_cases[of E me s])
  case (full t)
  then show ?thesis using assms by simp
next
  case (nomem t i f)
  then show ?thesis using assms find_idx_SomeD[OF nomem(3)] by (auto simp: nth_upd_at)
next
  case (child t i k cur d fs cw)
  then show ?thesis using assms by simp
qed

definition sim_poor :: "sim kenv" where
  "sim_poor = sim_env\<lparr>e_copyuvm := (\<lambda>d n x. (0, x))\<rparr>"

theorem fork_failure_keeps_table_witness:
  "fst (fork sim_poor 0 sim_run) = - 1 \<and>
   p_state (ptable (snd (fork sim_poor 0 sim_run)) ! 0) = RUNNING \<and>
   p_state (ptable (snd (fork sim_poor 0 sim_run)) ! 1) = UNUSED"
proof -
  have r: "fst (fork sim_poor 0 sim_run) = - 1" and n: "0 < nextpid sim_run" by code_simp+
  then have f: "fork sim_poor 0 sim_run = (- 1, snd (fork sim_poor 0 sim_run))" by (simp add: prod_eq_iff)
  have l: "length (ptable sim_run) = 3" "map p_state (ptable sim_run) = [RUNNING, UNUSED, UNUSED]" by code_simp+
  then have st: "p_state (ptable sim_run ! 0) = RUNNING" "p_state (ptable sim_run ! 1) = UNUSED"
    by (metis length_map nth_Cons_0 nth_map zero_less_numeral,
        metis One_nat_def length_map nth_Cons_0 nth_Cons_Suc nth_map one_less_numeral_iff semiring_norm(77))
  show ?thesis using fork_failure_keeps_table[OF f n] r l(1) st by auto
qed

section \<open>exit and wait\<close>

text \<open>
  C9. \<^verbatim>\<open>exit\<close>: the caller becomes a zombie with its files and directory released; every child it
  had gets the first process as parent; its parent, if asleep on its own address, becomes
  runnable, and so does the first process when it inherits a zombie; nothing else
  changes state.
\<close>

theorem exit_hands_over:
  assumes "exit E me s = Inr t" and "me < length (ptable s)" and "initproc s = Some r"
    and "p_parent (ptable s ! me) = Some q" and "q \<noteq> me"
  shows "p_state (ptable t ! me) = ZOMBIE \<and> (\<forall>f\<in>set (p_ofile (ptable t ! me)). f = 0) \<and> p_cwd (ptable t ! me) = 0 \<and>
    p_parent (ptable t ! me) = Some q \<and>
    (\<forall>i<length (ptable s). p_parent (ptable t ! i) =
       (if p_parent (ptable s ! i) = Some me then Some r else p_parent (ptable s ! i))) \<and>
    (\<forall>i<length (ptable s). i \<noteq> me \<longrightarrow> p_state (ptable t ! i) =
       (if p_state (ptable s ! i) = SLEEPING \<and>
          (p_chan (ptable s ! i) = Some (ChProc q) \<or>
           (\<exists>j<length (ptable s). p_parent (ptable s ! j) = Some me \<and> p_state (ptable s ! j) = ZOMBIE) \<and>
           p_chan (ptable s ! i) = Some (ChProc r))
        then RUNNABLE else p_state (ptable s ! i)))"
  using exitedD(4-6)[OF exit_exited[OF assms]] exitedD(8,9)[OF exit_exited[OF assms]] assms(2,4,5)
  unfolding zombie_child_def by auto

text \<open>A machine whose child runs while the first process waits, and what its \<^verbatim>\<open>exit\<close> leaves.\<close>

definition sim_child :: "sim kstate" where
  "sim_child = snd (scheduler sim_env 0 True sim_wait)"

definition sim_exit :: "sim kstate" where
  "sim_exit = (case exit sim_env 1 (forkret sim_env sim_child) of Inr s \<Rightarrow> s | Inl _ \<Rightarrow> sim_child)"

lemma sim_exit_ok: "exit sim_env 1 (forkret sim_env sim_child) = Inr sim_exit"
proof -
  have "\<not> isl (exit sim_env 1 (forkret sim_env sim_child))" by code_simp
  then show ?thesis by (cases "exit sim_env 1 (forkret sim_env sim_child)") (auto simp: sim_exit_def)
qed

theorem exit_hands_over_witness:
  "p_state (ptable sim_exit ! 1) = ZOMBIE \<and> p_parent (ptable sim_exit ! 1) = Some 0 \<and>
   map p_state (ptable sim_exit) = [RUNNABLE, ZOMBIE, UNUSED]"
proof -
  have h: "1 < length (ptable (forkret sim_env sim_child))" "initproc (forkret sim_env sim_child) = Some 0"
    "p_parent (ptable (forkret sim_env sim_child) ! 1) = Some 0" by code_simp+
  have "map p_state (ptable sim_exit) = [RUNNABLE, ZOMBIE, UNUSED]" by code_simp
  then show ?thesis using exit_hands_over[OF sim_exit_ok h] by auto
qed

text \<open>The children of a process, those of them that are zombies, and when \<^verbatim>\<open>sched\<close> does not panic.\<close>

definition kids :: "'x kstate \<Rightarrow> nat \<Rightarrow> nat list" where
  "kids s me = filter (\<lambda>i. p_parent (ptable s ! i) = Some me) [0..<length (ptable s)]"

definition zombie_kids :: "'x kstate \<Rightarrow> nat \<Rightarrow> nat list" where
  "zombie_kids s me = filter (\<lambda>i. p_state (ptable s ! i) = ZOMBIE) (kids s me)"

definition may_sched :: "'x kenv \<Rightarrow> 'x \<Rightarrow> bool" where
  "may_sched E x \<longleftrightarrow> e_holding E PtableLock x \<and> e_ncli E x = 1 \<and> and (e_readeflags E x) (e_FL_IF E) = 0"

lemma find_idx_filter: "find_idx P xs = (case filter (\<lambda>i. P (xs ! i)) [0..<length xs] of [] \<Rightarrow> None | i # _ \<Rightarrow> Some i)"
proof (cases "filter (\<lambda>i. P (xs ! i)) [0..<length xs]")
  case Nil
  then show ?thesis by (auto simp: table_simps filter_empty_conv)
next
  case (Cons i js)
  have "sorted (i # js)" unfolding Cons[symmetric] by (intro sorted_wrt_filter) simp
  then have ge: "j \<in> set (i # js) \<Longrightarrow> i \<le> j" for j by auto
  have mem: "j \<in> set (i # js) \<longleftrightarrow> j < length xs \<and> P (xs ! j)" for j unfolding Cons[symmetric] by auto
  have i: "i < length xs" "P (xs ! i)" using mem[of i] by simp_all
  have "\<not> P (xs ! j)" if "j < i" for j
    using mem[of j] ge[of j] that i(1) by linarith
  then have "find_idx P xs = Some i" using i by (simp add: table_simps)
  then show ?thesis by (simp add: Cons)
qed

lemma wait_scan_kids:
  "wait_scan me (ptable s) = (kids s me \<noteq> [], case zombie_kids s me of [] \<Rightarrow> None | i # _ \<Rightarrow> Some i)"
proof -
  have "zombie_kids s me =
      filter (\<lambda>i. p_parent (ptable s ! i) = Some me \<and> p_state (ptable s ! i) = ZOMBIE) [0..<length (ptable s)]"
    by (simp add: zombie_kids_def kids_def conj_commute)
  moreover have "(\<exists>p\<in>set (ptable s). p_parent p = Some me) = (kids s me \<noteq> [])"
    by (force simp: kids_def filter_empty_conv in_set_conv_nth)
  ultimately show ?thesis by (simp add: wait_scan_spec find_idx_filter)
qed

text \<open>
  C10. \<^verbatim>\<open>wait\<close> on each of its branches: with a zombie child it returns the pid of the first one and
  frees exactly that slot; without zombie children it returns -1 and leaves the table
  alone when there are no children or the caller was killed; otherwise, with the lock
  state \<^verbatim>\<open>sched\<close> demands, it goes to sleep on its own address and is the only process
  whose slot changes.
\<close>

theorem wait_outcomes:
  assumes "me < length (ptable s)"
  shows "case zombie_kids s me of
      i # _ \<Rightarrow> (\<exists>t. wait E me s = Inr (WReturn (p_pid (ptable s ! i)), t) \<and> ptable t = upd_at i reaped (ptable s))
    | [] \<Rightarrow>
       if kids s me = [] \<or> p_killed (ptable s ! me) \<noteq> 0
       then \<exists>t. wait E me s = Inr (WReturn (- 1), t) \<and> ptable t = ptable s
       else may_sched E (e_acquire E PtableLock (ext s)) \<longrightarrow>
         (\<exists>t. wait E me s = Inr (WSleep, t) \<and> p_state (ptable t ! me) = SLEEPING \<and>
            p_chan (ptable t ! me) = Some (ChProc me) \<and> p_kcont (ptable t ! me) = KWait \<and>
            (\<forall>i<length (ptable s). i \<noteq> me \<longrightarrow> ptable t ! i = ptable s ! i))"
proof (cases "zombie_kids s me")
  case (Cons i js)
  then have "find_idx (\<lambda>p. p_parent p = Some me \<and> p_state p = ZOMBIE) (ptable (acquire E PtableLock s)) = Some i"
    using wait_scan_kids[of me s] by (simp add: wait_scan_spec)
  from wait_turn_reap[OF this, of E] show ?thesis by (simp add: wait_def Cons)
next
  case Nil
  then show ?thesis
    using assms wait_scan_kids[of me s]
    by (auto simp: wait_def wait_turn_def sleep_def sched_def may_sched_def table_simps)
qed

definition sim_dead :: "sim kstate" where
  "sim_dead = scheduler_return sim_env 0 sim_exit"

theorem wait_outcomes_witness:
  "zombie_kids sim_dead 0 = [1] \<and> (\<exists>t. wait sim_env 0 sim_dead = Inr (WReturn 2, t))"
proof -
  have l: "0 < length (ptable sim_dead)" and z: "zombie_kids sim_dead 0 = [1]"
    and p: "p_pid (ptable sim_dead ! 1) = 2" by code_simp+
  show ?thesis using wait_outcomes[OF l, of sim_env] z p by auto
qed

text \<open>
  \<^verbatim>\<open>exit\<close> followed by the parent's \<^verbatim>\<open>wait\<close>: if the parent had no zombie child before and does not
  inherit one, \<^verbatim>\<open>wait\<close> returns the pid the process had and leaves its slot unused with a
  cleared pid and parent.
\<close>

theorem exit_then_wait:
  assumes "exit E me s = Inr t" and "me < length (ptable s)" and "initproc s = Some r"
    and "p_parent (ptable s ! me) = Some q" and "q \<noteq> me"
    and "zombie_kids s q = []" and "q = r \<Longrightarrow> zombie_kids s me = []" and "ptable u = ptable t"
  shows "\<exists>v. wait E q u = Inr (WReturn (p_pid (ptable s ! me)), v) \<and>
    p_state (ptable v ! me) = UNUSED \<and> p_pid (ptable v ! me) = 0 \<and> p_parent (ptable v ! me) = None \<and>
    (\<forall>i<length (ptable s). i \<noteq> me \<longrightarrow> ptable v ! i = ptable t ! i)"
proof -
  note ex = exitedD[OF exit_exited[OF assms(1-5)]]
  have none: "p_parent (ptable s ! i) = Some q \<Longrightarrow> p_state (ptable s ! i) \<noteq> ZOMBIE"
    "q = r \<Longrightarrow> p_parent (ptable s ! i) = Some me \<Longrightarrow> p_state (ptable s ! i) \<noteq> ZOMBIE"
    if "i < length (ptable s)" for i
    using assms(6,7) that by (auto simp: zombie_kids_def kids_def filter_empty_conv)
  have other: "\<not> (p_parent (ptable t ! i) = Some q \<and> p_state (ptable t ! i) = ZOMBIE)" if "i < me" for i
    using ex(8,9)[of i] none[of i] that assms(2) by (auto split: if_splits)
  have self: "p_parent (ptable t ! me) = Some q" using ex(8)[of me] assms(2,4,5) by simp
  have idx: "find_idx (\<lambda>p. p_parent p = Some q \<and> p_state p = ZOMBIE) (ptable (acquire E PtableLock u)) = Some me"
    unfolding find_idx_Some using ex(1,4) self other assms(2,8) by auto
  show ?thesis
    using wait_turn_reap[OF idx, of E] ex(1) ex(7)[of me] assms(2,8) by (simp add: wait_def nth_upd_at)
qed

theorem exit_then_wait_witness:
  "\<exists>v. wait sim_env 0 sim_dead = Inr (WReturn 2, v) \<and> p_state (ptable v ! 1) = UNUSED"
proof -
  let ?s = "forkret sim_env sim_child"
  have h: "1 < length (ptable ?s)" "initproc ?s = Some 0" "p_parent (ptable ?s ! 1) = Some 0" by code_simp+
  have z: "zombie_kids ?s 0 = []" "zombie_kids ?s 1 = []" "p_pid (ptable ?s ! 1) = 2" by code_simp+
  have d: "ptable sim_dead = ptable sim_exit" by (simp add: sim_dead_def)
  show ?thesis using exit_then_wait[OF sim_exit_ok h _ z(1) _ d] z by auto
qed

end
