(* ===== verification/Sched_Props.thy ===== *)
theory Sched_Props
  imports Kernel_Props Lottery
begin

text \<open>
  Properties of the lottery scheduler of \<^verbatim>\<open>src/hw3/proc.c\<close>, of \<^verbatim>\<open>kill\<close> and of the kernel
  stack that \<^verbatim>\<open>allocproc\<close> lays out.
\<close>

section \<open>The lottery\<close>

text \<open>
  The number an iteration draws: \<^verbatim>\<open>random_at_most\<close> of the number of tickets, called with the table lock held and
  interrupts enabled before, after a halt if nothing was found the last time.
\<close>

definition drawn :: "'x kenv \<Rightarrow> bool \<Rightarrow> 'x kstate \<Rightarrow> int" where
  "drawn E foundproc s = fst (e_random_at_most E (total_tickets (ptable s))
     (e_acquire E PtableLock (if foundproc then e_sti E (ext s) else e_hlt E (e_sti E (ext s)))))"

text \<open>
  C11. When some process is runnable, the ticket counts are in range and \<^verbatim>\<open>random_at_most\<close> returns a
  number between zero and its argument, an iteration of the scheduler dispatches exactly
  the process whose tickets contain the number that \<^verbatim>\<open>random_at_most\<close> returned for the number of
  tickets: that slot becomes running and current on this processor, and no other slot changes.
\<close>

theorem scheduler_dispatches:
  assumes "\<And>n x. 0 \<le> n \<Longrightarrow> 0 \<le> fst (e_random_at_most E n x) \<and> fst (e_random_at_most E n x) \<le> n"
    and "tickets_ok (ptable s)" and "\<exists>p\<in>set (ptable s). p_state p = RUNNABLE"
  shows "\<exists>i s'. scheduler E c f s = (Some i, s') \<and> i < length (ptable s) \<and>
    draw (drawn E f s) 0 (ptable s) = Some i \<and> drawn E f s \<le> tickets_before (ptable s) (Suc i) \<and>
    (first_runnable (ptable s) = Some i \<or> tickets_before (ptable s) i < drawn E f s) \<and>
    p_state (ptable s ! i) = RUNNABLE \<and> ptable s' = upd_at i (\<lambda>p. p\<lparr>p_state := RUNNING\<rparr>) (ptable s) \<and>
    cpu_proc s' = (cpu_proc s)(c := Some i)"
proof -
  define x where "x = e_acquire E PtableLock (if f then e_sti E (ext s) else e_hlt E (e_sti E (ext s)))"
  obtain r x2 where r: "e_random_at_most E (total_tickets (ptable s)) x = (r, x2)" by fastforce
  then have dr: "drawn E f s = r" by (simp add: drawn_def x_def)
  note nn = total_tickets_nonneg[OF assms(2)]
  have bounds: "0 \<le> r" "r \<le> total_tickets (ptable s)" using assms(1)[OF nn, of x] r by simp_all
  then have w: "swrap r = r"
    using assms(2) by (intro swrap_id) (auto simp: tickets_ok_def in_int_def INT_MIN_def INT_MAX_def)
  obtain i where d: "draw r 0 (ptable s) = Some i" using draw_selects[OF assms(2,3) bounds(2)] by auto
  note i = draw_runnable[OF d]
  have "\<exists>s'. scheduler E c f s = (Some i, s') \<and> ptable s' = upd_at i (\<lambda>p. p\<lparr>p_state := RUNNING\<rparr>) (ptable s) \<and>
    cpu_proc s' = (cpu_proc s)(c := Some i)"
    using r w d count_tickets_total[OF assms(2)]
    by (auto simp: scheduler_def x_def acquire_def Let_def split: prod.splits if_splits)
  then show ?thesis using bounds d i draw_interval[OF assms(2), of i r] unfolding dr by blast
qed

text \<open>The two children of the lottery test in the simulated machine, when the generator returns 81.\<close>

definition lot_env :: "sim kenv" where
  "lot_env = sim_env\<lparr>e_random_at_most := (\<lambda>n x. (min n 81, x))\<rparr>"

definition lot_pair :: "proc list" where
  "lot_pair = [sim_free\<lparr>p_state := RUNNABLE, p_tickets := 80\<rparr>, sim_free\<lparr>p_state := RUNNABLE, p_tickets := 20\<rparr>]"

definition lot_state :: "sim kstate" where
  "lot_state = sim_boot\<lparr>ptable := lot_pair\<rparr>"

theorem scheduler_dispatches_witness:
  "\<exists>s'. scheduler lot_env 0 True lot_state = (Some 1, s') \<and> drawn lot_env True lot_state = 81 \<and>
     p_state (ptable s' ! 1) = RUNNING"
proof -
  have gen: "\<And>n x. 0 \<le> n \<Longrightarrow> 0 \<le> fst (e_random_at_most lot_env n x) \<and> fst (e_random_at_most lot_env n x) \<le> n"
    by (simp add: lot_env_def)
  have ok: "tickets_ok (ptable lot_state)" and run: "\<exists>p\<in>set (ptable lot_state). p_state p = RUNNABLE" by code_simp+
  have d: "drawn lot_env True lot_state = 81" "draw 81 0 (ptable lot_state) = Some 1" "length (ptable lot_state) = 2" by code_simp+
  show ?thesis
    using scheduler_dispatches[OF gen ok run, of 0 True] d by (auto simp: table_simps)
qed

text \<open>
  C12. The share of each process: of the numbers from zero to the number of tickets, both
  included, a runnable process is selected by as many as it has tickets; the first
  runnable one by one more.
\<close>

theorem lottery_share:
  assumes "tickets_ok ps" and "i < length ps" and "p_state (ps ! i) = RUNNABLE"
  shows "int (card {w. 0 \<le> w \<and> w \<le> count_tickets 0 ps \<and> draw w 0 ps = Some i}) =
    p_tickets (ps ! i) + (if first_runnable ps = Some i then 1 else 0)"
  using assms by (rule draw_card)

text \<open>The two processes of \<^verbatim>\<open>lotterytest\<close>: 80 tickets and 20.\<close>

theorem lottery_share_witness:
  "int (card {w. 0 \<le> w \<and> w \<le> count_tickets 0 lot_pair \<and> draw w 0 lot_pair = Some 0}) = 81 \<and>
   int (card {w. 0 \<le> w \<and> w \<le> count_tickets 0 lot_pair \<and> draw w 0 lot_pair = Some 1}) = 20"
proof -
  have ok: "tickets_ok lot_pair" by code_simp
  have h: "0 < length lot_pair" "1 < length lot_pair" "p_state (lot_pair ! 0) = RUNNABLE"
    "p_state (lot_pair ! 1) = RUNNABLE" "p_tickets (lot_pair ! 0) = 80" "p_tickets (lot_pair ! 1) = 20"
    "first_runnable lot_pair = Some 0" by code_simp+
  show ?thesis using lottery_share[OF ok h(1,3)] lottery_share[OF ok h(2,4)] h(5-7) by simp
qed


section \<open>Pids and kill\<close>

text \<open>
  C16. In a reachable state \<^verbatim>\<open>kill\<close> on the pid of a used slot returns 0, marks exactly that process,
  makes it runnable if it slept, and changes nothing else: no other slot, free slots with
  stale pids included, carries the same pid.
\<close>

theorem kill_exact:
  assumes "kinit E z0" and "(kstep E)\<^sup>*\<^sup>* z0 (s, fk)" and "i < length (ptable s)"
    and "p_state (ptable s ! i) \<noteq> UNUSED"
  shows "fst (kill E (p_pid (ptable s ! i)) s) = 0 \<and>
    ptable (snd (kill E (p_pid (ptable s ! i)) s)) =
      (ptable s)[i := (ptable s ! i)\<lparr>p_killed := 1,
         p_state := (if p_state (ptable s ! i) = SLEEPING then RUNNABLE else p_state (ptable s ! i))\<rparr>]"
proof -
  have inv: "conf_inv (s, fk)" by (rule kern.reachable_inv[OF assms(1,2)])
  then have u: "pid_unique s" by (simp add: conf_inv_def)
  have "p_pid (ptable s ! j) \<noteq> p_pid (ptable s ! i)" if "j < i" for j
    using pid_uniqueD(2)[OF u assms(3), of j] assms(3) that used_pid_pos[OF inv assms(3,4)] by auto
  then have "find_idx (\<lambda>p. p_pid p = p_pid (ptable s ! i)) (ptable s) = Some i"
    using assms(3) by (auto simp: table_simps)
  from kill_found[OF this, of E] show ?thesis using assms(3) by (simp add: upd_at_def)
qed

theorem kill_exact_witness:
  "fst (kill sim_env 1 sim_wait) = 0 \<and> p_killed (ptable (snd (kill sim_env 1 sim_wait)) ! 0) = 1 \<and>
   p_state (ptable (snd (kill sim_env 1 sim_wait)) ! 0) = RUNNABLE"
proof -
  have h: "0 < length (ptable sim_wait)" "p_state (ptable sim_wait ! 0) = SLEEPING"
    "p_pid (ptable sim_wait ! 0) = 1" by code_simp+
  then show ?thesis using kill_exact[OF sim_init sim_reach_wait h(1)] by simp
qed

text \<open>
  C17. \<^verbatim>\<open>kill\<close> does not look at the state of the slot: when the first slot with the given pid is
  unused (pid 0 always names the reaped and never used slots) it still returns 0 and marks
  the slot, and a \<^verbatim>\<open>fork\<close> that takes the slot next produces a child that is already killed.
\<close>

theorem kill_unused_poisons:
  assumes "find_idx (\<lambda>p. p_pid p = n) (ptable s) = Some i"
    and "find_idx (\<lambda>p. p_state p = UNUSED) (ptable s) = Some i"
    and "fork E me (snd (kill E n s)) = (r, t)" and "r \<noteq> - 1"
  shows "fst (kill E n s) = 0 \<and> p_state (ptable t ! i) = RUNNABLE \<and> p_pid (ptable t ! i) = r \<and> p_killed (ptable t ! i) = 1"
proof -
  let ?s = "snd (kill E n s)"
  note k = kill_found[OF assms(1), of E]
  have il: "i < length (ptable s)" using assms(1) by (rule find_idx_SomeD)
  have fr: "find_idx (\<lambda>p. p_state p = UNUSED) (ptable ?s) = Some i"
    using assms(2) il by (auto simp: k table_simps)
  have kd: "p_killed (ptable ?s ! i) = 1" "length (ptable ?s) = length (ptable s)"
    using il by (simp_all add: k table_simps)
  show ?thesis
  proof (cases rule: fork_cases[of E me ?s])
    case (child t' j kk cur d fs cw)
    then have "j = i" using fr by simp
    then show ?thesis using child assms(3) k kd il by (simp add: table_simps)
  qed (use assms(3,4) in simp_all)
qed

theorem kill_unused_poisons_witness:
  "fst (kill sim_env 0 sim_run) = 0 \<and> p_killed (ptable (snd (fork sim_env 0 (snd (kill sim_env 0 sim_run)))) ! 1) = 1"
proof -
  have h: "find_idx (\<lambda>p. p_pid p = 0) (ptable sim_run) = Some 1"
    "find_idx (\<lambda>p. p_state p = UNUSED) (ptable sim_run) = Some 1"
    and r: "fst (fork sim_env 0 (snd (kill sim_env 0 sim_run))) = 2" by code_simp+
  have f: "fork sim_env 0 (snd (kill sim_env 0 sim_run)) = (2, snd (fork sim_env 0 (snd (kill sim_env 0 sim_run))))"
    using r by (simp add: prod_eq_iff)
  show ?thesis using kill_unused_poisons[OF h f] by simp
qed


section \<open>Tickets outside the intended range\<close>

lemma draw_positive:
  assumes "draw w c ps = Some i" and "c < w" and "\<bar>c\<bar> + 16777216 * int (length ps) \<le> INT_MAX"
    and "\<forall>p\<in>set ps. p_state p = RUNNABLE \<longrightarrow> \<bar>p_tickets p\<bar> \<le> 16777216"
  shows "0 < p_tickets (ps ! i)"
  using assms
proof (induction ps arbitrary: c i)
  case Nil
  then show ?case by simp
next
  case (Cons p ps)
  show ?case
  proof (cases "p_state p = RUNNABLE")
    case False
    then obtain j where "i = Suc j" "draw w c ps = Some j" using Cons.prems(1) by auto
    then show ?thesis using Cons.IH[of c j] Cons.prems by simp
  next
    case True
    then have b: "\<bar>p_tickets p\<bar> \<le> 16777216" using Cons.prems(4) by simp
    then have wr: "swrap (c + p_tickets p) = c + p_tickets p"
      using Cons.prems(3) by (intro swrap_id) (auto simp: in_int_def INT_MIN_def INT_MAX_def)
    show ?thesis
    proof (cases "c + p_tickets p < w")
      case less: True
      then obtain j where "i = Suc j" "draw w (c + p_tickets p) ps = Some j"
        using Cons.prems(1) True wr by (auto simp: Let_def)
      then show ?thesis using Cons.IH[of "c + p_tickets p" j] Cons.prems(3,4) less b by simp
    next
      case False
      then have "i = 0" using Cons.prems(1) True wr by (simp add: Let_def)
      then show ?thesis using False Cons.prems(2) by simp
    qed
  qed
qed

text \<open>
  C18. Starvation: \<^verbatim>\<open>sys_settickets\<close> stores any argument. A process that sets its tickets to zero or a
  negative number and then yields is runnable, but no positive number selects it, in
  a table of at most 64 slots with ticket counts of at most 2^24 in absolute value.
\<close>

theorem nonpositive_starves:
  assumes "length (ptable s) \<le> 64" and "\<forall>p\<in>set (ptable s). p_state p = RUNNABLE \<longrightarrow> \<bar>p_tickets p\<bar> \<le> 16777216"
    and "argint (umem E s me) (ptable s ! me) 0 = Some n" and "\<bar>n\<bar> \<le> 16777216" and "n \<le> 0"
    and "me < length (ptable s)" and "sys_settickets E me s = Inr (r, t)" and "yield E me t = Inr u" and "0 < w"
  shows "r = WReturn n \<and> p_tickets (ptable u ! me) = n \<and> p_state (ptable u ! me) = RUNNABLE \<and>
    draw w 0 (ptable u) \<noteq> Some me"
proof -
  from yield_Inr[OF assms(8)] obtain ie c where
    u: "ptable u = upd_at me (parked RUNNABLE KYield ie c) (ptable t)" by blast
  have t: "ptable t = upd_at me (\<lambda>p. p\<lparr>p_tickets := n\<rparr>) (ptable s)" "r = WReturn n"
    using assms(3,6,7) by (auto simp: sys_settickets_def ret_def table_simps)
  have slot: "ptable u ! i = (if i = me then parked RUNNABLE KYield ie c ((ptable s ! i)\<lparr>p_tickets := n\<rparr>) else ptable s ! i)"
    if "i < length (ptable s)" for i
    using that by (simp add: u t table_simps)
  have me: "p_tickets (ptable u ! me) = n" "p_state (ptable u ! me) = RUNNABLE" using slot[OF assms(6)] by simp_all
  have len: "length (ptable u) = length (ptable s)" by (simp add: u t)
  have b: "\<forall>p\<in>set (ptable u). p_state p = RUNNABLE \<longrightarrow> \<bar>p_tickets p\<bar> \<le> 16777216"
    using slot len assms(2,4) by (auto simp: all_set_conv_all_nth)
  have "draw w 0 (ptable u) \<noteq> Some me"
    using draw_positive[OF _ assms(9) _ b] me(1) assms(1,5) len by (force simp: INT_MAX_def)
  then show ?thesis using t(2) me by blast
qed

text \<open>A process that asks for no tickets while another one has twenty.\<close>

definition sim_greedy :: "sim kstate" where
  "sim_greedy = sim_run\<lparr>ptable := [(sim_free\<lparr>p_state := RUNNABLE, p_tickets := 20\<rparr>),
     (sim_free\<lparr>p_state := RUNNING, p_sz := 4096, p_tickets := 20\<rparr>)]\<rparr>"

definition sim_generous :: "sim kstate" where
  "sim_generous = (case sys_settickets sim_env 1 sim_greedy of Inr (_, t) \<Rightarrow> t | Inl _ \<Rightarrow> sim_greedy)"

theorem nonpositive_starves_witness:
  "\<exists>u. yield sim_env 1 sim_generous = Inr u \<and> p_state (ptable u ! 1) = RUNNABLE \<and> draw 15 0 (ptable u) \<noteq> Some 1"
proof -
  have h: "length (ptable sim_greedy) \<le> 64" "1 < length (ptable sim_greedy)"
    "list_all (\<lambda>p. p_state p = RUNNABLE \<longrightarrow> \<bar>p_tickets p\<bar> \<le> 16777216) (ptable sim_greedy)"
    "argint (umem sim_env sim_greedy 1) (ptable sim_greedy ! 1) 0 = Some 0" by code_simp+
  have "returned (sys_settickets sim_env 1 sim_greedy)" by code_simp
  then obtain r where r: "sys_settickets sim_env 1 sim_greedy = Inr (r, sim_generous)"
    by (auto simp: returned_iff sim_generous_def)
  have "\<not> isl (yield sim_env 1 sim_generous)" by code_simp
  then obtain u where u: "yield sim_env 1 sim_generous = Inr u" by (cases "yield sim_env 1 sim_generous") auto
  have "p_state (ptable u ! 1) = RUNNABLE \<and> draw 15 0 (ptable u) \<noteq> Some 1"
    using nonpositive_starves[OF h(1) _ h(4) _ _ h(2) r u, of 15] h(3) by (simp add: list_all_iff)
  then show ?thesis using u by blast
qed

section \<open>The kernel stack\<close>

text \<open>
  The kernel stack of a new process: when the page does not wrap around the address space and
  has room, the trap frame ends at the top of the stack, the return slot holding
  \<^verbatim>\<open>trapret\<close> is directly below it, the saved context with \<^verbatim>\<open>forkret\<close> as its instruction
  pointer directly below that, and all of them lie inside the page.
\<close>

theorem kstack_layout:
  assumes "uint k + uint (e_KSTACKSIZE E) < 2 ^ 32" and "uint (e_sizeof_tf E) + 24 \<le> uint (e_KSTACKSIZE E)"
  shows "let q = setup_kstack E k p in
    uint (p_tfaddr q) + uint (e_sizeof_tf E) = uint k + uint (e_KSTACKSIZE E) \<and>
    uint (fst (p_retslot q)) + 4 = uint (p_tfaddr q) \<and> snd (p_retslot q) = e_trapret E \<and>
    uint (p_ctxaddr q) + 20 = uint (fst (p_retslot q)) \<and> uint k \<le> uint (p_ctxaddr q) \<and>
    c_eip (p_context q) = e_forkret E \<and> p_kstack q = k \<and> p_kcont q = KForkret"
proof -
  have sub: "uint (a - b) = uint a - uint b" if "uint b \<le> uint a" for a b :: u32
    using that uint_sub_lem by blast
  have add: "uint (k + e_KSTACKSIZE E) = uint k + uint (e_KSTACKSIZE E)"
    using assms(1) by (simp add: uint_add_lem[THEN iffD1])
  have nn: "0 \<le> uint k" "0 \<le> uint (e_sizeof_tf E)" "uint (4 :: u32) = 4" "uint (20 :: u32) = 20" by simp_all
  define sp1 where "sp1 = k + e_KSTACKSIZE E - e_sizeof_tf E"
  define sp2 where "sp2 = sp1 - 4"
  define sp3 where "sp3 = sp2 - 20"
  have s1: "uint sp1 = uint k + uint (e_KSTACKSIZE E) - uint (e_sizeof_tf E)"
    unfolding sp1_def using add assms(2) nn by (subst sub) linarith+
  have s2: "uint sp2 = uint sp1 - 4" unfolding sp2_def using s1 assms(2) nn by (subst sub) linarith+
  have s3: "uint sp3 = uint sp2 - 20" unfolding sp3_def using s1 s2 assms(2) nn by (subst sub) linarith+
  have q: "setup_kstack E k p = p\<lparr>p_kstack := k, p_tfaddr := sp1, p_retslot := (sp2, e_trapret E), p_ctxaddr := sp3,
      p_context := \<lparr>c_edi = 0, c_esi = 0, c_ebx = 0, c_ebp = 0, c_eip = e_forkret E\<rparr>, p_kcont := KForkret\<rparr>"
    unfolding setup_kstack_def Let_def sp1_def sp2_def sp3_def by (rule refl)
  show ?thesis using s1 s2 s3 assms(2) by (simp add: q)
qed

theorem kstack_layout_witness:
  "uint (p_tfaddr (setup_kstack sim_env 8192 sim_free)) = 12212 \<and>
   uint (p_ctxaddr (setup_kstack sim_env 8192 sim_free)) = 12188"
proof -
  have h: "uint (8192 :: u32) + uint (e_KSTACKSIZE sim_env) < 2 ^ 32"
    "uint (e_sizeof_tf sim_env) + 24 \<le> uint (e_KSTACKSIZE sim_env)"
    "uint (e_sizeof_tf sim_env) = 76" "uint (e_KSTACKSIZE sim_env) = 4096" by (simp_all add: sim_env_def)
  show ?thesis using kstack_layout[OF h(1,2), of sim_free] h(3,4) by (simp add: Let_def)
qed

end
