(* ===== verification/Lifecycle.thy ===== *)
theory Lifecycle
  imports Sched_Props
begin

text \<open>
  The life of a process as an abstract specification, and the refinement: seen through the
  states and pids of its slots, the kernel of \<open>Kernel\<close> only makes the steps of \<open>life_step\<close>.
  A slot is taken with the next pid, published or given back, a process runs, sleeps and is
  woken, it dies only while it runs, and a dead process can only be freed.
\<close>

section \<open>The specification\<close>

type_synonym task = "procstate \<times> int"

text \<open>
  One step that is not part of a \<^verbatim>\<open>fork\<close>: every slot makes one of the moves of \<open>op_moves\<close> and keeps
  its pid while it is used; at most one process dies.
\<close>

definition task_moves :: "task list \<Rightarrow> task list \<Rightarrow> bool" where
  "task_moves xs ys \<longleftrightarrow>
     list_all2 (\<lambda>(a, n) (b, m). op_moves a b \<and> (m = n \<or> b = UNUSED \<and> m = 0)) xs ys \<and>
     (\<exists>d. \<forall>i<length xs. fst (ys ! i) = ZOMBIE \<longrightarrow> fst (xs ! i) = ZOMBIE \<or> i = d)"

text \<open>The slots and the next pid.\<close>

inductive life_step :: "task list \<times> int \<Rightarrow> task list \<times> int \<Rightarrow> bool" where
  take: "i < length xs \<Longrightarrow> fst (xs ! i) = UNUSED \<Longrightarrow> life_step (xs, np) (xs[i := (EMBRYO, np)], np + 1)"
| waste: "i < length xs \<Longrightarrow> fst (xs ! i) = UNUSED \<Longrightarrow> life_step (xs, np) (xs[i := (UNUSED, np)], np + 1)"
| publish: "i < length xs \<Longrightarrow> xs ! i = (EMBRYO, n) \<Longrightarrow> life_step (xs, np) (xs[i := (RUNNABLE, n)], np)"
| give_back: "i < length xs \<Longrightarrow> xs ! i = (EMBRYO, n) \<Longrightarrow> life_step (xs, np) (xs[i := (UNUSED, n)], np)"
| move: "task_moves xs ys \<Longrightarrow> life_step (xs, np) (ys, np)"

definition task :: "proc \<Rightarrow> task" where
  "task p = (p_state p, p_pid p)"

definition tasks :: "'x kstate \<Rightarrow> task list" where
  "tasks s = map task (ptable s)"

lemma length_tasks [simp]: "length (tasks s) = length (ptable s)"
  by (simp add: tasks_def)

lemma nth_tasks [simp]: "i < length (ptable s) \<Longrightarrow> tasks s ! i = task (the_proc s i)"
  by (simp add: tasks_def)

lemma task_sel [simp]: "fst (task p) = p_state p" "snd (task p) = p_pid p"
  by (simp_all add: task_def)

text \<open>
  A fact of the specification: a used slot with a pid handed out before a run began was used then, by
  the same process, and if that was dead it still is.
\<close>

lemma life_history:
  assumes "life_step\<^sup>*\<^sup>* (xs, np) (ys, nq)"
  shows "length ys = length xs \<and> np \<le> nq \<and> (\<forall>i<length xs. fst (ys ! i) \<noteq> UNUSED \<longrightarrow> snd (ys ! i) < np \<longrightarrow>
    fst (xs ! i) \<noteq> UNUSED \<and> snd (xs ! i) = snd (ys ! i) \<and> (fst (xs ! i) = ZOMBIE \<longrightarrow> fst (ys ! i) = ZOMBIE))"
  using assms
proof (induction "(ys, nq)" arbitrary: ys nq rule: rtranclp_induct)
  case base
  then show ?case by simp
next
  case (step y)
  obtain zs nz where y: "y = (zs, nz)" by (cases y)
  note ih = step.hyps(3)[OF y] and st = step.hyps(2)[unfolded y]
  from st show ?case
  proof cases
    case move
    have "fst (zs ! i) \<noteq> UNUSED \<and> snd (zs ! i) = snd (ys ! i) \<and> (fst (zs ! i) = ZOMBIE \<longrightarrow> fst (ys ! i) = ZOMBIE)"
      if i: "i < length zs" "fst (ys ! i) \<noteq> UNUSED" for i
    proof -
      obtain a n b m where ab: "zs ! i = (a, n)" "ys ! i = (b, m)" by fastforce
      have "op_moves a b" "m = n"
        using move(2) i unfolding task_moves_def by (auto simp: list_all2_conv_all_nth ab dest!: spec[of _ i])
      then show ?thesis using i(2) by (cases a) (simp_all add: ab)
    qed
    moreover have "length ys = length zs" using move(2) by (auto simp: task_moves_def dest: list_all2_lengthD)
    ultimately show ?thesis using ih move(1) by fastforce
  qed (use ih in \<open>auto simp: nth_list_update\<close>)
qed

section \<open>Refinement\<close>

lemma tasks_upd:
  assumes "i < length (ptable s)" and "ptable t = upd_at i f (ptable s)"
  shows "tasks t = (tasks s)[i := task (f (the_proc s i))]"
  using assms by (simp add: tasks_def upd_at_def map_update)

lemma table_move_tasks:
  assumes "table_move a s t"
  shows "task_moves (tasks s) (tasks t)"
proof -
  have slot: "slot_move (a = Some i) (the_proc s i) (the_proc t i)" if "i < length (ptable s)" for i
    using assms that by (simp add: table_move_def)
  have len: "length (ptable t) = length (ptable s)" using assms by (simp add: table_move_def)
  have "list_all2 (\<lambda>(a, n) (b, m). op_moves a b \<and> (m = n \<or> b = UNUSED \<and> m = 0)) (tasks s) (tasks t)"
    using slot by (simp add: list_all2_conv_all_nth len task_def slot_move_def)
  moreover have "\<forall>i<length (tasks s). fst (tasks t ! i) = ZOMBIE \<longrightarrow> fst (tasks s ! i) = ZOMBIE \<or> i = the a"
  proof (intro allI impI)
    fix i assume "i < length (tasks s)" "fst (tasks t ! i) = ZOMBIE"
    then show "fst (tasks s ! i) = ZOMBIE \<or> i = the a" using slot[of i] by (auto simp: len slot_move_def)
  qed
  ultimately show ?thesis unfolding task_moves_def by blast
qed

lemma alloc_life:
  assumes "kinv s" and "nextpid s < INT_MAX" and "allocproc E s = (r, t)"
  shows "(tasks t, nextpid t) = (tasks s, nextpid s) \<or> life_step (tasks s, nextpid s) (tasks t, nextpid t)"
proof (cases rule: allocproc_cases[of s E])
  case full
  then show ?thesis using assms(3) by (auto simp: tasks_def)
next
  case (nomem i x)
  have i: "i < length (ptable s)" "p_state (the_proc s i) = UNUSED" using nomem(1) by (simp_all add: table_simps)
  have "tasks t = (tasks s)[i := (UNUSED, nextpid s)]"
    using tasks_upd[OF i(1), of t "embryo_lost (nextpid s)"] nomem(2) assms(3) by (auto simp: task_def embryo_lost_def)
  moreover have "nextpid t = nextpid s + 1" using nomem(2) assms(3) nextpid_wrap[OF assms(1,2)] by auto
  ultimately show ?thesis using i waste[of i "tasks s" "nextpid s"] by simp
next
  case (found i k x)
  have i: "i < length (ptable s)" "p_state (the_proc s i) = UNUSED" using found(1) by (simp_all add: table_simps)
  have "tasks t = (tasks s)[i := (EMBRYO, nextpid s)]"
    using tasks_upd[OF i(1), of t "embryo E (nextpid s) k"] found(3) assms(3) by (auto simp: task_def)
  moreover have "nextpid t = nextpid s + 1" using found(3) assms(3) nextpid_wrap[OF assms(1,2)] by auto
  ultimately show ?thesis using i take[of i "tasks s" "nextpid s"] by simp
qed

lemma rest_life:
  assumes "np < length (ptable s)" and "p_state (the_proc s np) = EMBRYO"
  shows "life_step (tasks s, nextpid s) (tasks (snd (fork_rest E me np s)), nextpid (snd (fork_rest E me np s)))"
proof -
  have e: "np < length (tasks s)" "tasks s ! np = (EMBRYO, p_pid (the_proc s np))"
    using assms by (simp_all add: task_def)
  from assms(1) show ?thesis
  proof (cases rule: fork_rest_cases[of np s E me])
    case (nocopy t)
    then show ?thesis using give_back[OF e] tasks_upd[OF assms(1) nocopy(2)] by (simp add: task_def)
  next
    case (child t d fs cw)
    then show ?thesis using publish[OF e] tasks_upd[OF assms(1) child(2)] by (simp add: task_def)
  qed
qed

definition life_of :: "'x kconf \<Rightarrow> task list \<times> int" where
  "life_of z = (tasks (fst z), nextpid (fst z))"

lemma fork_step_life:
  assumes inv: "conf_inv z" and st: "fork_step E me r z z'"
  shows "life_of z' = life_of z \<or> life_step (life_of z) (life_of z')"
  using st
proof (cases rule: fork_step.cases)
  case (f_rest s c fk np v s')
  have f: "fork_inv (s, fk)" using inv f_rest by (simp add: conf_inv_def)
  show ?thesis
    using rest_life[OF fork_invD(4)[OF f f_rest(5)] fork_invD(5)[OF f f_rest(5)], of E me] f_rest(2,3,6) by (simp add: life_of_def)
qed (use inv alloc_life in \<open>auto simp: life_of_def conf_inv_def\<close>)

lemma kstep_life:
  assumes inv: "conf_inv z" and st: "kstep E z z'"
  shows "life_of z' = life_of z \<or> life_step (life_of z) (life_of z')"
  using st
proof (cases rule: kstep.cases)
  case (k_fork me r)
  show ?thesis by (rule fork_step_life[OF inv k_fork])
next
  case (k_other a s s' fk)
  have "kinv s" using inv k_other(1) by (simp add: conf_inv_def)
  then have mv: "table_move a s s'" using k_other(3) by (rule ostep_move)
  then have "nextpid s' = nextpid s" by (simp add: table_move_def)
  then show ?thesis using move[OF table_move_tasks[OF mv], of "nextpid s"] k_other(1,2) by (simp add: life_of_def)
qed

interpretation kern_life: simulation "kinit E" "kstep E" conf_inv life_of life_step for E :: "'x kenv"
  by unfold_locales (rule kstep_life)

text \<open>
  C5. The kernel implements the life cycle of processes: seen through the states and pids of the
  slots, every run from a reachable configuration is a run of the specification. So a pid
  names one process for ever: a process in a slot whose pid was handed out before the run
  was in that slot already, and if it was dead it still is.
\<close>

theorem lifecycle_refinement:
  assumes "kinit E z0" and "(kstep E)\<^sup>*\<^sup>* z0 (s, fk)" and "(kstep E)\<^sup>*\<^sup>* (s, fk) (t, fk')"
  shows "life_step\<^sup>*\<^sup>* (tasks s, nextpid s) (tasks t, nextpid t) \<and>
    (\<forall>i<length (ptable s). p_state (ptable t ! i) \<noteq> UNUSED \<longrightarrow> p_pid (ptable t ! i) < nextpid s \<longrightarrow>
       p_state (ptable s ! i) \<noteq> UNUSED \<and> p_pid (ptable s ! i) = p_pid (ptable t ! i) \<and>
       (p_state (ptable s ! i) = ZOMBIE \<longrightarrow> p_state (ptable t ! i) = ZOMBIE))"
proof -
  have run: "life_step\<^sup>*\<^sup>* (tasks s, nextpid s) (tasks t, nextpid t)"
    using kern_life.run_sim[OF assms(3) kern.reachable_inv[OF assms(1,2)]] by (simp add: life_of_def)
  note h = life_history[OF run]
  then have "length (ptable t) = length (ptable s)" by simp
  then show ?thesis using run h by (simp cong: imp_cong)
qed

text \<open>The child of the simulated machine runs and exits; then its parent reaps it.\<close>

definition sim_reap :: "nat option \<times> sim kstate" where
  "sim_reap = scheduler sim_env 0 True sim_dead"

definition sim_freed :: "sim kstate" where
  "sim_freed = (case resume sim_env 0 (snd sim_reap) of Inr (_, t) \<Rightarrow> t | Inl _ \<Rightarrow> snd sim_reap)"

lemma sim_child_step: "kstep sim_env (sim_wait, Map.empty) (forkret sim_env sim_child, Map.empty)"
proof -
  have "fst (scheduler sim_env 0 True sim_wait) = Some 1" by code_simp
  then have s1: "scheduler sim_env 0 True sim_wait = (Some 1, sim_child)"
    by (simp add: sim_child_def prod_eq_iff)
  have "p_kcont (ptable sim_child ! 1) = KForkret" by code_simp
  then have r: "resume sim_env 1 sim_child = Inr (WReturn 0, forkret sim_env sim_child)"
    by (simp add: resume_def ret_def)
  have "cpu_proc sim_wait 0 = None" by code_simp
  then show ?thesis using s1 r by (rule quiet_step[OF o_dispatch])
qed

lemma sim_exit_step: "kstep sim_env (forkret sim_env sim_child, Map.empty) (sim_dead, Map.empty)"
proof -
  have "cpu_proc (forkret sim_env sim_child) 0 = Some 1" by code_simp
  then show ?thesis unfolding sim_dead_def using sim_exit_ok by (rule quiet_step[OF o_exit])
qed

lemma sim_freed_step: "kstep sim_env (sim_dead, Map.empty) (sim_freed, Map.empty)"
proof -
  have "fst sim_reap = Some 0" by code_simp
  then have s1: "scheduler sim_env 0 True sim_dead = (Some 0, snd sim_reap)"
    by (simp add: sim_reap_def prod_eq_iff)
  have "returned (resume sim_env 0 (snd sim_reap))" by code_simp
  then obtain r where r: "resume sim_env 0 (snd sim_reap) = Inr (WReturn r, sim_freed)"
    by (auto simp: returned_iff sim_freed_def)
  have "cpu_proc sim_dead 0 = None" by code_simp
  then show ?thesis using s1 r by (rule quiet_step[OF o_dispatch])
qed

theorem lifecycle_refinement_witness:
  "life_step\<^sup>*\<^sup>* ([(RUNNABLE, 1), (ZOMBIE, 2), (UNUSED, 0)], 3) ([(RUNNING, 1), (UNUSED, 0), (UNUSED, 0)], 3)"
proof -
  have r: "(kstep sim_env)\<^sup>*\<^sup>* (sim_boot, Map.empty) (sim_dead, Map.empty)"
    using sim_reach_wait sim_child_step sim_exit_step by (meson rtranclp.rtrancl_into_rtrancl)
  have t: "tasks sim_dead = [(RUNNABLE, 1), (ZOMBIE, 2), (UNUSED, 0)]" "nextpid sim_dead = 3"
    "tasks sim_freed = [(RUNNING, 1), (UNUSED, 0), (UNUSED, 0)]" "nextpid sim_freed = 3" by code_simp+
  show ?thesis using lifecycle_refinement[OF sim_init r r_into_rtranclp[of "kstep sim_env", OF sim_freed_step]] t by simp
qed

end
