(* ===== verification/Wakeup.thy ===== *)
theory Wakeup
  imports Lifecycle
begin

text \<open>
  The wakeup that \<^verbatim>\<open>exit\<close> sends to a parent asleep in \<^verbatim>\<open>wait\<close> (\<^verbatim>\<open>src/hw3/proc.c\<close>), followed through
  every interleaving: the parent stays runnable and the dead child stays in the table, whatever
  the other processes and processors do, until the scheduler dispatches the parent, and then
  \<^verbatim>\<open>wait\<close> returns a dead child.
\<close>

section \<open>Who frees a dead process\<close>

lemma runs_on_frees:
  assumes "runs_on me s t" and "i < length (ptable s)" and "p_state (the_proc s i) = ZOMBIE"
    and "p_state (the_proc s me) = RUNNING" and "p_state (the_proc t i) = UNUSED"
  shows "p_parent (the_proc s i) = Some me" and "p_state (the_proc t me) = RUNNING"
proof -
  have ne: "i \<noteq> me" using assms(3,4) by auto
  then have "p_parent (the_proc s i) = Some me \<and> p_state (the_proc t me) = p_state (the_proc s me)"
    using assms unfolding runs_on_def by (metis procstate.distinct(9))
  then show "p_parent (the_proc s i) = Some me" "p_state (the_proc t me) = RUNNING" using assms(4) by simp_all
qed

text \<open>A dispatched process that frees a child runs on.\<close>

lemma dispatch_frees:
  assumes sc: "scheduler E c f s = (Some j, s1)" and res: "resume E j s1 = Inr (r, t)"
    and i: "i < length (ptable s)" "p_state (the_proc s i) = ZOMBIE" "p_state (the_proc t i) = UNUSED"
  shows "p_parent (the_proc s i) = Some j \<and> p_state (the_proc t j) = RUNNING"
proof -
  note eff = scheduler_Some[OF sc]
  have j: "j < length (ptable s)" "p_state (the_proc s j) = RUNNABLE" using eff(1) draw_runnable by blast+
  have same: "the_proc s1 i = the_proc s i" using i(1,2) j by (auto simp: eff(2) table_simps)
  have len: "length (ptable s1) = length (ptable s)" by (simp add: eff(2))
  have run: "p_state (the_proc s1 j) = RUNNING" using j(1) by (simp add: eff(2) table_simps)
  have "runs_on j s1 t" using res by (rule runs_on_resume) (simp_all add: run len j(1))
  then show ?thesis using runs_on_frees[of j s1 t i] i run by (simp add: len same)
qed

text \<open>Only its parent frees a dead process, and it does so while it runs.\<close>

lemma ostep_frees:
  assumes k: "kinv s" and st: "ostep E a s t" and i: "i < length (ptable s)" "p_state (the_proc s i) = ZOMBIE"
    and par: "p_parent (the_proc s i) = Some q" and free: "p_state (the_proc t i) = UNUSED"
  shows "p_state (the_proc s q) = RUNNING \<or> p_state (the_proc t q) = RUNNING"
proof -
  have cur: "me < length (ptable s)" "p_state (the_proc s me) = RUNNING" if "cpu_proc s c = Some me" for c me
    using kinv_current[OF k that] by simp_all
  have wait: "p_state (the_proc s q) = RUNNING"
    if "cpu_proc s c = Some me" "wait E me s = Inr (r, u)" "p_state (the_proc u i) = UNUSED" for c me r u
  proof -
    have "runs_on me s u"
      using runs_on_wait[of E me "acquire E PtableLock s" r u] cur[OF that(1)] that(2) by (simp add: wait_def runs_on_def)
    then show ?thesis using runs_on_frees(1)[of me s u i] i that(3) cur(2)[OF that(1)] par by simp
  qed
  from st show ?thesis
  proof (cases rule: ostep.cases)
    case (o_exit c me u)
    then have "i \<noteq> me" using cur(2)[OF o_exit(3)] i(2) by auto
    then show ?thesis using exit_Inr(6)[OF o_exit(4) cur(1)[OF o_exit(3)] i(1)] i free o_exit(2)
      by (auto simp: adopted_def Let_def p_state_wake_one split: if_splits)
  next
    case (o_growproc c me n)
    then show ?thesis using growproc_table[of E me n s] i free by (auto simp: table_simps split: if_splits)
  next
    case (o_settickets c me r)
    then show ?thesis
      using i free by (auto simp: sys_settickets_def ret_def Let_def table_simps split: option.splits if_splits)
  next
    case (o_yield c me u)
    from o_yield(4) obtain ie r where "ptable u = upd_at me (parked RUNNABLE KYield ie r) (ptable s)" by (rule yield_Inr)
    then show ?thesis using i free o_yield(2) by (auto simp: table_simps split: if_splits)
  next
    case (o_kill n)
    then show ?thesis
      using i free by (cases "find_idx (\<lambda>p. p_pid p = n) (ptable s)") (auto simp: kill_def kill_found table_simps split: if_splits)
  next
    case (o_dispatch c f j s1 r)
    then show ?thesis using dispatch_frees[OF o_dispatch(3,4) i free] par by simp
  next
    case (o_dispatch_block c f j s1 u)
    then show ?thesis using dispatch_frees[OF o_dispatch_block(4,5) i] free par by simp
  next
    case (o_wait_return c me r)
    then show ?thesis using wait[OF _ _ free] by blast
  next
    case (o_wait_sleep c me u)
    then show ?thesis using wait[of c me WSleep u] free by simp
  next
    case (o_sleep c me k ch l u)
    then show ?thesis
      using runs_on_frees(1)[OF runs_on_sleep[OF o_sleep(6) cur(1)[OF o_sleep(3)]] i cur(2)[OF o_sleep(3)]] free
        cur(2)[OF o_sleep(3)] par by simp
  next
    case (o_idle c f)
    then show ?thesis using scheduler_None(1)[OF o_idle(3)] i free by simp
  qed (use i free in \<open>auto simp: wakeup_def p_state_wake_one table_simps split: if_splits\<close>)
qed

section \<open>A parent with a dead child\<close>

text \<open>The process in slot \<open>q\<close> is inside \<^verbatim>\<open>wait\<close>, off the processors, and its child in slot \<open>i\<close> with pid \<open>n\<close> is dead.\<close>

definition owed :: "nat \<Rightarrow> nat \<Rightarrow> int \<Rightarrow> 'x kstate \<Rightarrow> bool" where
  "owed q i n s \<longleftrightarrow> i < length (ptable s) \<and> p_state (the_proc s i) = ZOMBIE \<and> p_parent (the_proc s i) = Some q \<and>
     p_pid (the_proc s i) = n \<and> p_state (the_proc s q) \<noteq> RUNNING \<and> p_kcont (the_proc s q) = KWait"

lemma owed_runnable:
  assumes k: "kinv s" and o: "owed q i n s"
  shows "q < length (ptable s)" and "p_state (the_proc s q) = RUNNABLE"
proof -
  note d = o[unfolded owed_def]
  obtain r where r: "tree_root s r" using k by (auto simp: kinv_def tree_inv_def)
  have "i \<noteq> r" using tree_rootD(4)[OF r] d by auto
  moreover have "live (the_proc s i)" using d by (simp add: live_def)
  ultimately have q: "q < length (ptable s)" "active (the_proc s q)" using tree_rootD(6)[OF r, of i] d by auto
  have "p_state (the_proc s q) \<noteq> SLEEPING" using k q(1) d unfolding kinv_def sleep_inv_def by blast
  then show "q < length (ptable s)" "p_state (the_proc s q) = RUNNABLE" using q d by (simp_all add: active_def)
qed

text \<open>Nothing but a dispatch of the parent ends this.\<close>

lemma owed_ostep:
  assumes k: "kinv s" and k': "kinv t" and o: "owed q i n s" and st: "ostep E a s t"
    and off: "p_state (the_proc t q) \<noteq> RUNNING"
  shows "owed q i n t"
proof -
  note d = o[unfolded owed_def] and q = owed_runnable[OF k o] and mv = ostep_move[OF k st]
  have len: "length (ptable t) = length (ptable s)" using mv by (simp add: table_move_def)
  have run: "p_state (the_proc s me) = RUNNING" if "a = Some me" for me
    using st that kinv_current(2)[OF k] by (auto elim: ostep.cases)
  have a: "a \<noteq> Some q" "a \<noteq> Some i" using run d by auto
  have si: "slot_move False (the_proc s i) (the_proc t i)" by (rule table_move_other[OF mv a(2)]) (use d in simp)
  have sq: "slot_move False (the_proc s q) (the_proc t q)" by (rule table_move_other[OF mv a(1) q(1)])
  have "p_state (the_proc t i) \<noteq> UNUSED" using ostep_frees[OF k st, of i q] d off by blast
  then have z: "p_state (the_proc t i) = ZOMBIE" "p_pid (the_proc t i) = n" using si d by (auto simp: slot_move_def)
  have pm: "parent_move a (initproc s) (the_proc s i) (the_proc t i)" using mv d by (simp add: table_move_def)
  obtain r where r: "tree_root t r" using k' by (auto simp: kinv_def tree_inv_def)
  have "i \<noteq> r" using tree_rootD(3)[OF r] z(1) by (auto simp: active_def)
  then have "p_parent (the_proc t i) \<noteq> None" using tree_rootD(6)[OF r, of i] d z(1) by (auto simp: live_def len)
  then have par: "p_parent (the_proc t i) = Some q" using pm a(1) d by (auto simp: parent_move_def)
  have "p_kcont (the_proc t q) = KWait" using sq q(2) off d by (auto simp: slot_move_def)
  then show ?thesis using z par off d by (simp add: owed_def len)
qed

lemma owed_kstep:
  assumes inv: "conf_inv z" and o: "owed q i n (fst z)" and st: "kstep E z z'"
    and off: "p_state (the_proc (fst z') q) \<noteq> RUNNING"
  shows "owed q i n (fst z')"
  using st
proof (cases rule: kstep.cases)
  case (k_fork me r)
  obtain s fk s' fk' where z: "z = (s, fk)" "z' = (s', fk')" by (cases z; cases z')
  have k: "kinv s" using inv by (simp add: conf_inv_def z)
  note q = owed_runnable[OF k o[unfolded z fst_conv]]
  note fs = fork_step_live[OF inv[unfolded z(1)] k_fork[unfolded z]]
  have "the_proc s' i = the_proc s i" "the_proc s' q = the_proc s q"
    using fs[of i] fs[of q] q o by (simp_all add: z owed_def live_def active_def)
  then show ?thesis using o fs by (simp add: z owed_def)
next
  case (k_other a s s' fk)
  have "kinv s" "kinv s'" using inv kstep_inv[OF inv st] k_other by (simp_all add: conf_inv_def)
  then show ?thesis using owed_ostep[OF _ _ _ k_other(3)] o off k_other by simp
qed

text \<open>A dispatched parent returns from \<^verbatim>\<open>wait\<close> with a dead child.\<close>

lemma owed_dispatch:
  assumes o: "owed q i n s" and q: "q < length (ptable s)" and sc: "scheduler E c f s = (Some q, v)"
  shows "\<exists>j w. j < length (ptable s) \<and> p_parent (the_proc s j) = Some q \<and> p_state (the_proc s j) = ZOMBIE \<and>
    resume E q v = Inr (WReturn (p_pid (the_proc s j)), w) \<and> p_state (the_proc w j) = UNUSED"
proof -
  note d = o[unfolded owed_def] and eff = scheduler_Some[OF sc]
  let ?u = "sleep_resume E q PtableLock v"
  have nr: "p_state (the_proc s q) = RUNNABLE" using eff(1) draw_runnable by blast
  have tab: "ptable ?u = upd_at q (\<lambda>p. p\<lparr>p_chan := None\<rparr>) (ptable v)"
    by (simp add: sleep_resume_def Let_def)
  have slot: "p_parent (the_proc ?u j) = p_parent (the_proc s j)" "p_pid (the_proc ?u j) = p_pid (the_proc s j)"
    "p_state (the_proc ?u j) = (if j = q then RUNNING else p_state (the_proc s j))" if "j < length (ptable s)" for j
    using that q by (simp_all add: tab eff(2) table_simps)
  have len: "length (ptable ?u) = length (ptable s)" by (simp add: tab eff(2))
  have "i < length (ptable ?u)" "p_parent (the_proc ?u i) = Some q \<and> p_state (the_proc ?u i) = ZOMBIE"
    using d nr len slot[of i] by auto
  then have "find_idx (\<lambda>p. p_parent p = Some q \<and> p_state p = ZOMBIE) (ptable ?u) \<noteq> None"
    unfolding find_idx_None by blast
  then obtain j where j: "find_idx (\<lambda>p. p_parent p = Some q \<and> p_state p = ZOMBIE) (ptable ?u) = Some j" by blast
  note js = find_idx_SomeD(1,2)[OF j]
  have "p_kcont (the_proc v q) = KWait" using d q by (simp add: eff(2) table_simps)
  then have res: "resume E q v = wait_turn E q ?u" by (simp add: resume_def wait_resume_def)
  have jl: "j < length (ptable s)" using js(1) unfolding len .
  have z: "p_parent (the_proc s j) = Some q" "p_state (the_proc s j) = ZOMBIE"
    using js(2) unfolding slot[OF jl] by (auto split: if_splits)
  obtain w where w: "wait_turn E q ?u = Inr (WReturn (p_pid (the_proc ?u j)), w)" "ptable w = upd_at j reaped (ptable ?u)"
    using wait_turn_reap[OF j, of E] by simp
  have "p_state (the_proc w j) = UNUSED" using js(1) unfolding w(2) by (simp add: table_simps)
  then show ?thesis using jl z w(1)[folded res] unfolding slot(2)[OF jl] by blast
qed

section \<open>No lost wakeup\<close>

text \<open>
  C3. No wakeup is lost between \<^verbatim>\<open>exit\<close> and \<^verbatim>\<open>wait\<close>. When a process exits while its parent sleeps
  in \<^verbatim>\<open>wait\<close>, then after any further steps of the kernel, on all processors and for as long as
  the parent has not been dispatched, the parent is runnable, the dead child is still in the table, as its
  child and with its pid, and whenever the scheduler then dispatches the parent, \<^verbatim>\<open>wait\<close> returns the pid of a dead child, whose
  slot is free afterwards: it does not sleep again.
\<close>

theorem no_lost_wakeup:
  assumes "kinit E z0" and "(kstep E)\<^sup>*\<^sup>* z0 (s, fk)" and "cpu_proc s c = Some me" and "fk me = None"
    and "p_parent (ptable s ! me) = Some q" and "p_state (ptable s ! q) = SLEEPING"
    and "p_kcont (ptable s ! q) = KWait" and "exit E me s = Inr t"
    and "(\<lambda>z z'. kstep E z z' \<and> p_state (ptable (fst z') ! q) \<noteq> RUNNING)\<^sup>*\<^sup>* (scheduler_return E c t, fk) (u, fk')"
  shows "p_state (ptable u ! q) = RUNNABLE \<and> p_state (ptable u ! me) = ZOMBIE \<and> p_parent (ptable u ! me) = Some q \<and>
    p_pid (ptable u ! me) = p_pid (ptable s ! me) \<and>
    (\<forall>d f v. scheduler E d f u = (Some q, v) \<longrightarrow>
      (\<exists>j w. p_parent (ptable u ! j) = Some q \<and> p_state (ptable u ! j) = ZOMBIE \<and>
         resume E q v = Inr (WReturn (p_pid (ptable u ! j)), w) \<and> p_state (ptable w ! j) = UNUSED))"
proof -
  let ?n = "p_pid (ptable s ! me)"
  have inv: "conf_inv (s, fk)" by (rule kern.reachable_inv[OF assms(1,2)])
  then have k: "kinv s" by (simp add: conf_inv_def)
  note me = kinv_current[OF k assms(3)]
  obtain r where r: "tree_root s r" using k by (auto simp: kinv_def tree_inv_def)
  have q: "q < length (ptable s)" using r me assms(5) unfolding tree_root_def by (cases "me = r") (auto simp: live_def active_def)
  have qm: "q \<noteq> me" using me(2) assms(6) by auto
  note ex = exit_exited[OF assms(8) me(1) tree_rootD(2)[OF r] assms(5) qm]
  have "p_chan (ptable s ! q) = Some (ChProc q)" using k q assms(6,7) unfolding kinv_def sleep_inv_def by blast
  then have o: "owed q me ?n (scheduler_return E c t)"
    using exitedD(1,4)[OF ex] exitedD(7,8)[OF ex me(1)] exitedD(9,10)[OF ex q qm] me(1) assms(5-7) qm by (simp add: owed_def)
  have "kstep E (s, fk) (scheduler_return E c t, fk)" using o_exit[OF assms(3,8)] assms(4) by (auto intro: k_other)
  then have i0: "conf_inv (scheduler_return E c t, fk)" by (rule kstep_inv[OF inv])
  have "conf_inv (u, fk') \<and> owed q me ?n u"
    using assms(9)
  proof (induction "(u, fk')" arbitrary: u fk' rule: rtranclp_induct)
    case base
    then show ?case using i0 o by simp
  next
    case (step y)
    then show ?case using kstep_inv[of y E] owed_kstep[of y q me ?n E "(u, fk')"] by (cases y) auto
  qed
  then have u: "kinv u" "owed q me ?n u" by (simp_all add: conf_inv_def)
  note run = owed_runnable[OF u]
  show ?thesis using u(2) run owed_dispatch[OF u(2) run(1), of E] unfolding owed_def by blast
qed

text \<open>In the simulated machine a timer interrupt comes between the child's exit and the parent's dispatch.\<close>

theorem no_lost_wakeup_witness:
  "\<exists>u. u = wakeup sim_env (Some ChTicks) sim_dead \<and> p_state (ptable u ! 0) = RUNNABLE \<and>
     p_state (ptable u ! 1) = ZOMBIE \<and> fst (scheduler sim_env 0 True u) = Some 0 \<and>
     (\<exists>j w. p_parent (ptable u ! j) = Some 0 \<and>
        resume sim_env 0 (snd (scheduler sim_env 0 True u)) = Inr (WReturn (p_pid (ptable u ! j)), w) \<and>
        p_state (ptable w ! j) = UNUSED)"
proof -
  let ?s = "forkret sim_env sim_child" and ?u = "wakeup sim_env (Some ChTicks) sim_dead"
  let ?off = "\<lambda>z z'. kstep sim_env z z' \<and> p_state (ptable (fst z') ! 0) \<noteq> RUNNING"
  have r: "(kstep sim_env)\<^sup>*\<^sup>* (sim_boot, Map.empty) (?s, Map.empty)"
    using sim_reach_wait sim_child_step by (rule rtranclp.rtrancl_into_rtrancl)
  have h: "cpu_proc ?s 0 = Some 1" "p_parent (ptable ?s ! 1) = Some 0" "p_state (ptable ?s ! 0) = SLEEPING"
    "p_kcont (ptable ?s ! 0) = KWait" by code_simp+
  have "p_state (ptable ?u ! 0) \<noteq> RUNNING" by code_simp
  then have st: "?off (scheduler_return sim_env 0 sim_exit, Map.empty) (?u, Map.empty)"
    using quiet_step[OF o_wakeup, of sim_env sim_dead "Some ChTicks"] by (simp add: sim_dead_def)
  have d: "fst (scheduler sim_env 0 True ?u) = Some 0" by code_simp
  then have sc: "scheduler sim_env 0 True ?u = (Some 0, snd (scheduler sim_env 0 True ?u))" by (simp add: prod_eq_iff)
  have empty_fk: "(Map.empty :: nat \<rightharpoonup> nat) 1 = None" by simp
  note w = no_lost_wakeup[OF sim_init r h(1) empty_fk h(2-4) sim_exit_ok r_into_rtranclp[of ?off, OF st]]
  have x: "p_state (ptable ?u ! 0) = RUNNABLE" "p_state (ptable ?u ! 1) = ZOMBIE"
    "scheduler sim_env 0 True ?u = (Some 0, v) \<Longrightarrow> \<exists>j w. p_parent (ptable ?u ! j) = Some 0 \<and>
       p_state (ptable ?u ! j) = ZOMBIE \<and> resume sim_env 0 v = Inr (WReturn (p_pid (ptable ?u ! j)), w) \<and>
       p_state (ptable w ! j) = UNUSED" for v using w by blast+
  show ?thesis using x(1,2) d x(3)[OF sc] by blast
qed

end
