(* ===== verification/Syscall_Props.thy ===== *)
theory Syscall_Props
  imports Sched_Props
begin

text \<open>
  Properties of the system call layer: the range checks on user addresses of
  \<^verbatim>\<open>src/hw3/syscall.c\<close>, its dispatch, and the handlers of \<^verbatim>\<open>src/hw3/sysproc.c\<close>.
\<close>

section \<open>Arguments\<close>

lemma uint_bounded: "uint (a :: u32) < 2 ^ 32"
  using uint_lt2p[of a] by simp

lemma uint_add_int: "0 \<le> uint (a :: u32) + b \<Longrightarrow> uint a + b < 2 ^ 32 \<Longrightarrow> uint (a + word_of_int b) = uint a + b"
  by (simp add: uint_word_ariths uint_word_of_int take_bit_eq_mod mod_simps)

lemma uint_add_small: "uint (a :: u32) + b < 2 ^ 32 \<Longrightarrow> 0 \<le> b \<Longrightarrow> uint (a + word_of_int b) = uint a + b"
  by (rule uint_add_int) simp_all

text \<open>
  C19. For an address space that ends at least four bytes below 2^32, \<^verbatim>\<open>fetchint\<close> succeeds exactly when
  the four bytes lie inside it, although its check adds 4 with wrap-around, and what it
  returns depends on bytes inside the address space only.
\<close>

theorem fetchint_bounds:
  assumes "uint sz \<le> 2 ^ 32 - 4"
  shows "(fetchint mem sz addr = (if uint addr + 4 \<le> uint sz then Some (load_int mem addr) else None)) \<and>
    ((\<forall>a. uint a < uint sz \<longrightarrow> mem a = mem' a) \<longrightarrow> fetchint mem' sz addr = fetchint mem sz addr)"
proof -
  have plus: "uint (addr + 4) = uint addr + 4" if "uint addr < uint sz"
    using uint_add_small[of addr 4] that assms by simp
  have ok: "fetchint m sz addr = (if uint addr + 4 \<le> uint sz then Some (load_int m addr) else None)" for m
    using plus by (auto simp: fetchint_def word_le_def word_less_def)
  have "load_int mem' addr = load_int mem addr"
    if "uint addr + 4 \<le> uint sz" "\<forall>a. uint a < uint sz \<longrightarrow> mem a = mem' a"
  proof -
    have in_sz: "uint (addr + word_of_int k) < uint sz" if "0 \<le> k" "k < 4" for k
      using that \<open>uint addr + 4 \<le> uint sz\<close> assms uint_add_small[of addr k] by simp
    have eq: "mem' (addr + word_of_int k) = mem (addr + word_of_int k)" if "0 \<le> k" "k < 4" for k
      using in_sz[OF that] \<open>\<forall>a. uint a < uint sz \<longrightarrow> mem a = mem' a\<close> by simp
    show ?thesis using eq[of 0] eq[of 1] eq[of 2] eq[of 3] by (simp add: load_int_def)
  qed
  then show ?thesis unfolding ok by auto
qed

theorem fetchint_bounds_witness:
  "fetchint (\<lambda>a. if a = 8 then 5 else 0) 12 8 = Some 5 \<and> fetchint (\<lambda>a. 0) 12 9 = None"
proof -
  have h: "uint (12 :: u32) \<le> 2 ^ 32 - 4" by simp
  have v: "load_int (\<lambda>a. if a = 8 then 5 else 0) 8 = 5" by (simp add: load_int_def)
  show ?thesis
    using fetchint_bounds[OF h, of "\<lambda>a. if a = 8 then 5 else 0" 8 "\<lambda>a. 0"] v
      fetchint_bounds[OF h, of "\<lambda>a. 0" 9 "\<lambda>a. 0"] by simp
qed

lemma uint_neq_cases: "(a :: u32) = s \<or> uint a \<noteq> uint s"
  by (simp add: word_uint_eq_iff)

lemma str_scan_Some:
  "str_scan mem s ep = Some e \<Longrightarrow> uint s \<le> uint e \<and> uint e < uint ep \<and> mem e = 0 \<and>
     (\<forall>a. uint s \<le> uint a \<and> uint a < uint e \<longrightarrow> mem a \<noteq> 0)"
proof (induction mem s ep rule: str_scan.induct)
  case (1 mem s ep)
  then have lt: "s < ep" by (subst (asm) (2) str_scan.simps) (simp split: if_splits)
  show ?case
  proof (cases "mem s = 0")
    case True
    then show ?thesis using 1(2) lt by (subst (asm) str_scan.simps) (auto simp: word_less_def)
  next
    case False
    then have ih: "uint (s + 1) \<le> uint e \<and> uint e < uint ep \<and> mem e = 0 \<and>
      (\<forall>a. uint (s + 1) \<le> uint a \<and> uint a < uint e \<longrightarrow> mem a \<noteq> 0)"
      using 1 lt by (subst (asm) (2) str_scan.simps) simp
    have p1: "uint (s + 1) = uint s + 1"
      using uint_add_small[of s 1] lt uint_lt2p[of ep] by (simp add: word_less_def)
    have "mem a \<noteq> 0" if "uint s \<le> uint a" "uint a < uint e" for a
      using ih p1 that False uint_neq_cases[of a s] by auto
    then show ?thesis using ih p1 by auto
  qed
qed

lemma str_scan_None:
  "str_scan mem s ep = None \<Longrightarrow> uint s \<le> uint a \<Longrightarrow> uint a < uint ep \<Longrightarrow> mem a \<noteq> 0"
proof (induction mem s ep rule: str_scan.induct)
  case (1 mem s ep)
  then have lt: "s < ep" by (simp add: word_less_def)
  then have z: "mem s \<noteq> 0" "str_scan mem (s + 1) ep = None"
    using 1(2) by (subst (asm) str_scan.simps; simp split: if_splits)+
  have p1: "uint (s + 1) = uint s + 1"
    using uint_add_small[of s 1] lt uint_lt2p[of ep] by (simp add: word_less_def)
  show ?case using 1(1)[OF lt z] 1(3,4) p1 z(1) uint_neq_cases[of a s] by auto
qed

lemma sint_small: "uint (w :: u32) < 2 ^ 31 \<Longrightarrow> sint w = uint w"
  using order_trans[OF _ uint_ge_0[of w], of "- 2147483648"] by (simp add: sint_uint signed_take_bit_int_eq_self_iff)

text \<open>
  For an address space within the user half, \<^verbatim>\<open>fetchstr\<close> returns the string that starts at the
  address: its length is the distance to the first NUL, which lies inside the address
  space; it fails exactly when the rest of the address space holds no NUL.
\<close>

theorem fetchstr_correct:
  assumes "uint sz \<le> 2 ^ 31"
  shows "case fetchstr mem sz addr of
     Some (p, n) \<Rightarrow> p = addr \<and> 0 \<le> n \<and> uint addr + n < uint sz \<and> mem (addr + word_of_int n) = 0 \<and>
       (\<forall>k. 0 \<le> k \<and> k < n \<longrightarrow> mem (addr + word_of_int k) \<noteq> 0)
   | None \<Rightarrow> (\<forall>a. uint addr \<le> uint a \<and> uint a < uint sz \<longrightarrow> mem a \<noteq> 0)"
proof (cases "fetchstr mem sz addr")
  case None
  show ?thesis
  proof (cases "uint addr < uint sz")
    case True
    then have "str_scan mem addr sz = None" using None by (simp add: fetchstr_def word_le_def)
    then show ?thesis using str_scan_None None by auto
  qed (use None in auto)
next
  case (Some pn)
  then obtain e where e: "str_scan mem addr sz = Some e" and pn: "pn = (addr, sint (e - addr))"
    by (auto simp: fetchstr_def split: if_splits)
  note sc = str_scan_Some[OF e]
  have n: "uint (e - addr) = uint e - uint addr" using sc uint_sub_lem by blast
  have "uint (e - addr) < 2 ^ 31" using n sc assms uint_ge_0[of addr] by linarith
  then have sn: "sint (e - addr) = uint e - uint addr" using n by (simp only: sint_small)
  have small: "uint (addr + word_of_int k) = uint addr + k" if "0 \<le> k" "k \<le> uint e - uint addr" for k
    using that uint_lt2p[of e] by (intro uint_add_small) simp_all
  have end_eq: "addr + word_of_int (uint e - uint addr) = e" by (simp add: n[symmetric])
  show ?thesis unfolding Some pn prod.case option.case sn using sc small end_eq by auto
qed

theorem fetchstr_correct_witness:
  "fetchstr (\<lambda>a. if a = 6 then 0 else 7) 64 4 = Some (4, 2) \<and> uint (4 :: u32) + 2 < uint (64 :: u32)"
proof -
  have "fetchstr (\<lambda>a. if a = 6 then 0 else 7) 64 4 = Some (4, 2)" by (simp add: fetchstr_def str_scan.simps)
  then show ?thesis using fetchstr_correct[of 64 4 "\<lambda>a. if a = 6 then 0 else 7"] by simp
qed

lemma argptr_iff:
  "argptr mem p n len = Some a \<longleftrightarrow>
     (\<exists>i. argint mem p n = Some i \<and> a = word_of_int i \<and> uint a < uint (p_sz p) \<and>
        uint (a + word_of_int len) \<le> uint (p_sz p))"
  by (auto simp: argptr_def Let_def word_le_def word_less_def split: option.splits)

text \<open>
  For an address space within the user half and a block size that is not negative, a pointer
  accepted by \<^verbatim>\<open>argptr\<close> names a block that lies inside the address space.
\<close>

theorem argptr_safe:
  assumes "uint (p_sz p) \<le> 2 ^ 31" and "0 \<le> len" and "len \<le> INT_MAX" and "argptr mem p n len = Some a"
  shows "uint a < uint (p_sz p) \<and> uint a + len \<le> uint (p_sz p) \<and>
    (\<forall>k. 0 \<le> k \<and> k < len \<longrightarrow> uint (a + word_of_int k) < uint (p_sz p))"
proof -
  have a: "uint a < uint (p_sz p)" "uint (a + word_of_int len) \<le> uint (p_sz p)"
    using assms(4) by (auto simp: argptr_iff)
  have small: "uint (a + word_of_int k) = uint a + k" if "0 \<le> k" "k \<le> len" for k
    using that a(1) assms(1,3) by (intro uint_add_small) (simp_all add: INT_MAX_def)
  show ?thesis using a small assms(2) by force
qed

text \<open>A process whose stack holds the pointer 64.\<close>

definition ptr_proc :: proc where
  "ptr_proc = sim_free\<lparr>p_sz := 100\<rparr>"

definition ptr_mem :: "u32 \<Rightarrow> u8" where
  "ptr_mem a = (if a = 4 then 64 else 0)"

theorem argptr_safe_witness:
  "argptr ptr_mem ptr_proc 0 24 = Some 64 \<and> uint (64 :: u32) + 24 \<le> uint (p_sz ptr_proc)"
proof -
  have h: "uint (p_sz ptr_proc) \<le> 2 ^ 31" "(24 :: int) \<le> INT_MAX" "argptr ptr_mem ptr_proc 0 24 = Some 64"
    by code_simp+
  show ?thesis using argptr_safe[OF h(1) _ h(2,3)] h(3) by simp
qed

text \<open>
  \<^verbatim>\<open>argptr\<close> does not reject a negative size: any pointer inside the address space is accepted as
  long as the pointer plus the size does not fall below zero, so the check promises
  nothing about a size that is later used as an unsigned count.
\<close>

theorem argptr_negative_size:
  assumes "argint mem p n = Some i" and "uint (word_of_int i :: u32) < uint (p_sz p)"
    and "len < 0" and "0 \<le> uint (word_of_int i :: u32) + len"
  shows "argptr mem p n len = Some (word_of_int i)"
proof -
  have "uint (word_of_int i + word_of_int len :: u32) = uint (word_of_int i :: u32) + len"
    using assms(3,4) uint_bounded[of "word_of_int i :: u32"] by (intro uint_add_int) linarith+
  then show ?thesis using assms(1-3) by (simp only: argptr_iff) auto
qed

theorem argptr_negative_size_witness: "argptr ptr_mem ptr_proc 0 (- 1) = Some 64"
proof -
  have h: "argint ptr_mem ptr_proc 0 = Some 64" "uint (word_of_int 64 :: u32) < uint (p_sz ptr_proc)"
    "0 \<le> uint (word_of_int 64 :: u32) + (- 1)" by code_simp+
  show ?thesis using argptr_negative_size[OF h(1,2) _ h(3)] by simp
qed

section \<open>Dispatch\<close>

lemma lookup_syscall_iff: "lookup_syscall num = Some n \<longleftrightarrow> sysno_num n = num"
proof
  assume "sysno_num n = num"
  then show "lookup_syscall num = Some n" by (cases n) (auto simp: lookup_syscall_def syscalls_def)
next
  assume l: "lookup_syscall num = Some n"
  then have "nat num < 24" "0 < num" by (auto simp: lookup_syscall_def syscalls_def split: if_splits)
  then have "nat num \<in> {0..<24}" "num = int (nat num)" by simp_all
  moreover have "list_all (\<lambda>k. \<forall>m. syscalls ! k = Some m \<longrightarrow> sysno_num m = int k) [0..<24]"
    by (simp add: syscalls_def upt_rec numeral_2_eq_2)
  ultimately show "sysno_num n = num"
    using l by (auto simp: lookup_syscall_def list_all_iff split: if_splits)
qed

text \<open>
  Dispatch: a number of \<^verbatim>\<open>syscall.h\<close> in \<^verbatim>\<open>eax\<close> runs the handler of that number and its result goes to
  the caller's \<^verbatim>\<open>eax\<close>, touching nothing else of what the handler left; any other number
  is reported, changes nothing but \<^verbatim>\<open>eax\<close> and returns -1.
\<close>

theorem syscall_dispatch:
  assumes "me < length (ptable s)"
  shows "(\<forall>n r t. sint (tf_eax (p_tf (ptable s ! me))) = sysno_num n \<longrightarrow> run_handler E H n me s = Inr (WReturn r, t) \<longrightarrow>
       length (ptable t) = length (ptable s) \<longrightarrow>
       (\<exists>u. syscall E H me s = Inr (WReturn r, [], u) \<and>
          ptable u ! me = (ptable t ! me)\<lparr>p_tf := (p_tf (ptable t ! me))\<lparr>tf_eax := word_of_int r\<rparr>\<rparr> \<and>
          (\<forall>i<length (ptable s). i \<noteq> me \<longrightarrow> ptable u ! i = ptable t ! i) \<and> ext u = ext t)) \<and>
    ((\<forall>n. sint (tf_eax (p_tf (ptable s ! me))) \<noteq> sysno_num n) \<longrightarrow>
       (\<exists>msg u. syscall E H me s = Inr (WReturn (- 1), [msg], u) \<and>
          ptable u ! me = (ptable s ! me)\<lparr>p_tf := (p_tf (ptable s ! me))\<lparr>tf_eax := - 1\<rparr>\<rparr> \<and>
          (\<forall>i<length (ptable s). i \<noteq> me \<longrightarrow> ptable u ! i = ptable s ! i) \<and> ext u = ext s))"
proof (intro conjI allI impI)
  fix n r t
  assume h: "sint (tf_eax (p_tf (ptable s ! me))) = sysno_num n" "run_handler E H n me s = Inr (WReturn r, t)"
    "length (ptable t) = length (ptable s)"
  then have "lookup_syscall (sint (tf_eax (p_tf (ptable s ! me)))) = Some n" by (simp add: lookup_syscall_iff)
  then show "\<exists>u. syscall E H me s = Inr (WReturn r, [], u) \<and>
          ptable u ! me = (ptable t ! me)\<lparr>p_tf := (p_tf (ptable t ! me))\<lparr>tf_eax := word_of_int r\<rparr>\<rparr> \<and>
          (\<forall>i<length (ptable s). i \<noteq> me \<longrightarrow> ptable u ! i = ptable t ! i) \<and> ext u = ext t"
    using h assms by (simp add: syscall_def set_eax_def table_simps)
next
  assume h: "\<forall>n. sint (tf_eax (p_tf (ptable s ! me))) \<noteq> sysno_num n"
  then have "lookup_syscall (sint (tf_eax (p_tf (ptable s ! me)))) = None"
    by (metis lookup_syscall_iff not_None_eq)
  then show "\<exists>msg u. syscall E H me s = Inr (WReturn (- 1), [msg], u) \<and>
          ptable u ! me = (ptable s ! me)\<lparr>p_tf := (p_tf (ptable s ! me))\<lparr>tf_eax := - 1\<rparr>\<rparr> \<and>
          (\<forall>i<length (ptable s). i \<noteq> me \<longrightarrow> ptable u ! i = ptable s ! i) \<and> ext u = ext s"
    using assms by (simp add: syscall_def set_eax_def table_simps)
qed

definition sim_getpid :: "sim kstate" where
  "sim_getpid = upd_proc 0 (\<lambda>p. p\<lparr>p_tf := (p_tf p)\<lparr>tf_eax := 11\<rparr>\<rparr>) sim_run"

theorem syscall_dispatch_witness:
  "\<exists>u. syscall sim_env (\<lambda>n me s. ret (- 1, s)) 0 sim_getpid = Inr (WReturn 1, [], u) \<and>
     tf_eax (p_tf (ptable u ! 0)) = 1"
proof -
  have h: "0 < length (ptable sim_getpid)" "sint (tf_eax (p_tf (ptable sim_getpid ! 0))) = sysno_num SYS_getpid"
    "p_pid (ptable sim_getpid ! 0) = 1" by code_simp+
  have r: "run_handler sim_env (\<lambda>n me s. ret (- 1, s)) SYS_getpid 0 sim_getpid = Inr (WReturn 1, sim_getpid)"
    using h(3) by (simp add: sys_getpid_def ret_def)
  show ?thesis
    using conjunct1[OF syscall_dispatch[OF h(1), of sim_env "\<lambda>n me s. ret (- 1, s)"], rule_format, OF h(2) r] by auto
qed


section \<open>Handlers\<close>

text \<open>
  C21. A turn of \<^verbatim>\<open>sys_sleep\<close> compares the elapsed ticks with its argument as unsigned numbers: it
  returns 0 once the elapsed ticks reach the argument modulo 2^32, and until then fails
  for a killed process and otherwise sleeps on \<^verbatim>\<open>ticks\<close>. In particular a negative argument
  waits for more than two thousand million ticks.
\<close>

theorem sys_sleep_duration:
  assumes "in_int n" and "me < length (ptable s)"
    and "elapsed = uint (e_ticks E (ext s) - ticks0)"
  shows "(elapsed \<ge> n mod 2 ^ 32 \<longrightarrow> sys_sleep_turn E me ticks0 n s = Inr (WReturn 0, release E TicksLock s)) \<and>
    (elapsed < n mod 2 ^ 32 \<and> p_killed (ptable s ! me) \<noteq> 0 \<longrightarrow>
       sys_sleep_turn E me ticks0 n s = Inr (WReturn (- 1), release E TicksLock s)) \<and>
    (elapsed < n mod 2 ^ 32 \<and> p_killed (ptable s ! me) = 0 \<and>
       may_sched E (e_release E TicksLock (e_acquire E PtableLock (ext s))) \<longrightarrow>
       (\<exists>t. sys_sleep_turn E me ticks0 n s = Inr (WSleep, t) \<and> p_state (ptable t ! me) = SLEEPING \<and>
          p_chan (ptable t ! me) = Some ChTicks \<and> p_kcont (ptable t ! me) = KSysSleep ticks0 n)) \<and>
    (n < 0 \<longrightarrow> n mod 2 ^ 32 \<ge> 2 ^ 31)"
proof -
  have cmp: "e_ticks E (ext s) - ticks0 < word_of_int n \<longleftrightarrow> elapsed < n mod 2 ^ 32"
    by (simp add: word_less_def assms(3) uint_word_of_int take_bit_eq_mod)
  have neg: "n < 0 \<Longrightarrow> n mod 2 ^ 32 \<ge> 2 ^ 31"
  proof -
    assume n: "n < 0"
    have "n mod 2 ^ 32 = (n + 2 ^ 32) mod 2 ^ 32" by simp
    also have "\<dots> = n + 2 ^ 32"
      using n assms(1) by (intro mod_pos_pos_trivial) (simp_all add: in_int_def INT_MIN_def INT_MAX_def)
    finally show ?thesis using assms(1) by (simp add: in_int_def INT_MIN_def)
  qed
  show ?thesis
    using assms(2) neg
    by (auto simp: sys_sleep_turn_def cmp ret_def sleep_def sched_def may_sched_def table_simps)
qed

theorem sys_sleep_duration_witness:
  "(\<exists>t. sys_sleep_turn sim_env 0 0 (- 5) (acquire sim_env TicksLock sim_run) = Inr (WSleep, t)) \<and>
   sys_sleep_turn sim_env 0 0 0 (acquire sim_env TicksLock sim_run) =
     Inr (WReturn 0, release sim_env TicksLock (acquire sim_env TicksLock sim_run))"
proof -
  let ?s = "acquire sim_env TicksLock sim_run"
  have h: "in_int (- 5)" "in_int 0" "0 < length (ptable ?s)" "p_killed (ptable ?s ! 0) = 0"
    "uint (e_ticks sim_env (ext ?s) - 0) = 0"
    "may_sched sim_env (e_release sim_env TicksLock (e_acquire sim_env PtableLock (ext ?s)))" by code_simp+
  show ?thesis
    using sys_sleep_duration[OF h(1,3) h(5)[symmetric]] sys_sleep_duration[OF h(2,3) h(5)[symmetric]] h(4,6) by auto
qed

text \<open>
  C22. \<^verbatim>\<open>sbrk\<close>, with \<^verbatim>\<open>allocuvm\<close> returning the new size or 0 and \<^verbatim>\<open>deallocuvm\<close> the smaller of the two sizes:
  it either returns -1 and leaves the table alone, or returns the old size as an \<^verbatim>\<open>int\<close> and
  the size of the caller becomes the old one plus the argument (unchanged when a
  negative argument wraps below zero); no other process is affected. Releasing the whole
  address space counts as a failure.
\<close>

theorem sbrk_moves_break:
  assumes "\<And>d a b x. fst (e_allocuvm E d a b x) = b \<or> fst (e_allocuvm E d a b x) = 0"
    and "\<And>d a b x. fst (e_deallocuvm E d a b x) = min a b"
    and "argint (umem E s me) (ptable s ! me) 0 = Some n" and "me < length (ptable s)"
  shows "\<exists>r t. sys_sbrk E me s = Inr (WReturn r, t) \<and>
    (r = - 1 \<and> ptable t = ptable s \<and> n \<noteq> 0 \<or>
     r = sint (p_sz (ptable s ! me)) \<and>
     p_sz (ptable t ! me) = (if n < 0 then min (p_sz (ptable s ! me)) (p_sz (ptable s ! me) + word_of_int n)
                             else p_sz (ptable s ! me) + word_of_int n) \<and>
     (\<forall>i<length (ptable s). i \<noteq> me \<longrightarrow> ptable t ! i = ptable s ! i)) \<and>
    (n < 0 \<and> p_sz (ptable s ! me) + word_of_int n = 0 \<longrightarrow> r = - 1)"
proof -
  let ?p = "ptable s ! me"
  obtain sa xa where a: "e_allocuvm E (p_pgdir ?p) (p_sz ?p) (p_sz ?p + word_of_int n) (ext s) = (sa, xa)" by fastforce
  obtain sd xd where d: "e_deallocuvm E (p_pgdir ?p) (p_sz ?p) (p_sz ?p + word_of_int n) (ext s) = (sd, xd)" by fastforce
  have sa: "sa = p_sz ?p + word_of_int n \<or> sa = 0"
    using assms(1)[of "p_pgdir ?p" "p_sz ?p" "p_sz ?p + word_of_int n" "ext s"] a by simp
  have sd: "sd = min (p_sz ?p) (p_sz ?p + word_of_int n)"
    using assms(2)[of "p_pgdir ?p" "p_sz ?p" "p_sz ?p + word_of_int n" "ext s"] d by simp
  consider "n > 0" | "n < 0" | "n = 0" by linarith
  then show ?thesis
  proof cases
    case 1
    then show ?thesis using assms(3,4) a sa
      by (auto simp: sys_sbrk_def growproc_def ret_def Let_def table_simps split: prod.splits)
  next
    case 2
    then show ?thesis using assms(3,4) d sd
      by (auto simp: sys_sbrk_def growproc_def ret_def Let_def table_simps split: prod.splits)
  next
    case 3
    then show ?thesis using assms(3,4)
      by (auto simp: sys_sbrk_def growproc_def ret_def Let_def table_simps split: prod.splits)
  qed
qed

text \<open>A machine whose first process has the argument 64 on its stack.\<close>

definition sbrk_env :: "sim kenv" where
  "sbrk_env = sim_env\<lparr>e_umem := (\<lambda>d x. ptr_mem), e_deallocuvm := (\<lambda>d a b x. (min a b, x))\<rparr>"

definition sbrk_run :: "sim kstate" where
  "sbrk_run = upd_proc 0 (\<lambda>p. ptr_proc) sim_run"

theorem sbrk_moves_break_witness:
  "\<exists>r t. sys_sbrk sbrk_env 0 sbrk_run = Inr (WReturn r, t) \<and> (r = - 1 \<or> r = 100 \<and> p_sz (ptable t ! 0) = 164)"
proof -
  have h: "argint (umem sbrk_env sbrk_run 0) (ptable sbrk_run ! 0) 0 = Some 64" "0 < length (ptable sbrk_run)"
    "p_sz (ptable sbrk_run ! 0) = 100" by code_simp+
  have al: "fst (e_allocuvm sbrk_env d a b x) = b \<or> fst (e_allocuvm sbrk_env d a b x) = 0"
    "fst (e_deallocuvm sbrk_env d a b x) = min a b" for d a b x
    by (simp_all add: sbrk_env_def sim_env_def)
  show ?thesis using sbrk_moves_break[OF al h(1,2)] h(3) by auto
qed

end
