(* ===== verification/Syscall_Kernel.thy ===== *)
theory Syscall_Kernel
  imports Syscall_Props
begin

text \<open>
  The system call layer on top of the kernel: the contract of a handler (\<open>kernel_call\<close>) is that
  whatever it does for the running process is a run of the kernel of \<open>Kernel\<close>, and that it
  returns on the same processor. Every handler of \<^verbatim>\<open>src/hw3/sysproc.c\<close> fulfils it, so the
  invariant of the kernel carries over to \<^verbatim>\<open>syscall\<close>.
\<close>

section \<open>The contract of a handler\<close>

text \<open>The state after a handler: if it left the processor, the scheduler's iteration ends.\<close>

definition settled :: "'x kenv \<Rightarrow> nat \<Rightarrow> wait_result \<Rightarrow> 'x kstate \<Rightarrow> 'x kstate" where
  "settled E c r t = (case r of WReturn _ \<Rightarrow> t | WSleep \<Rightarrow> scheduler_return E c t)"

lemma settled_simps [simp]:
  "settled E c (WReturn v) t = t" "settled E c WSleep t = scheduler_return E c t"
  by (simp_all add: settled_def)

locale kernel_call =
  fixes E :: "'x kenv" and call :: "nat \<Rightarrow> 'x kstate \<Rightarrow> 'x sysresult"
  assumes run: "kinv s \<Longrightarrow> cpu_proc s c = Some me \<Longrightarrow> fk me = None \<Longrightarrow> nextpid s < INT_MAX \<Longrightarrow>
      call me s = Inr (r, t) \<Longrightarrow> (kstep E)\<^sup>*\<^sup>* (s, fk) (settled E c r t, fk)"
    and stays: "call me s = Inr (WReturn v, t) \<Longrightarrow> cpu_proc t = cpu_proc s"
begin

text \<open>The result goes to the saved registers of the caller.\<close>

lemma run_eax:
  assumes "kinv s" "cpu_proc s c = Some me" "fk me = None" "nextpid s < INT_MAX" "call me s = Inr (WReturn v, t)"
  shows "(kstep E)\<^sup>*\<^sup>* (s, fk) (set_eax me v t, fk)"
proof -
  let ?tf = "(p_tf (the_proc t me))\<lparr>tf_eax := word_of_int v\<rparr>"
  have "cpu_proc t c = Some me" using stays[OF assms(5)] assms(2) by simp
  then have "kstep E (t, fk) (upd_proc me (\<lambda>p. p\<lparr>p_tf := ?tf\<rparr>) t, fk)"
    by (rule k_other[OF o_user]) (use assms(3) in simp)
  moreover have "upd_proc me (\<lambda>p. p\<lparr>p_tf := ?tf\<rparr>) t = set_eax me v t"
    by (simp add: set_eax_def upd_at_def)
  ultimately show ?thesis using run[of s c me fk "WReturn v" t] assms by (auto intro: rtranclp.rtrancl_into_rtrancl)
qed

lemma keeps:
  assumes "conf_inv (s, fk)" "cpu_proc s c = Some me" "fk me = None" "nextpid s < INT_MAX" "call me s = Inr (r, t)"
  shows "conf_inv (settled E c r t, fk)"
proof -
  have "kinv s" using assms(1) by (simp add: conf_inv_def)
  then have "(kstep E)\<^sup>*\<^sup>* (s, fk) (settled E c r t, fk)" using assms by (intro run)
  then show ?thesis using assms(1) by (rule kern.run_inv)
qed

end

section \<open>The handlers fulfil it\<close>

lemma one_step:
  "ostep E (Some me) s t \<Longrightarrow> fk me = None \<Longrightarrow> (kstep E)\<^sup>*\<^sup>* (s, fk) (t, fk)"
  "ostep E None s t \<Longrightarrow> (kstep E)\<^sup>*\<^sup>* (s, fk) (t, fk)"
  by (auto intro!: r_into_rtranclp[of "kstep E"] k_other)

lemma external_step: "t = s\<lparr>ext := x\<rparr> \<Longrightarrow> (kstep E)\<^sup>*\<^sup>* (s, fk) (t, fk)"
  by (auto intro: o_external[THEN one_step(2)])

interpretation call_fork: kernel_call E "sys_fork E" for E :: "'x kenv"
proof unfold_locales
  fix s t :: "'x kstate" and me v
  assume "sys_fork E me s = Inr (WReturn v, t)"
  then show "cpu_proc t = cpu_proc s" by (cases rule: fork_cases[of E me s]) (simp_all add: sys_fork_def ret_def)
qed (auto simp: sys_fork_def ret_def intro: fork_undisturbed)

interpretation call_exit: kernel_call E "sys_exit E" for E :: "'x kenv"
  by unfold_locales (auto simp: sys_exit_def split: sum.splits intro: o_exit[THEN one_step(1)])

interpretation call_wait: kernel_call E "sys_wait E" for E :: "'x kenv"
proof unfold_locales
  fix s t :: "'x kstate" and c me r and fk :: "nat \<rightharpoonup> nat"
  assume "cpu_proc s c = Some me" "fk me = None" "sys_wait E me s = Inr (r, t)"
  then show "(kstep E)\<^sup>*\<^sup>* (s, fk) (settled E c r t, fk)"
    by (cases r) (auto simp: sys_wait_def intro: o_wait_return[THEN one_step(1)] o_wait_sleep[THEN one_step(1)])
next
  fix s t :: "'x kstate" and me v
  assume "sys_wait E me s = Inr (WReturn v, t)"
  then have "wait_turn E me (acquire E PtableLock s) = Inr (WReturn v, t)" by (simp add: sys_wait_def wait_def)
  then show "cpu_proc t = cpu_proc s" by (cases rule: wait_turn_cases) simp_all
qed

interpretation call_kill: kernel_call E "sys_kill E" for E :: "'x kenv"
proof unfold_locales
  fix s t :: "'x kstate" and me v
  assume "sys_kill E me s = Inr (WReturn v, t)"
  then show "cpu_proc t = cpu_proc s" by (auto simp: sys_kill_def ret_def kill_def Let_def split: option.splits)
qed (auto simp: sys_kill_def ret_def split: option.splits intro: o_kill[THEN one_step(2)])

interpretation call_getpid: kernel_call E sys_getpid for E :: "'x kenv"
  by unfold_locales (auto simp: sys_getpid_def ret_def)

interpretation call_sbrk: kernel_call E "sys_sbrk E" for E :: "'x kenv"
proof unfold_locales
  fix s t :: "'x kstate" and c me r and fk :: "nat \<rightharpoonup> nat"
  assume "cpu_proc s c = Some me" "fk me = None" and c: "sys_sbrk E me s = Inr (r, t)"
  moreover have "t = s \<or> (\<exists>n. t = snd (growproc E me n s))" and "\<exists>v. r = WReturn v"
    using c by (auto simp: sys_sbrk_def ret_def Let_def case_prod_unfold split: option.splits if_splits)
  ultimately show "(kstep E)\<^sup>*\<^sup>* (s, fk) (settled E c r t, fk)" by (auto intro: o_growproc[THEN one_step(1)])
next
  fix s t :: "'x kstate" and me v
  assume "sys_sbrk E me s = Inr (WReturn v, t)"
  then show "cpu_proc t = cpu_proc s"
    by (auto simp: sys_sbrk_def growproc_def ret_def Let_def split: option.splits prod.splits if_splits)
qed

lemma sleep_turn_run:
  assumes "cpu_proc s c = Some me" "fk me = None" "sys_sleep_turn E me t0 n s = Inr (r, t)"
  shows "(kstep E)\<^sup>*\<^sup>* (s, fk) (settled E c r t, fk)"
  using assms
  by (auto simp: sys_sleep_turn_def ret_def release_def split: if_splits sum.splits
      intro: external_step o_sleep[THEN one_step(1)])

interpretation call_sleep: kernel_call E "sys_sleep E" for E :: "'x kenv"
proof unfold_locales
  fix s t :: "'x kstate" and c me r and fk :: "nat \<rightharpoonup> nat"
  assume a: "cpu_proc s c = Some me" "fk me = None" "sys_sleep E me s = Inr (r, t)"
  show "(kstep E)\<^sup>*\<^sup>* (s, fk) (settled E c r t, fk)"
  proof (cases "argint (umem E s me) (the_proc s me) 0")
    case None
    then show ?thesis using a by (auto simp: sys_sleep_def ret_def)
  next
    case (Some n)
    let ?s = "acquire E TicksLock s"
    have "(kstep E)\<^sup>*\<^sup>* (?s, fk) (settled E c r t, fk)"
      by (rule sleep_turn_run) (use a Some in \<open>simp_all add: sys_sleep_def Let_def\<close>)
    moreover have "(kstep E)\<^sup>*\<^sup>* (s, fk) (?s, fk)" by (rule external_step) (simp add: acquire_def)
    ultimately show ?thesis by (meson rtranclp_trans)
  qed
next
  fix s t :: "'x kstate" and me v
  assume "sys_sleep E me s = Inr (WReturn v, t)"
  then show "cpu_proc t = cpu_proc s"
    by (auto simp: sys_sleep_def sys_sleep_turn_def ret_def Let_def split: option.splits if_splits sum.splits)
qed

interpretation call_uptime: kernel_call E "\<lambda>_. sys_uptime E" for E :: "'x kenv"
  by unfold_locales (auto simp: sys_uptime_def ret_def Let_def acquire_def release_def intro: external_step)

interpretation call_gettime: kernel_call E "sys_gettime E" for E :: "'x kenv"
  by unfold_locales (auto simp: sys_gettime_def ret_def split: option.splits intro: external_step)

interpretation call_settickets: kernel_call E "sys_settickets E" for E :: "'x kenv"
proof unfold_locales
  fix s t :: "'x kstate" and c me r and fk :: "nat \<rightharpoonup> nat"
  assume a: "cpu_proc s c = Some me" "fk me = None" "sys_settickets E me s = Inr (r, t)"
  then have "\<exists>v. r = WReturn v" by (auto simp: sys_settickets_def ret_def Let_def split: option.splits)
  then show "(kstep E)\<^sup>*\<^sup>* (s, fk) (settled E c r t, fk)" using a by (auto intro: o_settickets[THEN one_step(1)])
qed (auto simp: sys_settickets_def ret_def Let_def split: option.splits)

section \<open>The dispatch\<close>

text \<open>The calls whose handlers are in \<^verbatim>\<open>sysproc.c\<close>.\<close>

definition process_calls :: "sysno list" where
  "process_calls = [SYS_fork, SYS_exit, SYS_wait, SYS_kill, SYS_getpid, SYS_sbrk, SYS_sleep, SYS_uptime,
     SYS_gettime, SYS_settickets]"

lemma run_handler_own:
  "run_handler E H SYS_fork = sys_fork E" "run_handler E H SYS_exit = sys_exit E" "run_handler E H SYS_wait = sys_wait E"
  "run_handler E H SYS_kill = sys_kill E" "run_handler E H SYS_getpid = sys_getpid" "run_handler E H SYS_sbrk = sys_sbrk E"
  "run_handler E H SYS_sleep = sys_sleep E" "run_handler E H SYS_uptime = (\<lambda>_. sys_uptime E)"
  "run_handler E H SYS_gettime = sys_gettime E" "run_handler E H SYS_settickets = sys_settickets E"
  by (simp_all add: fun_eq_iff)

lemmas handler_contracts = call_fork.kernel_call_axioms call_exit.kernel_call_axioms call_wait.kernel_call_axioms
  call_kill.kernel_call_axioms call_getpid.kernel_call_axioms call_sbrk.kernel_call_axioms
  call_sleep.kernel_call_axioms call_uptime.kernel_call_axioms call_gettime.kernel_call_axioms
  call_settickets.kernel_call_axioms

lemma handler_contract: "n \<in> set process_calls \<Longrightarrow> kernel_call E (run_handler E H n)"
  by (auto simp: process_calls_def run_handler_own simp del: run_handler.simps intro: handler_contracts)

text \<open>A call with an unknown number only writes \<^verbatim>\<open>eax\<close>.\<close>

lemma eax_step: "cpu_proc s c = Some me \<Longrightarrow> fk me = None \<Longrightarrow> (kstep E)\<^sup>*\<^sup>* (s, fk) (set_eax me r s, fk)"
  using one_step(1)[OF o_user, of s c me fk E "(p_tf (the_proc s me))\<lparr>tf_eax := word_of_int r\<rparr>"]
  by (simp add: set_eax_def upd_at_def)

lemma set_eax_fields [simp]:
  "cpu_proc (set_eax me r s) = cpu_proc s" "length (ptable (set_eax me r s)) = length (ptable s)"
  "me < length (ptable s) \<Longrightarrow> tf_eax (p_tf (the_proc (set_eax me r s) me)) = word_of_int r"
  by (simp_all add: set_eax_def table_simps)

lemma syscall_run:
  assumes k: "kinv s" and cur: "cpu_proc s c = Some me" and free: "fk me = None" and np: "nextpid s < INT_MAX"
    and own: "\<forall>n. sint (tf_eax (p_tf (the_proc s me))) = sysno_num n \<longrightarrow> n \<in> set process_calls"
    and call: "syscall E H me s = Inr (r, out, t)"
  shows "(kstep E)\<^sup>*\<^sup>* (s, fk) (settled E c r t, fk)"
    and "r = WReturn v \<Longrightarrow> cpu_proc t = cpu_proc s \<and> (\<exists>u. t = set_eax me v u)"
proof -
  let ?num = "sint (tf_eax (p_tf (the_proc s me)))"
  have "(kstep E)\<^sup>*\<^sup>* (s, fk) (settled E c r t, fk) \<and>
      (r = WReturn v \<longrightarrow> cpu_proc t = cpu_proc s \<and> (\<exists>u. t = set_eax me v u))"
  proof (cases "lookup_syscall ?num")
    case None
    then have "r = WReturn (- 1)" "t = set_eax me (- 1) s" using call by (auto simp: syscall_def Let_def)
    then show ?thesis using eax_step[where fk = fk, OF cur free] by auto
  next
    case (Some n)
    then have "n \<in> set process_calls" using own by (auto simp: lookup_syscall_iff)
    note c = handler_contract[OF this, of E H]
    from call Some obtain u where u: "run_handler E H n me s = Inr (r, u)"
      "t = (case r of WReturn w \<Rightarrow> set_eax me w u | WSleep \<Rightarrow> u)"
      by (auto simp: syscall_def Let_def split: sum.splits wait_result.splits prod.splits)
    show ?thesis
    proof (cases r)
      case (WReturn w)
      have h: "run_handler E H n me s = Inr (WReturn w, u)" using u(1) WReturn by simp
      have "(kstep E)\<^sup>*\<^sup>* (s, fk) (set_eax me w u, fk)" by (rule kernel_call.run_eax[OF c, where fk = fk, OF k cur free np h])
      moreover have "cpu_proc u = cpu_proc s" by (rule kernel_call.stays[OF c h])
      ultimately show ?thesis using WReturn u(2) by auto
    next
      case WSleep
      have h: "run_handler E H n me s = Inr (WSleep, u)" using u(1) WSleep by simp
      have "(kstep E)\<^sup>*\<^sup>* (s, fk) (settled E c WSleep u, fk)"
        by (rule kernel_call.run[OF c, where fk = fk, OF k cur free np h])
      then show ?thesis using WSleep u(2) by simp
    qed
  qed
  then show "(kstep E)\<^sup>*\<^sup>* (s, fk) (settled E c r t, fk)"
    "r = WReturn v \<Longrightarrow> cpu_proc t = cpu_proc s \<and> (\<exists>u. t = set_eax me v u)" by blast+
qed

end
