(* ===== verification/Lottery_Test.thy ===== *)
theory Lottery_Test
  imports Syscall_Kernel Sched_Props
begin

text \<open>
  The user program \<^verbatim>\<open>src/hw3/lotterytest.c\<close> on the kernel: its code as a tree of the calls it makes,
  the machine on which it runs beside any other processes, and what holds whatever the
  schedule: a child that spins holds the tickets it reports, and no line is printed twice.
\<close>

section \<open>The program\<close>

text \<open>
  The code that a process has still to run. A call whose result the program looks at (the date
  that \<^verbatim>\<open>gettime\<close> stored, the value of \<^verbatim>\<open>fork\<close>) continues with a function of it. \<open>USpin x y\<close> is the loop
  of \<^verbatim>\<open>spin\<close> before the test of its inner loop, with the values of its variables; \<open>UWaiting\<close> is a
  process inside \<^verbatim>\<open>wait\<close>.
\<close>

type_synonym date = "int \<times> int \<times> int"
type_synonym line = "int \<times> string \<times> int list"

datatype ucode = UGettime "date \<Rightarrow> ucode" | UPrintf line ucode | UFork "int \<Rightarrow> ucode" | USettickets int ucode
  | USpin u32 u32 ucode | UWait ucode | UWaiting ucode | UExit

definition start_format :: string where
  "start_format = ''starting test at %d hours %d minutes %d seconds'' @ [CHR 10]"

definition spin_format :: string where
  "spin_format = ''spin with %d tickets ended at %d hours %d minutes %d seconds'' @ [CHR 10]"

text \<open>
  One turn of the loops of \<^verbatim>\<open>spin\<close>: the inner loop counts \<^verbatim>\<open>y\<close>, at its end \<^verbatim>\<open>x\<close> is counted and the outer
  condition is tested; \<open>None\<close> when it fails.
\<close>

fun spin_next :: "u32 \<times> u32 \<Rightarrow> (u32 \<times> u32) option" where
  "spin_next (x, y) = (if y < 10000 then Some (x, y + 1) else if x + 1 < 100000 then Some (x + 1, 0) else None)"

definition spin_report :: "int \<Rightarrow> ucode \<Rightarrow> ucode" where
  "spin_report tix k = UGettime (\<lambda>(hour, minute, second). UPrintf (0, spin_format, [tix, hour, minute, second]) k)"

definition spin :: "int \<Rightarrow> ucode \<Rightarrow> ucode" where
  "spin tix k = USpin 0 0 (spin_report tix k)"

definition lottery_main :: ucode where
  "lottery_main = UGettime (\<lambda>(hour, minute, second). UPrintf (0, start_format, [hour, minute, second])
     (UFork (\<lambda>pid1. if pid1 = 0 then USettickets 80 (spin 80 UExit)
        else UFork (\<lambda>pid2. if pid2 = 0 then USettickets 20 (spin 20 UExit)
          else UWait (UWait UExit)))))"

section \<open>The machine that runs it\<close>

text \<open>
  What a process of the program does on its processor outside \<^verbatim>\<open>fork\<close>: the code it has left, the lines
  it printed and the state. A process puts the argument of a call where the kernel fetches it
  (\<open>a_regs\<close> are the registers it traps with); the console may make it sleep; a process that
  was killed exits at its next trap.
\<close>

inductive uact :: "'x kenv \<Rightarrow> nat \<Rightarrow> nat \<Rightarrow> ucode \<Rightarrow> 'x kstate \<Rightarrow> ucode option \<Rightarrow> line list \<Rightarrow> 'x kstate \<Rightarrow> bool"
  for E c me where
  a_gettime: "sys_gettime E me s = Inr (WReturn r, s') \<Longrightarrow> uact E c me (UGettime k) s (Some (k d)) [] s'"
| a_printf: "uact E c me (UPrintf l k) s (Some k) [l] s"
| a_write_sleep: "m \<noteq> KWait \<Longrightarrow> m \<noteq> KExit \<Longrightarrow> sleep E (Some me) ch (Some lk) m s = Inr s' \<Longrightarrow>
    uact E c me (UPrintf l k) s (Some (UPrintf l k)) [] (scheduler_return E c s')"
| a_settickets: "argint (umem E s me) (the_proc s me) 0 = Some n \<Longrightarrow> sys_settickets E me s = Inr (WReturn r, s') \<Longrightarrow>
    uact E c me (USettickets n k) s (Some k) [] s'"
| a_spin: "spin_next (x, y) = Some (x', y') \<Longrightarrow> uact E c me (USpin x y k) s (Some (USpin x' y' k)) [] s"
| a_spun: "spin_next (x, y) = None \<Longrightarrow> uact E c me (USpin x y k) s (Some k) [] s"
| a_wait: "sys_wait E me s = Inr (WReturn r, s') \<Longrightarrow> uact E c me (UWait k) s (Some k) [] s'"
| a_wait_sleep: "sys_wait E me s = Inr (WSleep, s') \<Longrightarrow>
    uact E c me (UWait k) s (Some (UWaiting k)) [] (scheduler_return E c s')"
| a_woken: "uact E c me (UWaiting k) s (Some k) [] s"
| a_exit: "code = UExit \<or> p_killed (the_proc s me) \<noteq> 0 \<Longrightarrow> sys_exit E me s = Inr (WSleep, s') \<Longrightarrow>
    uact E c me code s None [] (scheduler_return E c s')"
| a_regs: "uact E c me code s (Some code) [] (upd_proc me (\<lambda>p. p\<lparr>p_tf := tf\<rparr>) s)"

text \<open>
  The machine: the kernel's configuration, the code of each slot that runs the program, and the
  lines printed. All other processes, and the kernel itself, take any steps they can.
\<close>

type_synonym 'x uconf = "'x kstate \<times> (nat \<rightharpoonup> nat) \<times> (nat \<rightharpoonup> ucode) \<times> line list"

inductive ustep :: "'x kenv \<Rightarrow> 'x uconf \<Rightarrow> 'x uconf \<Rightarrow> bool" for E where
  u_system: "ostep E None s s' \<Longrightarrow> ustep E (s, fk, U, out) (s', fk, U, out)"
| u_foreign: "ostep E (Some p) s s' \<Longrightarrow> fk p = None \<Longrightarrow> U p = None \<Longrightarrow> ustep E (s, fk, U, out) (s', fk, U, out)"
| u_foreign_fork: "fork_step E p r (s, fk) (s', fk') \<Longrightarrow> U p = None \<Longrightarrow> ustep E (s, fk, U, out) (s', fk', U, out)"
| u_act: "cpu_proc s c = Some me \<Longrightarrow> fk me = None \<Longrightarrow> U me = Some code \<Longrightarrow> uact E c me code s code' ls s' \<Longrightarrow>
    ustep E (s, fk, U, out) (s', fk, U(me := code'), out @ ls)"
| u_fork: "fork_step E me None (s, fk) (s', fk') \<Longrightarrow> U me = Some (UFork k) \<Longrightarrow>
    ustep E (s, fk, U, out) (s', fk', U, out)"
| u_fork_failed: "fork_step E me (Some (- 1)) (s, fk) (s', fk') \<Longrightarrow> U me = Some (UFork k) \<Longrightarrow>
    ustep E (s, fk, U, out) (s', fk', U(me \<mapsto> k (- 1)), out)"
| u_forked: "fork_step E me (Some r) (s, fk) (s', fk') \<Longrightarrow> r \<noteq> - 1 \<Longrightarrow> fk me = Some np \<Longrightarrow> U me = Some (UFork k) \<Longrightarrow>
    ustep E (s, fk, U, out) (s', fk', U(me \<mapsto> k r, np \<mapsto> k 0), out)"

text \<open>The program starts in a running process of a reachable kernel.\<close>

definition ustart :: "'x kenv \<Rightarrow> 'x uconf \<Rightarrow> bool" where
  "ustart E u \<longleftrightarrow> (\<exists>z0 s fk c me. kinit E z0 \<and> (kstep E)\<^sup>*\<^sup>* z0 (s, fk) \<and> cpu_proc s c = Some me \<and> fk me = None \<and>
     u = (s, fk, [me \<mapsto> lottery_main], []))"

section \<open>The loop of spin\<close>

text \<open>The turn of \<^verbatim>\<open>spin\<close> in which its variables have given values.\<close>

primrec spin_turns :: "nat \<Rightarrow> (u32 \<times> u32) option" where
  "spin_turns 0 = Some (0, 0)"
| "spin_turns (Suc n) = Option.bind (spin_turns n) spin_next"

lemma spin_inner:
  assumes "spin_turns n = Some (x, 0)"
  shows "j \<le> 10000 \<Longrightarrow> spin_turns (n + j) = Some (x, word_of_nat j)"
proof (induction j)
  case (Suc j)
  then have "(word_of_nat j :: u32) < 10000" by (simp add: word_less_nat_alt unat_of_nat)
  then show ?case using Suc by (simp add: add.commute)
qed (use assms in simp)

lemma spin_outer: "m < 100000 \<Longrightarrow> spin_turns (10001 * m) = Some (word_of_nat m, 0)"
proof (induction m)
  case (Suc m)
  then have "spin_turns (10001 * m + 10000) = Some (word_of_nat m, word_of_nat 10000)"
    by (intro spin_inner) simp_all
  moreover have "(word_of_nat m :: u32) + 1 < 100000"
    using Suc.prems by (simp add: word_less_nat_alt unat_of_nat unat_word_ariths)
  moreover have "10001 * Suc m = Suc (10001 * m + 10000)" by simp
  ultimately show ?case by (simp only: spin_turns.simps) (simp add: add.commute)
qed simp

section \<open>A process holds the tickets it reports\<close>

text \<open>
  \<open>honest code t\<close>: started with \<open>t\<close> tickets, the code reports only the number it holds. A child may be
  given any number of tickets by \<^verbatim>\<open>fork\<close>.
\<close>

primrec honest :: "ucode \<Rightarrow> int \<Rightarrow> bool" where
  "honest (UGettime k) t \<longleftrightarrow> (\<forall>d. honest (k d) t)"
| "honest (UPrintf l k) t \<longleftrightarrow> (fst (snd l) = spin_format \<longrightarrow> snd (snd l) \<noteq> [] \<and> hd (snd (snd l)) = t) \<and> honest k t"
| "honest (UFork k) t \<longleftrightarrow> (\<forall>r. honest (k r) t) \<and> (\<forall>t. honest (k 0) t)"
| "honest (USettickets n k) t \<longleftrightarrow> honest k n"
| "honest (USpin x y k) t \<longleftrightarrow> honest k t"
| "honest (UWait k) t \<longleftrightarrow> honest k t"
| "honest (UWaiting k) t \<longleftrightarrow> honest k t"
| "honest UExit t \<longleftrightarrow> True"

lemma formats_differ [simp]: "start_format \<noteq> spin_format" "spin_format \<noteq> start_format"
  by (simp_all add: start_format_def spin_format_def)

lemma honest_main: "honest lottery_main t"
  by (auto simp: lottery_main_def spin_def spin_report_def)

text \<open>Seen from the kernel, a process of the program does nothing, or makes one of the calls.\<close>

lemma uact_kernel:
  assumes "uact E c me code s code' ls s'" and "cpu_proc s c = Some me"
  shows "s' = s \<or> ostep E (Some me) s s' \<or> ostep E None s s'"
  using assms
proof (cases rule: uact.cases)
  case (a_gettime r k d)
  then have "s' = s \<or> (\<exists>x. s' = s\<lparr>ext := x\<rparr>)" by (auto simp: sys_gettime_def ret_def split: option.splits)
  then show ?thesis by (auto intro: o_external)
qed (auto simp: sys_wait_def sys_exit_def split: sum.splits
      intro: o_exit o_wait_return o_wait_sleep o_sleep o_settickets o_user)

text \<open>What it does to its own slot: it stays alive unless it exits, and its tickets are those of its code.\<close>

lemma uact_self:
  assumes act: "uact E c me code s (Some code') ls s'" and k: "kinv s" and cur: "cpu_proc s c = Some me"
    and h: "honest code (p_tickets (the_proc s me))"
  shows "active (the_proc s' me) \<and> honest code' (p_tickets (the_proc s' me))"
proof -
  note me = kinv_current[OF k cur]
  have runs: "active (the_proc t me) \<and> p_tickets (the_proc t me) = p_tickets (the_proc s me)" if "runs_on me s t" for t
    using that me(2) by (auto simp: runs_on_def)
  have wait: "runs_on me s t" if "sys_wait E me s = Inr (r, t)" for r t
    using that runs_on_wait[of E me "acquire E PtableLock s" r t] me
    by (simp add: sys_wait_def wait_def runs_on_def)
  show ?thesis
    using act
  proof (cases rule: uact.cases)
    case (a_gettime r k d)
    then have "the_proc s' me = the_proc s me" by (auto simp: sys_gettime_def ret_def split: option.splits)
    then show ?thesis using a_gettime h me(2) by (cases d) simp
  next
    case (a_write_sleep m ch lk t l k)
    then show ?thesis using runs[OF runs_on_sleep[OF a_write_sleep(7) me(1)]] h by simp
  next
    case (a_settickets n r)
    then have "the_proc s' me = (the_proc s me)\<lparr>p_tickets := n\<rparr>"
      using me(1) by (auto simp: sys_settickets_def ret_def table_simps)
    then show ?thesis using a_settickets h me(2) by simp
  next
    case (a_wait r)
    then show ?thesis using runs[OF wait] h by auto
  next
    case (a_wait_sleep t k)
    then show ?thesis using runs[OF wait] h by auto
  qed (use me h in \<open>simp_all add: table_simps\<close>)
qed

text \<open>The value \<^verbatim>\<open>fork\<close> returns, and the child, at its end.\<close>

lemma fork_step_child:
  assumes inv: "conf_inv (s, fk)" and st: "fork_step E p (Some r) (s, fk) (s', fk')" and fk: "fk p = Some np"
    and r: "r \<noteq> - 1"
  shows "np < length (ptable s)" and "active (the_proc s' np)" and "0 < r"
proof -
  have f: "fork_inv (s, fk)" using inv by (simp add: conf_inv_def)
  show np: "np < length (ptable s)" by (rule fork_invD(4)[OF f fk])
  have fr: "fork_rest E p np s = (r, s')" using st fk by (auto elim: fork_step.cases)
  have pos: "0 < p_pid (the_proc s np)" using used_pid_pos[OF inv np] fork_invD(5)[OF f fk] by simp
  show "active (the_proc s' np)" "0 < r"
    by (cases rule: fork_rest_cases[OF np, of E p]; use fr r pos np in \<open>auto simp: table_simps\<close>)+
qed

text \<open>The invariant of the machine.\<close>

definition code_inv :: "'x kstate \<Rightarrow> (nat \<rightharpoonup> ucode) \<Rightarrow> bool" where
  "code_inv s U \<longleftrightarrow> (\<forall>i code. U i = Some code \<longrightarrow>
     i < length (ptable s) \<and> active (the_proc s i) \<and> honest code (p_tickets (the_proc s i)))"

definition uinv :: "'x uconf \<Rightarrow> bool" where
  "uinv u \<longleftrightarrow> (case u of (s, fk, U, out) \<Rightarrow> conf_inv (s, fk) \<and> code_inv s U)"

lemma code_invD:
  assumes "code_inv s U" and "U i = Some code"
  shows "i < length (ptable s)" and "active (the_proc s i)" and "honest code (p_tickets (the_proc s i))"
  using assms unfolding code_inv_def by blast+

lemma code_inv_keep:
  assumes inv: "code_inv s U" and len: "length (ptable s') = length (ptable s)"
    and slot: "\<And>i. i < length (ptable s) \<Longrightarrow> active (the_proc s i) \<Longrightarrow> U i \<noteq> None \<Longrightarrow>
      active (the_proc s' i) \<and> p_tickets (the_proc s' i) = p_tickets (the_proc s i)"
  shows "code_inv s' U"
  unfolding code_inv_def len
proof (intro allI impI)
  fix i code assume "U i = Some code"
  then show "i < length (ptable s) \<and> active (the_proc s' i) \<and> honest code (p_tickets (the_proc s' i))"
    using code_invD[OF inv] slot[of i] by simp
qed

lemma code_inv_move:
  assumes "code_inv s U" and mv: "table_move a s s'" and a: "\<And>p. a = Some p \<Longrightarrow> U p = None"
  shows "code_inv s' U"
  using assms(1)
proof (rule code_inv_keep)
  fix i assume i: "i < length (ptable s)" "active (the_proc s i)" "U i \<noteq> None"
  have "(a = Some i) = False" using a[of i] i(3) by auto
  moreover have "slot_move (a = Some i) (the_proc s i) (the_proc s' i)" using mv i(1) by (simp add: table_move_def)
  ultimately have mv: "slot_move False (the_proc s i) (the_proc s' i)" by simp
  then have "p_tickets (the_proc s' i) = p_tickets (the_proc s i)" by (simp add: slot_move_def)
  then show "active (the_proc s' i) \<and> p_tickets (the_proc s' i) = p_tickets (the_proc s i)"
    using slot_move_active[OF mv i(2)] by simp
qed (use mv in \<open>simp add: table_move_def\<close>)

lemma code_inv_upd:
  assumes "code_inv s (U(i := None))"
    and "\<And>code. code' = Some code \<Longrightarrow> i < length (ptable s) \<and> active (the_proc s i) \<and> honest code (p_tickets (the_proc s i))"
  shows "code_inv s (U(i := code'))"
  unfolding code_inv_def
proof (intro allI impI)
  fix j code assume j: "(U(i := code')) j = Some code"
  show "j < length (ptable s) \<and> active (the_proc s j) \<and> honest code (p_tickets (the_proc s j))"
    using j assms(2) code_invD[OF assms(1), of j] by (cases "j = i") simp_all
qed

lemma code_inv_del: "code_inv s U \<Longrightarrow> code_inv s (U(i := None))"
  by (auto simp: code_inv_def split: if_splits)

lemma code_inv_fork:
  assumes inv: "conf_inv (s, fk)" and code: "code_inv s U" and st: "fork_step E p r (s, fk) (s', fk')"
  shows "code_inv s' U"
  using code fork_step_others(1)[OF inv st] by (rule code_inv_keep) (simp add: fork_step_others(2)[OF inv st])

lemma code_inv_act:
  assumes k: "kinv s" and code: "code_inv s U" and cur: "cpu_proc s c = Some me" and U: "U me = Some code"
    and act: "uact E c me code s code' ls s'"
  shows "code_inv s' (U(me := code'))"
proof (rule code_inv_upd)
  obtain a where a: "a = Some me \<or> a = None" "table_move a s s'"
    using uact_kernel[OF act cur] ostep_move[OF k] by (auto intro: table_move_stay)
  show "code_inv s' (U(me := None))" by (rule code_inv_move[OF code_inv_del[OF code] a(2)]) (use a(1) in auto)
  have len: "length (ptable s') = length (ptable s)" using a(2) by (simp add: table_move_def)
  note d = code_invD[OF code U]
  show "me < length (ptable s') \<and> active (the_proc s' me) \<and> honest d (p_tickets (the_proc s' me))" if "code' = Some d" for d
    using uact_self[OF _ k cur, of E code d ls s'] act that d len by simp
qed

lemma code_inv_forked:
  assumes inv: "conf_inv (s, fk)" and code: "code_inv s U" and st: "fork_step E me (Some r) (s, fk) (s', fk')"
    and U: "U me = Some (UFork k)"
  shows "code_inv s' (U(me \<mapsto> k r))" and "r \<noteq> - 1 \<Longrightarrow> fk me = Some np \<Longrightarrow> code_inv s' (U(me \<mapsto> k r, np \<mapsto> k 0))"
proof -
  note c = code_inv_fork[OF inv code st] and d = code_invD[OF code U] and len = fork_step_others(1)[OF inv st]
  have same: "the_proc s' me = the_proc s me" by (rule fork_step_others(2)[OF inv st d(1,2)])
  show par: "code_inv s' (U(me \<mapsto> k r))"
    by (rule code_inv_upd[OF code_inv_del[OF c]]) (use d same len in auto)
  assume "r \<noteq> - 1" "fk me = Some np"
  note ch = fork_step_child[OF inv st this(2,1)]
  show "code_inv s' (U(me \<mapsto> k r, np \<mapsto> k 0))"
    by (rule code_inv_upd[OF code_inv_del[OF par]]) (use ch d(3) len in auto)
qed

text \<open>Every step of the machine is a step of the kernel, or the kernel does not move.\<close>

lemma ustep_kernel:
  assumes "ustep E (s, fk, U, out) (s', fk', U', out')"
  shows "(s', fk') = (s, fk) \<or> kstep E (s, fk) (s', fk')"
  using assms
proof (cases rule: ustep.cases)
  case (u_act c me code code' ls)
  then show ?thesis using uact_kernel[OF u_act(7,4)] by (auto intro: k_other)
qed (auto intro: k_fork k_other)

lemma ustep_inv:
  assumes inv: "uinv u" and st: "ustep E u u'"
  shows "uinv u'"
proof -
  obtain s fk U out where u: "u = (s, fk, U, out)" by (cases u)
  obtain s' fk' U' out' where u': "u' = (s', fk', U', out')" by (cases u')
  have conf: "conf_inv (s, fk)" and code: "code_inv s U" using inv by (simp_all add: uinv_def u)
  then have k: "kinv s" by (simp add: conf_inv_def)
  note st = st[unfolded u u']
  have "conf_inv (s', fk')" using ustep_kernel[OF st] conf kstep_inv by auto
  moreover have "code_inv s' U'"
    using st
  proof (cases rule: ustep.cases)
    case u_system
    then show ?thesis using code_inv_move[OF code ostep_move[OF k]] by auto
  next
    case (u_foreign p)
    then show ?thesis using code_inv_move[OF code ostep_move[OF k u_foreign(4)]] by auto
  qed (use code code_inv_fork[OF conf code] code_inv_act[OF k code] code_inv_forked[OF conf code] in auto)
  ultimately show ?thesis by (simp add: uinv_def u')
qed

lemma ustart_inv:
  assumes "ustart E u"
  shows "uinv u"
proof -
  from assms obtain z0 s fk c me where z: "kinit E z0" "(kstep E)\<^sup>*\<^sup>* z0 (s, fk)" and cur: "cpu_proc s c = Some me"
    and u: "u = (s, fk, [me \<mapsto> lottery_main], [])" by (auto simp: ustart_def)
  have conf: "conf_inv (s, fk)" by (rule kern.reachable_inv[OF z])
  then have "kinv s" by (simp add: conf_inv_def)
  note me = kinv_current[OF this cur]
  then have "code_inv s [me \<mapsto> lottery_main]" using honest_main by (simp add: code_inv_def)
  then show ?thesis using conf by (simp add: uinv_def u)
qed

interpretation ltest: transition_system "ustart E" "ustep E" uinv for E :: "'x kenv"
  by unfold_locales (fact ustart_inv, fact ustep_inv)

section \<open>Nothing is printed twice\<close>

text \<open>
  \<open>within P code n\<close>: the code and the children it forks print at most \<open>n\<close> lines that satisfy \<open>P\<close>. The
  parent of a \<^verbatim>\<open>fork\<close> never sees the value 0.
\<close>

primrec within :: "(line \<Rightarrow> bool) \<Rightarrow> ucode \<Rightarrow> nat \<Rightarrow> bool" where
  "within P (UGettime k) n \<longleftrightarrow> (\<forall>d. within P (k d) n)"
| "within P (UPrintf l k) n \<longleftrightarrow> (if P l then 0 < n \<and> within P k (n - 1) else within P k n)"
| "within P (UFork k) n \<longleftrightarrow> (\<exists>a b. a + b \<le> n \<and> (\<forall>r. r \<noteq> 0 \<longrightarrow> within P (k r) a) \<and> within P (k 0) b)"
| "within P (USettickets m k) n \<longleftrightarrow> within P k n"
| "within P (USpin x y k) n \<longleftrightarrow> within P k n"
| "within P (UWait k) n \<longleftrightarrow> within P k n"
| "within P (UWaiting k) n \<longleftrightarrow> within P k n"
| "within P UExit n \<longleftrightarrow> True"

lemma within_fork:
  "a + b \<le> n \<Longrightarrow> (\<And>r. r \<noteq> 0 \<Longrightarrow> within P (k r) a) \<Longrightarrow> within P (k 0) b \<Longrightarrow> within P (UFork k) n"
  by auto

text \<open>An allowance for each process; with what was printed it never exceeds the one at the start.\<close>

definition covers :: "(line \<Rightarrow> bool) \<Rightarrow> (nat \<rightharpoonup> ucode) \<Rightarrow> (nat \<Rightarrow> nat) \<Rightarrow> bool" where
  "covers P U b \<longleftrightarrow> finite (dom U) \<and> (\<forall>i code. U i = Some code \<longrightarrow> within P code (b i))"

definition allowed :: "(line \<Rightarrow> bool) \<Rightarrow> nat \<Rightarrow> 'x uconf \<Rightarrow> bool" where
  "allowed P n u \<longleftrightarrow>
     (case u of (s, fk, U, out) \<Rightarrow> \<exists>b. covers P U b \<and> sum b (dom U) + length (filter P out) \<le> n)"

lemma allowedI: "covers P U b \<Longrightarrow> sum b (dom U) + length (filter P out) \<le> n \<Longrightarrow> allowed P n (s, fk, U, out)"
  by (auto simp: allowed_def)

lemma uact_within:
  assumes "uact E c me code s code' ls s'" and "within P code n"
  obtains m where "\<forall>d. code' = Some d \<longrightarrow> within P d m" and "m + length (filter P ls) \<le> n"
  using assms
proof (cases rule: uact.cases)
  case (a_gettime r k d)
  then show thesis using that[of n] assms(2) by (cases d) auto
next
  case (a_printf l k)
  then show thesis using that[of "if P l then n - 1 else n"] assms(2) by (auto split: if_splits)
qed (use that[of n] assms(2) in auto)

text \<open>One process changes its code and its allowance; a new one gets an allowance.\<close>

lemma covers_upd:
  assumes b: "covers P U b" and me: "me \<in> dom U" and code': "\<forall>d. code' = Some d \<longrightarrow> within P d m" and le: "m + k \<le> b me"
  shows "covers P (U(me := code')) (b(me := m))" and "sum (b(me := m)) (dom (U(me := code'))) + k \<le> sum b (dom U)"
proof -
  have fin: "finite (dom U)" using b by (simp add: covers_def)
  then show "covers P (U(me := code')) (b(me := m))" using b code' by (simp add: covers_def)
  have "sum (b(me := m)) (dom (U(me := code'))) \<le> sum (b(me := m)) (dom U)"
    using me fin by (intro sum_mono2) auto
  also have "\<dots> = m + sum b (dom U - {me})"
    using fin me by (simp add: sum.remove[of "dom U" me])
  finally show "sum (b(me := m)) (dom (U(me := code'))) + k \<le> sum b (dom U)"
    using le sum.remove[OF fin me, of b] by simp
qed

lemma covers_new:
  assumes b: "covers P U b" and np: "U np = None" and d: "within P d m"
  shows "covers P (U(np \<mapsto> d)) (b(np := m))" and "sum (b(np := m)) (dom (U(np \<mapsto> d))) = m + sum b (dom U)"
proof -
  have fin: "finite (dom U)" using b by (simp add: covers_def)
  then show "covers P (U(np \<mapsto> d)) (b(np := m))" using b d by (simp add: covers_def)
  have "np \<notin> dom U" using np by auto
  moreover from this have "sum (b(np := m)) (dom U) = sum b (dom U)" by (intro sum.cong) auto
  ultimately show "sum (b(np := m)) (dom (U(np \<mapsto> d))) = m + sum b (dom U)" using fin by (simp del: fun_upd_apply) simp
qed

lemma allowed_act:
  assumes al: "allowed P n (s, fk, U, out)" and U: "U me = Some code" and act: "uact E c me code s code' ls s'"
  shows "allowed P n (s', fk', U(me := code'), out @ ls)"
proof -
  from al obtain b where b: "covers P U b" and n: "sum b (dom U) + length (filter P out) \<le> n"
    by (auto simp: allowed_def)
  then have "within P code (b me)" using U by (simp add: covers_def)
  with act obtain m where m: "\<forall>d. code' = Some d \<longrightarrow> within P d m" "m + length (filter P ls) \<le> b me"
    by (rule uact_within)
  have me: "me \<in> dom U" using U by auto
  note up = covers_upd[OF b me m]
  show ?thesis
    by (rule allowedI[OF up(1)]) (use up(2) n in \<open>unfold filter_append length_append, linarith\<close>)
qed

lemma allowed_forked:
  assumes al: "allowed P n (s, fk, U, out)" and U: "U me = Some (UFork k)" and r: "r \<noteq> 0"
  shows "allowed P n (s', fk', U(me \<mapsto> k r), out)"
    and "U np = None \<Longrightarrow> allowed P n (s', fk', U(me \<mapsto> k r, np \<mapsto> k 0), out)"
proof -
  from al obtain b where b: "covers P U b" and n: "sum b (dom U) + length (filter P out) \<le> n"
    by (auto simp: allowed_def)
  then have "within P (UFork k) (b me)" using U by (simp add: covers_def del: within.simps)
  then obtain x y where xy: "x + y \<le> b me" "\<forall>d. Some (k r) = Some d \<longrightarrow> within P d x" "within P (k 0) y"
    using r by auto
  have me: "me \<in> dom U" using U by auto
  note up = covers_upd[OF b me xy(2,1)]
  show "allowed P n (s', fk', U(me \<mapsto> k r), out)" by (rule allowedI[OF up(1)]) (use up(2) n in linarith)
  assume "U np = None"
  then have "(U(me \<mapsto> k r)) np = None" using U by auto
  note new = covers_new[OF up(1) this xy(3)]
  show "allowed P n (s', fk', U(me \<mapsto> k r, np \<mapsto> k 0), out)"
    by (rule allowedI[OF new(1)]) (use new(2) up(2) n in linarith)
qed

lemma allowed_step:
  assumes inv: "uinv u" and al: "allowed P n u" and st: "ustep E u u'"
  shows "allowed P n u'"
  using st
proof (cases rule: ustep.cases)
  case (u_act s c me fk U code code' ls s' out)
  then show ?thesis using al allowed_act by blast
next
  case (u_fork_failed me s fk s' fk' U k out)
  then show ?thesis using al allowed_forked(1)[where r = "- 1"] by simp
next
  case (u_forked me r s fk s' fk' np U k out)
  have conf: "conf_inv (s, fk)" and code: "code_inv s U" using inv u_forked(1) by (simp_all add: uinv_def)
  then have "p_state (the_proc s np) = EMBRYO" using fork_invD(5) u_forked(5) by (auto simp: conf_inv_def)
  then have "U np = None" using code_invD(2)[OF code] by fastforce
  moreover have "0 < r" by (rule fork_step_child(3)[OF conf u_forked(3,5,4)])
  ultimately show ?thesis using allowed_forked(2)[of P n s fk U out me k r np s' fk'] al u_forked by simp
qed (use al in \<open>simp_all add: allowed_def\<close>)

lemma reachable_allowed:
  assumes start: "ustart E u0" and run: "(ustep E)\<^sup>*\<^sup>* u0 u" and main: "within P lottery_main n"
  shows "allowed P n u"
  using start run
proof (rule ltest.reachable_stable)
  show "allowed P n u0" using start main by (auto simp: ustart_def allowed_def covers_def)
qed (rule allowed_step)

lemma printed_within:
  assumes "ustart E u0" and "(ustep E)\<^sup>*\<^sup>* u0 (s, fk, U, out)" and "within P lottery_main n"
  shows "length (filter P out) \<le> n"
  using reachable_allowed[OF assms] by (auto simp: allowed_def)

text \<open>The lines of the program.\<close>

definition start_line :: "line \<Rightarrow> bool" where
  "start_line l \<longleftrightarrow> fst l = 0 \<and> fst (snd l) = start_format \<and> length (snd (snd l)) = 3"

definition spin_line :: "int \<Rightarrow> line \<Rightarrow> bool" where
  "spin_line n l \<longleftrightarrow> fst l = 0 \<and> fst (snd l) = spin_format \<and> length (snd (snd l)) = 4 \<and> hd (snd (snd l)) = n"

lemmas main_lines = lottery_main_def spin_def spin_report_def start_line_def spin_line_def

lemma within_main:
  "within start_line lottery_main 1" "within (spin_line n) lottery_main 1"
  "within (\<lambda>l. \<not> (start_line l \<or> spin_line 80 l \<or> spin_line 20 l)) lottery_main 0"
proof -
  let ?second = "UFork (\<lambda>pid2. if pid2 = 0 then USettickets 20 (spin 20 UExit) else UWait (UWait UExit))"
  have "within (spin_line n) ?second (if n = 20 then 1 else 0)"
    by (rule within_fork[of 0 "if n = 20 then 1 else 0"]) (simp_all add: main_lines)
  then have "within (spin_line n) (UFork (\<lambda>pid1. if pid1 = 0 then USettickets 80 (spin 80 UExit) else ?second)) 1"
    by (intro within_fork[of "if n = 20 then 1 else 0" "if n = 80 then 1 else 0"])
      (simp_all add: spin_def spin_report_def spin_line_def)
  then show "within (spin_line n) lottery_main 1" by (simp add: lottery_main_def spin_line_def del: within.simps(3))
  show "within start_line lottery_main 1" by (auto simp: main_lines)
  show "within (\<lambda>l. \<not> (start_line l \<or> spin_line 80 l \<or> spin_line 20 l)) lottery_main 0"
    by (auto simp: main_lines)
qed

end
