(* ===== verification/Lottery_Test_Props.thy ===== *)
theory Lottery_Test_Props
  imports Lottery_Test
begin

text \<open>
  The properties of \<^verbatim>\<open>src/hw3/lotterytest.c\<close> on the kernel, for every schedule, and a run of the
  program on the simulated machine up to the point where both children compete.
\<close>

section \<open>A run of the program\<close>

text \<open>Each process finds its argument of \<^verbatim>\<open>settickets\<close> on its own stack, at address 4004.\<close>

definition lt_env :: "sim kenv" where
  "lt_env = sim_env\<lparr>e_umem := (\<lambda>d x a. if a = 4004 then (if d = 16384 then 80 else 20) else 0)\<rparr>"

definition state_of :: "'x kstate \<Rightarrow> 'x sysresult \<Rightarrow> 'x kstate" where
  "state_of s r = (case r of Inr (_, t) \<Rightarrow> t | Inl _ \<Rightarrow> s)"

definition dispatched :: "'x kenv \<Rightarrow> nat \<Rightarrow> 'x kstate \<Rightarrow> 'x kstate" where
  "dispatched E c s = (case scheduler E c True s of
     (Some i, t) \<Rightarrow> state_of t (resume E i t) | (None, t) \<Rightarrow> t)"

definition yielded :: "'x kenv \<Rightarrow> nat \<Rightarrow> nat \<Rightarrow> 'x kstate \<Rightarrow> 'x kstate" where
  "yielded E c me s = scheduler_return E c (case yield E me s of Inr t \<Rightarrow> t | Inl _ \<Rightarrow> s)"

text \<open>A process puts its argument on the stack, sets its tickets and is interrupted.\<close>

definition at_stack :: "nat \<Rightarrow> 'x kstate \<Rightarrow> 'x kstate" where
  "at_stack me s = upd_proc me (\<lambda>p. p\<lparr>p_tf := (p_tf (the_proc s me))\<lparr>tf_esp := 4000\<rparr>\<rparr>) s"

definition lt_boot :: "sim kstate" where
  "lt_boot = (case userinit lt_env sim_blank of Inr s \<Rightarrow> s | Inl _ \<Rightarrow> sim_blank)"

definition lt_run :: "sim kstate" where "lt_run = dispatched lt_env 0 lt_boot"
definition lt_one :: "sim kstate" where "lt_one = snd (fork lt_env 0 lt_run)"
definition lt_two :: "sim kstate" where "lt_two = snd (fork lt_env 0 lt_one)"
definition lt_wait :: "sim kstate" where "lt_wait = scheduler_return lt_env 0 (state_of lt_two (sys_wait lt_env 0 lt_two))"
text \<open>The steps of such a run.\<close>

lemma dispatch_ostep:
  assumes "cpu_proc s c = None" and "fst (scheduler E c True s) = Some i"
    and "returned (resume E i (snd (scheduler E c True s)))"
  shows "ostep E None s (dispatched E c s)"
proof -
  have sch: "scheduler E c True s = (Some i, snd (scheduler E c True s))" using assms(2) by (simp add: prod_eq_iff)
  from assms(3) obtain r t where r: "resume E i (snd (scheduler E c True s)) = Inr (WReturn r, t)"
    by (auto simp: returned_iff)
  have "dispatched E c s = t" by (subst dispatched_def) (subst sch, simp add: r state_of_def)
  then show ?thesis using o_dispatch[OF assms(1) sch r] by simp
qed

lemma yield_ostep:
  assumes "cpu_proc s c = Some me" and "\<not> isl (yield E me s)"
  shows "ostep E None s (yielded E c me s)"
proof -
  obtain t where "yield E me s = Inr t" using assms(2) by (cases "yield E me s") auto
  then show ?thesis using o_yield[OF assms(1)] by (simp add: yielded_def)
qed

lemma quiet_act:
  assumes "cpu_proc s c = Some me" and "U me = Some code" and "uact E c me code s code' ls s'"
  shows "ustep E (s, Map.empty, U, out) (s', Map.empty, U(me := code'), out @ ls)"
  using assms by (intro u_act) simp_all

text \<open>A \<^verbatim>\<open>fork\<close> that nothing interrupts: the parent gets the pid of the child, the child 0.\<close>

lemma fork_usteps:
  assumes cur: "cpu_proc s c = Some me" and U: "U me = Some (UFork k)" and np: "nextpid s < INT_MAX"
    and al: "fst (allocproc E s) = Some i" and r: "fst (fork E me s) = r" "r \<noteq> - 1"
  shows "(ustep E)\<^sup>*\<^sup>* (s, Map.empty, U, out) (snd (fork E me s), Map.empty, U(me \<mapsto> k r, i \<mapsto> k 0), out)"
proof -
  define t where "t = snd (allocproc E s)"
  have a: "allocproc E s = (Some i, t)" using al by (simp add: prod_eq_iff t_def)
  have "fork E me s = fork_rest E me i t" using a by (simp add: fork_def)
  then have f: "fork_rest E me i t = (r, snd (fork E me s))" using r(1) by (simp add: prod_eq_iff)
  have "fork_step E me None (s, Map.empty) (t, [me \<mapsto> i])" using f_alloc[OF cur _ np a] by simp
  then have "ustep E (s, Map.empty, U, out) (t, [me \<mapsto> i], U, out)" using U by (rule u_fork)
  moreover have "cpu_proc t c = Some me" using allocproc_cpu[of E s] cur by (simp add: t_def)
  then have "fork_step E me (Some r) (t, [me \<mapsto> i]) (snd (fork E me s), ([me \<mapsto> i])(me := None))" 
    by (rule f_rest[OF _ _ f]) simp
  then have "ustep E (t, [me \<mapsto> i], U, out) (snd (fork E me s), ([me \<mapsto> i])(me := None), U(me \<mapsto> k r, i \<mapsto> k 0), out)"
    using r(2) _ U by (rule u_forked) simp
  moreover have "([me \<mapsto> i])(me := None) = Map.empty" by auto
  ultimately show ?thesis
    by (simp add: converse_rtranclp_into_rtranclp[of "ustep E"] r_into_rtranclp[of "ustep E"])
qed

text \<open>
  The turn of a child: it is dispatched, puts its argument on the stack, sets its tickets and is
  interrupted by the timer.
\<close>

definition ticketed :: "'x kenv \<Rightarrow> nat \<Rightarrow> nat \<Rightarrow> 'x kstate \<Rightarrow> 'x kstate" where
  "ticketed E c me s = state_of s (sys_settickets E me (at_stack me (dispatched E c s)))"

definition child_turn_ok :: "'x kenv \<Rightarrow> nat \<Rightarrow> nat \<Rightarrow> int \<Rightarrow> 'x kstate \<Rightarrow> bool" where
  "child_turn_ok E c me n s \<longleftrightarrow> cpu_proc s c = None \<and> fst (scheduler E c True s) = Some me \<and>
     returned (resume E me (snd (scheduler E c True s))) \<and>
     (let t = at_stack me (dispatched E c s) in
        cpu_proc t c = Some me \<and> argint (umem E t me) (the_proc t me) 0 = Some n \<and> returned (sys_settickets E me t)) \<and>
     cpu_proc (ticketed E c me s) c = Some me \<and> \<not> isl (yield E me (ticketed E c me s))"

lemma child_turn:
  assumes ok: "child_turn_ok E c me n s" and U: "U me = Some (USettickets n k)"
  shows "(ustep E)\<^sup>*\<^sup>* (s, Map.empty, U, out) (yielded E c me (ticketed E c me s), Map.empty, U(me \<mapsto> k), out)"
proof -
  let ?d = "dispatched E c s" and ?R = "ustep E"
  let ?t = "at_stack me ?d"
  note h = ok[unfolded child_turn_ok_def Let_def]
  have a: "?R (s, Map.empty, U, out) (?d, Map.empty, U, out)"
    using h by (intro u_system dispatch_ostep[of s c E me]) blast+
  have cur: "cpu_proc ?d c = Some me" using h by (simp add: at_stack_def)
  then have "?R (?d, Map.empty, U, out) (?t, Map.empty, U(me := Some (USettickets n k)), out @ [])"
    using U unfolding at_stack_def by (rule quiet_act) (rule a_regs)
  moreover have "U(me := Some (USettickets n k)) = U" using U by auto
  ultimately have b: "?R (?d, Map.empty, U, out) (?t, Map.empty, U, out)" by simp
  from h obtain r u where u: "sys_settickets E me ?t = Inr (WReturn r, u)" by (auto simp: returned_iff)
  have "cpu_proc ?t c = Some me" using h by simp
  then have "?R (?t, Map.empty, U, out) (u, Map.empty, U(me := Some k), out @ [])"
    using U by (rule quiet_act) (use a_settickets[OF _ u] h in simp)
  then have c: "?R (?t, Map.empty, U, out) (ticketed E c me s, Map.empty, U(me \<mapsto> k), out)"
    by (simp add: ticketed_def u state_of_def)
  have d: "?R (ticketed E c me s, Map.empty, U(me \<mapsto> k), out) (yielded E c me (ticketed E c me s), Map.empty, U(me \<mapsto> k), out)"
    using h by (intro u_system yield_ostep) simp_all
  show ?thesis
    by (rule converse_rtranclp_into_rtranclp[of ?R, OF a], rule converse_rtranclp_into_rtranclp[of ?R, OF b],
        rule converse_rtranclp_into_rtranclp[of ?R, OF c], rule r_into_rtranclp[of ?R, OF d])
qed

lemma lt_init: "kinit lt_env (lt_boot, Map.empty)"
proof -
  have "list_all (\<lambda>p. p_state p = UNUSED \<and> p_parent p = None \<and> p_pid p = 0) (ptable sim_blank)" by code_simp
  moreover have "nextpid sim_blank = 1" "cpu_proc sim_blank = (\<lambda>_. None)" by (simp_all add: sim_blank_def)
  ultimately have b: "blank sim_blank" by (simp add: blank_def list_all_iff)
  have "\<not> isl (userinit lt_env sim_blank)" by code_simp
  then have "userinit lt_env sim_blank = Inr lt_boot"
    by (cases "userinit lt_env sim_blank") (auto simp: lt_boot_def)
  then show ?thesis using b by (auto simp: kinit_def booted_def)
qed

definition lt_out :: "line list" where
  "lt_out = [(0, start_format, [12, 30, 0])]"

lemma lt_ustart: "ustart lt_env (lt_run, Map.empty, [0 \<mapsto> lottery_main], [])"
proof -
  have h: "cpu_proc lt_boot 0 = None" "fst (scheduler lt_env 0 True lt_boot) = Some 0"
    "returned (resume lt_env 0 (snd (scheduler lt_env 0 True lt_boot)))" "cpu_proc lt_run 0 = Some 0" by code_simp+
  have "ostep lt_env None lt_boot lt_run" unfolding lt_run_def by (rule dispatch_ostep[OF h(1-3)])
  then have "(kstep lt_env)\<^sup>*\<^sup>* (lt_boot, Map.empty) (lt_run, Map.empty)"
    using quiet_step by (blast intro: r_into_rtranclp)
  then show ?thesis using lt_init h(4) unfolding ustart_def by (metis (no_types, lifting))
qed


text \<open>The parent: it prints, forks twice and goes to sleep.\<close>

abbreviation lt_fork2 :: ucode where
  "lt_fork2 \<equiv> UFork (\<lambda>pid2. if pid2 = 0 then USettickets 20 (spin 20 UExit) else UWait (UWait UExit))"

abbreviation lt_fork1 :: ucode where
  "lt_fork1 \<equiv> UFork (\<lambda>pid1. if pid1 = 0 then USettickets 80 (spin 80 UExit) else lt_fork2)"

lemma main_prints:
  assumes cur: "cpu_proc s c = Some me" and g: "sys_gettime E me s = Inr (WReturn r, s)"
  shows "(ustep E)\<^sup>*\<^sup>* (s, Map.empty, [me \<mapsto> lottery_main], []) (s, Map.empty, [me \<mapsto> lt_fork1], lt_out)"
proof -
  have "ustep E (s, Map.empty, [me \<mapsto> lottery_main], [])
      (s, Map.empty, [me \<mapsto> lottery_main, me \<mapsto> UPrintf (hd lt_out) lt_fork1], [] @ [])"
    using cur by (rule quiet_act)
      (use a_gettime[OF g, where d = "(12, 30, 0)" and c = c and k = "\<lambda>(hour, minute, second).
         UPrintf (0, start_format, [hour, minute, second]) lt_fork1"] in \<open>auto simp: lottery_main_def lt_out_def\<close>)
  moreover have "ustep E (s, Map.empty, [me \<mapsto> UPrintf (hd lt_out) lt_fork1], [])
      (s, Map.empty, [me \<mapsto> UPrintf (hd lt_out) lt_fork1, me \<mapsto> lt_fork1], [] @ [hd lt_out])"
    using cur by (rule quiet_act) (simp, rule a_printf)
  ultimately show ?thesis
    by (simp add: lt_out_def converse_rtranclp_into_rtranclp[of "ustep E"] r_into_rtranclp[of "ustep E"])
qed

lemma lt_prints:
  "(ustep lt_env)\<^sup>*\<^sup>* (lt_run, Map.empty, [0 \<mapsto> lottery_main], []) (lt_run, Map.empty, [0 \<mapsto> lt_fork1], lt_out)"
proof -
  have h: "cpu_proc lt_run 0 = Some 0" "argptr (umem lt_env lt_run 0) (the_proc lt_run 0) 0 (e_sizeof_rtcdate lt_env) = None"
    by code_simp+
  then show ?thesis by (intro main_prints[of _ 0 _ _ "- 1"]) (simp_all add: sys_gettime_def ret_def)
qed

lemma lt_forks:
  "(ustep lt_env)\<^sup>*\<^sup>* (lt_run, Map.empty, [0 \<mapsto> lt_fork1], lt_out)
     (lt_two, Map.empty, [0 \<mapsto> UWait (UWait UExit), 1 \<mapsto> USettickets 80 (spin 80 UExit), 2 \<mapsto> USettickets 20 (spin 20 UExit)], lt_out)"
proof -
  have h: "cpu_proc lt_run 0 = Some 0" "nextpid lt_run < INT_MAX" "fst (allocproc lt_env lt_run) = Some 1"
    "fst (fork lt_env 0 lt_run) = 2" "cpu_proc lt_one 0 = Some 0" "nextpid lt_one < INT_MAX"
    "fst (allocproc lt_env lt_one) = Some 2" "fst (fork lt_env 0 lt_one) = 3" by code_simp+
  have "(ustep lt_env)\<^sup>*\<^sup>* (lt_run, Map.empty, [0 \<mapsto> lt_fork1], lt_out)
      (lt_one, Map.empty, [0 \<mapsto> lt_fork1, 0 \<mapsto> lt_fork2, 1 \<mapsto> USettickets 80 (spin 80 UExit)], lt_out)"
    using fork_usteps[where k = "\<lambda>pid1. if pid1 = 0 then USettickets 80 (spin 80 UExit) else lt_fork2"
        and U = "[0 \<mapsto> lt_fork1]" and out = lt_out, OF h(1) _ h(2,3,4)] by (simp add: lt_one_def)
  then have one: "(ustep lt_env)\<^sup>*\<^sup>* (lt_run, Map.empty, [0 \<mapsto> lt_fork1], lt_out)
      (lt_one, Map.empty, [0 \<mapsto> lt_fork2, 1 \<mapsto> USettickets 80 (spin 80 UExit)], lt_out)" by simp
  have two: "[0 :: nat \<mapsto> lt_fork2, 1 \<mapsto> USettickets 80 (spin 80 UExit), 0 \<mapsto> UWait (UWait UExit), 2 \<mapsto> USettickets 20 (spin 20 UExit)] =
      [0 \<mapsto> UWait (UWait UExit), 1 \<mapsto> USettickets 80 (spin 80 UExit), 2 \<mapsto> USettickets 20 (spin 20 UExit)]"
    by (auto simp: fun_eq_iff)
  have "(ustep lt_env)\<^sup>*\<^sup>* (lt_one, Map.empty, [0 \<mapsto> lt_fork2, 1 \<mapsto> USettickets 80 (spin 80 UExit)], lt_out)
      (lt_two, Map.empty, [0 \<mapsto> lt_fork2, 1 \<mapsto> USettickets 80 (spin 80 UExit), 0 \<mapsto> UWait (UWait UExit),
         2 \<mapsto> USettickets 20 (spin 20 UExit)], lt_out)"
    using fork_usteps[where k = "\<lambda>pid2. if pid2 = 0 then USettickets 20 (spin 20 UExit) else UWait (UWait UExit)"
        and U = "[0 \<mapsto> lt_fork2, 1 \<mapsto> USettickets 80 (spin 80 UExit)]" and out = lt_out, OF h(5) _ h(6,7,8)]
    by (simp add: lt_two_def)
  with one show ?thesis unfolding two by (rule rtranclp_trans)
qed


text \<open>The parent sleeps and the children set their tickets, each in its turn.\<close>

definition lt_eighty :: "sim kstate" where
  "lt_eighty = (let s = yielded lt_env 0 1 (ticketed lt_env 0 1 lt_wait) in s\<lparr>ext := (ext s)\<lparr>sim_draw := 90\<rparr>\<rparr>)"

definition lt_race :: "sim kstate" where
  "lt_race = yielded lt_env 0 2 (ticketed lt_env 0 2 lt_eighty)"

definition lt_code :: "nat \<rightharpoonup> ucode" where
  "lt_code = [0 \<mapsto> UWaiting (UWait UExit), 1 \<mapsto> spin 80 UExit, 2 \<mapsto> spin 20 UExit]"

lemma lt_children:
  "(ustep lt_env)\<^sup>*\<^sup>*
     (lt_two, Map.empty, [0 \<mapsto> UWait (UWait UExit), 1 \<mapsto> USettickets 80 (spin 80 UExit), 2 \<mapsto> USettickets 20 (spin 20 UExit)], lt_out)
     (lt_race, Map.empty, lt_code, lt_out)" (is "?R\<^sup>*\<^sup>* (_, _, ?U0, _) _")
proof -
  let ?U1 = "?U0(0 \<mapsto> UWaiting (UWait UExit))"
  let ?U2 = "?U1(1 \<mapsto> spin 80 UExit)"
  have h: "cpu_proc lt_two 0 = Some 0" "blocked (sys_wait lt_env 0 lt_two)" "child_turn_ok lt_env 0 1 80 lt_wait"
    "child_turn_ok lt_env 0 2 20 lt_eighty" by code_simp+
  from h(2) obtain t where t: "sys_wait lt_env 0 lt_two = Inr (WSleep, t)" by (auto simp: blocked_iff)
  have "?R (lt_two, Map.empty, ?U0, lt_out) (scheduler_return lt_env 0 t, Map.empty, ?U1, lt_out @ [])"
    using h(1) by (rule quiet_act) (use a_wait_sleep[OF t] in simp_all)
  then have a: "?R (lt_two, Map.empty, ?U0, lt_out) (lt_wait, Map.empty, ?U1, lt_out)" by (simp add: lt_wait_def t state_of_def)
  have b: "?R\<^sup>*\<^sup>* (lt_wait, Map.empty, ?U1, lt_out) (yielded lt_env 0 1 (ticketed lt_env 0 1 lt_wait), Map.empty, ?U2, lt_out)"
    using h(3) by (rule child_turn) simp
  have c: "?R (yielded lt_env 0 1 (ticketed lt_env 0 1 lt_wait), Map.empty, ?U2, lt_out) (lt_eighty, Map.empty, ?U2, lt_out)"
    unfolding lt_eighty_def Let_def by (rule u_system[OF o_external])
  have d: "?R\<^sup>*\<^sup>* (lt_eighty, Map.empty, ?U2, lt_out) (lt_race, Map.empty, ?U2(2 \<mapsto> spin 20 UExit), lt_out)"
    unfolding lt_race_def using h(4) by (rule child_turn) simp
  have e: "?U2(2 \<mapsto> spin 20 UExit) = lt_code" by (auto simp: lt_code_def fun_eq_iff)
  show ?thesis
    by (rule converse_rtranclp_into_rtranclp[of ?R, OF a], rule rtranclp_trans[OF b],
        rule converse_rtranclp_into_rtranclp[of ?R, OF c], rule d[unfolded e])
qed

lemma lt_reach:
  "(ustep lt_env)\<^sup>*\<^sup>* (lt_run, Map.empty, [0 \<mapsto> lottery_main], []) (lt_race, Map.empty, lt_code, lt_out)"
  by (rule rtranclp_trans[OF lt_prints], rule rtranclp_trans[OF lt_forks], rule lt_children)

section \<open>Properties\<close>

text \<open>
  C13. The test of the lottery: whenever the two children of \<^verbatim>\<open>lotterytest\<close> spin and are the only runnable
  processes, whatever happened on the machine before, they hold 80 and 20 of 100 tickets, and of
  the numbers the scheduler may draw 80 select the first and 20 the second, one more for the one
  in the lower slot.
\<close>

theorem lottery_test_shares:
  assumes "ustart E u0" and "(ustep E)\<^sup>*\<^sup>* u0 (s, fk, U, out)"
    and "U i = Some (USpin x y (spin_report 80 UExit))" and "U j = Some (USpin v w (spin_report 20 UExit))"
    and "\<forall>k<length (ptable s). p_state (ptable s ! k) = RUNNABLE \<longleftrightarrow> k = i \<or> k = j"
  shows "p_tickets (ptable s ! i) = 80 \<and> p_tickets (ptable s ! j) = 20 \<and> count_tickets 0 (ptable s) = 100 \<and>
    card {n. 0 \<le> n \<and> n \<le> count_tickets 0 (ptable s) \<and> draw n 0 (ptable s) = Some i} = (if i < j then 81 else 80) \<and>
    card {n. 0 \<le> n \<and> n \<le> count_tickets 0 (ptable s) \<and> draw n 0 (ptable s) = Some j} = (if i < j then 20 else 21)"
proof -
  have "uinv (s, fk, U, out)" by (rule ltest.reachable_inv[OF assms(1,2)])
  then have code: "code_inv s U" by (simp add: uinv_def)
  note i = code_invD[OF code assms(3)] and j = code_invD[OF code assms(4)]
  have t: "p_tickets (ptable s ! i) = 80" "p_tickets (ptable s ! j) = 20"
    using i(3) j(3) by (simp_all add: spin_report_def)
  then have ne: "i \<noteq> j" by auto
  note run = assms(5)[rule_format]
  have ok: "tickets_ok (ptable s)" by (rule tickets_ok_two[OF i(1) j(1) ne run]) (simp_all add: t INT_MAX_def)
  have total: "count_tickets 0 (ptable s) = 100"
    using total_tickets_two[OF i(1) j(1) ne run] count_tickets_total[OF ok] t by simp
  have first: "first_runnable (ptable s) = Some (min i j)"
    unfolding first_runnable_def find_idx_Some using i(1) j(1) run by (auto simp: min_def)
  have r: "p_state (ptable s ! i) = RUNNABLE" "p_state (ptable s ! j) = RUNNABLE" using run i(1) j(1) by simp_all
  show ?thesis
    using t total draw_card[OF ok i(1) r(1)] draw_card[OF ok j(1) r(2)] ne by (auto simp: first min_def split: if_splits)
qed

theorem lottery_test_shares_witness:
  "p_tickets (ptable lt_race ! 1) = 80 \<and> p_tickets (ptable lt_race ! 2) = 20 \<and> count_tickets 0 (ptable lt_race) = 100 \<and>
   card {n. 0 \<le> n \<and> n \<le> count_tickets 0 (ptable lt_race) \<and> draw n 0 (ptable lt_race) = Some 1} = 81"
proof -
  have "map p_state (ptable lt_race) = [SLEEPING, RUNNABLE, RUNNABLE]" by code_simp
  then have run: "\<forall>k<length (ptable lt_race). p_state (ptable lt_race ! k) = RUNNABLE \<longleftrightarrow> k = 1 \<or> k = 2"
    by (auto simp: list_eq_iff_nth_eq less_Suc_eq numeral_3_eq_3 numeral_2_eq_2 split: if_splits)
  have "lt_code 1 = Some (USpin 0 0 (spin_report 80 UExit))" "lt_code 2 = Some (USpin 0 0 (spin_report 20 UExit))"
    by (simp_all add: lt_code_def spin_def)
  note shares = lottery_test_shares[OF lt_ustart lt_reach this run]
  have lt: "((1 :: nat) < 2) = True" by simp
  show ?thesis using shares unfolding lt if_True by blast
qed


text \<open>
  C14. What \<^verbatim>\<open>lotterytest\<close> prints, under every schedule: only its start line and the lines of its two children,
  each at most once; and a child that is about to report its tickets holds exactly that
  number.
\<close>

theorem lottery_test_output:
  assumes "ustart E u0" and "(ustep E)\<^sup>*\<^sup>* u0 (s, fk, U, out)"
  shows "(\<forall>l\<in>set out. start_line l \<or> spin_line 80 l \<or> spin_line 20 l) \<and> length (filter start_line out) \<le> 1 \<and>
    (\<forall>n. length (filter (spin_line n) out) \<le> 1) \<and>
    (\<forall>i l k n. U i = Some (UPrintf l k) \<longrightarrow> spin_line n l \<longrightarrow> p_tickets (ptable s ! i) = n)"
proof (intro conjI allI impI)
  have "length (filter (\<lambda>l. \<not> (start_line l \<or> spin_line 80 l \<or> spin_line 20 l)) out) \<le> 0"
    by (rule printed_within[OF assms within_main(3)])
  then show "\<forall>l\<in>set out. start_line l \<or> spin_line 80 l \<or> spin_line 20 l" by (auto simp: filter_empty_conv)
next
  have "uinv (s, fk, U, out)" by (rule ltest.reachable_inv[OF assms])
  then have code: "code_inv s U" by (simp add: uinv_def)
  fix i l k n assume "U i = Some (UPrintf l k)" "spin_line n l"
  then show "p_tickets (ptable s ! i) = n" using code_invD(3)[OF code] by (fastforce simp: spin_line_def)
qed (rule printed_within[OF assms within_main(1)], rule printed_within[OF assms within_main(2)])

theorem lottery_test_output_witness:
  "start_line (0, start_format, [12, 30, 0]) \<and> length (filter start_line lt_out) \<le> 1 \<and> length (filter (spin_line 80) lt_out) \<le> 1"
proof -
  have "(0, start_format, [12, 30, 0]) \<in> set lt_out" by (simp add: lt_out_def)
  then have "start_line (0, start_format, [12, 30, 0])"
    using lottery_test_output[OF lt_ustart lt_reach] by (auto simp: spin_line_def)
  then show ?thesis using lottery_test_output[OF lt_ustart lt_reach] by blast
qed

text \<open>
  The loop of \<^verbatim>\<open>spin\<close> ends: it takes exactly 100000 * 10001 turns, in which the two unsigned counters
  never wrap.
\<close>

theorem spin_ends:
  assumes "n < 1000100000"
  shows "spin_turns n = Some (word_of_nat (n div 10001), word_of_nat (n mod 10001)) \<and> spin_turns 1000100000 = None"
proof -
  have turn: "spin_turns m = Some (word_of_nat (m div 10001), word_of_nat (m mod 10001))" if "m < 1000100000" for m
  proof -
    have "spin_turns (10001 * (m div 10001)) = Some (word_of_nat (m div 10001), 0)" using that by (intro spin_outer) simp
    then show ?thesis using spin_inner[of "10001 * (m div 10001)" "word_of_nat (m div 10001)" "m mod 10001"] by simp
  qed
  have "spin_turns (Suc 1000099999) = Option.bind (spin_turns 1000099999) spin_next" by (rule spin_turns.simps)
  then show ?thesis using turn[OF assms] turn[of 1000099999] by simp
qed

theorem spin_ends_witness: "spin_turns 20003 = Some (2, 1) \<and> spin_turns 1000100000 = None"
  using spin_ends[of 20003] by simp

end
