(* ===== verification/Lottery_Wait.thy ===== *)
theory Lottery_Wait
  imports Lottery_Test_Props Lifecycle
begin

text \<open>
  The two calls of \<^verbatim>\<open>wait\<close> at the end of \<^verbatim>\<open>src/hw3/lotterytest.c\<close> are enough, whatever the schedule: unless
  it is killed, the parent does not reach its \<^verbatim>\<open>exit\<close> before both children are gone. The proof
  counts the children of the parent in the process table against the calls its code has still
  to make, through every step of the kernel and of the other processes.
\<close>

section \<open>Children in the process table\<close>

definition children :: "'x kstate \<Rightarrow> nat \<Rightarrow> nat set" where
  "children s m = set (kids s m)"

lemma children_eq: "children s m = {j. j < length (ptable s) \<and> p_parent (the_proc s j) = Some m}"
  by (auto simp: children_def kids_def)

lemma finite_children [simp]: "finite (children s m)"
  by (simp add: children_def)

lemma children_same: "ptable t = ptable s \<Longrightarrow> children t m = children s m"
  by (simp add: children_eq)

text \<open>Only a \<^verbatim>\<open>fork\<close> of its own gives a process other than the first one a child.\<close>

lemma children_sub:
  assumes len: "length (ptable t) = length (ptable s)" and ip: "ip \<noteq> Some m"
    and mv: "\<And>j. j < length (ptable s) \<Longrightarrow> parent_move a ip (the_proc s j) (the_proc t j)"
  shows "children t m \<subseteq> children s m"
proof
  fix j assume j: "j \<in> children t m"
  then have "j < length (ptable s)" by (simp add: children_eq len)
  then show "j \<in> children s m" using j ip mv[of j] by (auto simp: children_eq parent_move_def)
qed

lemma children_move:
  assumes "table_move a s t" and "initproc s \<noteq> Some m"
  shows "children t m \<subseteq> children s m"
  using assms(1) unfolding table_move_def by (intro children_sub[OF _ assms(2), of _ _ a]) simp_all

lemma slot_move_killed:
  assumes "slot_move b p q" and "active p" and "p_killed p \<noteq> 0"
  shows "p_killed q \<noteq> 0"
proof -
  have "p_killed q = 0 \<longrightarrow> p_killed p = 0 \<or> p_state p = ZOMBIE" using assms(1) unfolding slot_move_def by blast
  then show ?thesis using assms(2,3) by (auto simp: active_def)
qed

text \<open>A process inside \<^verbatim>\<open>wait\<close>, asleep or about to be dispatched.\<close>

definition inwait :: "proc \<Rightarrow> bool" where
  "inwait p \<longleftrightarrow> p_state p \<noteq> RUNNING \<and> p_kcont p = KWait"

lemma runs_on_not_dispatched:
  assumes "runs_on me s t" and "i < length (ptable s)" and "p_state (the_proc t i) = RUNNING"
  shows "p_state (the_proc s i) = RUNNING"
  using assms by (cases "i = me") (fastforce simp: runs_on_def)+

text \<open>A process gets a processor only from the scheduler.\<close>

lemma ostep_running:
  assumes k: "kinv s" and st: "ostep E a s t" and m: "m < length (ptable s)" "p_state (the_proc s m) \<noteq> RUNNING"
    and run: "p_state (the_proc t m) = RUNNING"
  obtains c f s1 r u where "scheduler E c f s = (Some m, s1)" and "resume E m s1 = Inr (r, u)" and "ptable t = ptable u"
proof -
  have no: "\<not> runs_on me s u" if "p_state (the_proc u m) = RUNNING" for me u
    using runs_on_not_dispatched[OF _ m(1) that] m(2) by blast
  have cur: "me < length (ptable s)" "p_state (the_proc s me) = RUNNING" if "cpu_proc s c = Some me" for c me
    using kinv_current[OF k that] by simp_all
  have wait: "runs_on me s u" if "cpu_proc s c = Some me" "wait E me s = Inr (r, u)" for c me r u
    using runs_on_wait[of E me "acquire E PtableLock s" r u] cur[OF that(1)] that(2) by (simp add: wait_def runs_on_def)
  have disp: "i = m" if "scheduler E c f s = (Some i, s1)" "resume E i s1 = Inr (r, u)" "p_state (the_proc u m) = RUNNING"
    for c f i s1 r u
  proof (rule ccontr)
    assume ne: "i \<noteq> m"
    note eff = scheduler_Some[OF that(1)]
    have i: "i < length (ptable s)" using eff(1) draw_runnable by blast
    have nth: "the_proc s1 j = (if j = i then (the_proc s i)\<lparr>p_state := RUNNING\<rparr> else the_proc s j)"
      if "j < length (ptable s)" for j
      using that by (simp add: eff(2) table_simps)
    have len: "length (ptable s1) = length (ptable s)" by (simp add: eff(2))
    have "runs_on i s1 u" using that(2) i nth[OF i] by (intro runs_on_resume) (simp_all add: len)
    then have "p_state (the_proc s1 m) = RUNNING" by (rule runs_on_not_dispatched) (use m(1) that(3) len in simp_all)
    then show False using ne m nth[OF m(1)] by simp
  qed
  from st show thesis
  proof (cases rule: ostep.cases)
    case (o_exit c me u)
    have "me \<noteq> m" using cur(2)[OF o_exit(3)] m(2) by auto
    then show thesis using exit_Inr(6)[OF o_exit(4) cur(1)[OF o_exit(3)] m(1)] m run o_exit(2)
      by (auto simp: adopted_def Let_def p_state_wake_one split: if_splits)
  next
    case (o_growproc c me n)
    then show thesis using growproc_table[of E me n s] m run by (auto simp: table_simps split: if_splits)
  next
    case (o_settickets c me r)
    then show thesis
      using m run by (auto simp: sys_settickets_def ret_def Let_def table_simps split: option.splits if_splits)
  next
    case (o_yield c me u)
    from o_yield(4) obtain ie r where "ptable u = upd_at me (parked RUNNABLE KYield ie r) (ptable s)" by (rule yield_Inr)
    then show thesis using m run o_yield(2) by (auto simp: table_simps split: if_splits)
  next
    case (o_kill n)
    then show thesis
      using m run by (cases "find_idx (\<lambda>p. p_pid p = n) (ptable s)") (auto simp: kill_def kill_found table_simps split: if_splits)
  next
    case (o_dispatch c f i s1 r)
    then show thesis using that disp[OF o_dispatch(3,4) run] by blast
  next
    case (o_dispatch_block c f i s1 u)
    have "p_state (the_proc u m) = RUNNING" using run o_dispatch_block(2) by simp
    then show thesis using that[of c f s1] o_dispatch_block disp[OF o_dispatch_block(4,5)] by simp
  next
    case (o_wait_return c me r)
    then show thesis using no[OF run] wait by blast
  next
    case (o_wait_sleep c me u)
    then show thesis using no[of u] run wait[of c me WSleep u] by simp
  next
    case (o_sleep c me k ch l u)
    then show thesis using no[of u] run runs_on_sleep[OF o_sleep(6) cur(1)[OF o_sleep(3)]] by simp
  next
    case (o_idle c f)
    then show thesis using scheduler_None(1)[OF o_idle(3)] m(2) run by simp
  qed (use m run in \<open>auto simp: wakeup_def p_state_wake_one table_simps split: if_splits\<close>)
qed

text \<open>
  What a turn of \<^verbatim>\<open>wait\<close> that returns does to the children: one is gone, there is none, or the
  process was killed.
\<close>

definition fewer :: "'x kstate \<Rightarrow> 'x kstate \<Rightarrow> nat \<Rightarrow> bool" where
  "fewer s t m \<longleftrightarrow> children t m \<subset> children s m \<or> children t m = {} \<or> p_killed (the_proc t m) \<noteq> 0"

lemma wait_turn_fewer:
  assumes w: "wait_turn E m s = Inr (r, t)" and m: "m < length (ptable s)" "p_state (the_proc s m) = RUNNING"
  shows "fewer s t m \<or> r = WSleep \<and> inwait (the_proc t m)"
  using w
proof (cases rule: wait_turn_cases)
  case (reaped i)
  then have i: "i < length (ptable s)" "p_parent (the_proc s i) = Some m" by (simp_all add: table_simps)
  have "children t m = children s m - {i}" using reaped(3) by (auto simp: children_eq table_simps split: if_splits)
  then show ?thesis using i by (auto simp: fewer_def children_eq)
next
  case failed
  then show ?thesis using m(1) by (auto simp: fewer_def children_eq)
next
  case (slept ie reg)
  then show ?thesis using m(1) by (simp add: inwait_def table_simps)
qed

lemma ostep_fewer:
  assumes k: "kinv s" and st: "ostep E a s t" and a: "a \<noteq> Some m" and m: "m < length (ptable s)"
    and wait: "active (the_proc s m)" "inwait (the_proc s m)" and over: "\<not> inwait (the_proc t m)"
  shows "fewer s t m"
proof -
  have "slot_move False (the_proc s m) (the_proc t m)" by (rule table_move_other[OF ostep_move[OF k st] a m])
  then have run: "p_state (the_proc t m) = RUNNING"
    using wait over by (cases "p_state (the_proc s m)") (auto simp: slot_move_def active_def inwait_def)
  have "p_state (the_proc s m) \<noteq> RUNNING" using wait(2) by (simp add: inwait_def)
  from ostep_running[OF k st m this run] obtain c f s1 r u where sch: "scheduler E c f s = (Some m, s1)"
    and res: "resume E m s1 = Inr (r, u)" and u: "ptable t = ptable u" .
  note eff = scheduler_Some[OF sch]
  let ?v = "sleep_resume E m PtableLock s1"
  have s1: "the_proc s1 m = (the_proc s m)\<lparr>p_state := RUNNING\<rparr>" using m by (simp add: eff(2) table_simps)
  have "wait_turn E m ?v = Inr (r, u)" using res wait(2) by (simp add: resume_def s1 inwait_def wait_resume_def)
  moreover have "m < length (ptable ?v)" "p_state (the_proc ?v m) = RUNNING"
    using m s1 by (simp_all add: eff(2) table_simps)
  ultimately have "fewer ?v u m \<or> inwait (the_proc u m)" using wait_turn_fewer by blast
  moreover have "children ?v m = children s m" by (auto simp: children_eq eff(2) table_simps split: if_splits)
  ultimately show ?thesis using over u children_same[OF u] by (auto simp: fewer_def)
qed

section \<open>The calls the parent has still to make\<close>

text \<open>Code that makes no process and waits for none.\<close>

primrec quiet :: "ucode \<Rightarrow> bool" where
  "quiet (UGettime k) \<longleftrightarrow> (\<forall>d. quiet (k d))"
| "quiet (UPrintf l k) \<longleftrightarrow> quiet k"
| "quiet (UFork k) \<longleftrightarrow> False"
| "quiet (USettickets n k) \<longleftrightarrow> quiet k"
| "quiet (USpin x y k) \<longleftrightarrow> quiet k"
| "quiet (UWait k) \<longleftrightarrow> False"
| "quiet (UWaiting k) \<longleftrightarrow> False"
| "quiet UExit \<longleftrightarrow> True"

text \<open>
  \<open>reaps code n\<close>: started with \<open>n\<close> children, the code waits for all of them before it exits, and for
  those it forks; they are quiet.
\<close>

primrec reaps :: "ucode \<Rightarrow> nat \<Rightarrow> bool" where
  "reaps (UGettime k) n \<longleftrightarrow> (\<forall>d. reaps (k d) n)"
| "reaps (UPrintf l k) n \<longleftrightarrow> reaps k n"
| "reaps (UFork k) n \<longleftrightarrow> (\<forall>r>0. reaps (k r) (Suc n)) \<and> reaps (k (- 1)) n \<and> quiet (k 0)"
| "reaps (USettickets m k) n \<longleftrightarrow> reaps k n"
| "reaps (USpin x y k) n \<longleftrightarrow> reaps k n"
| "reaps (UWait k) n \<longleftrightarrow> reaps k (n - 1)"
| "reaps (UWaiting k) n \<longleftrightarrow> reaps k n"
| "reaps UExit n \<longleftrightarrow> n = 0"

lemma reaps_main: "reaps lottery_main 0"
  by (simp add: lottery_main_def spin_def spin_report_def split: prod.split)

text \<open>
  The children in the table are accounted for; while the parent is inside \<^verbatim>\<open>wait\<close>, one more than its code
  waits for afterwards.
\<close>

definition awaited :: "'x kstate \<Rightarrow> nat \<Rightarrow> ucode \<Rightarrow> bool" where
  "awaited s m code \<longleftrightarrow> (\<exists>n. reaps code n \<and> (p_killed (the_proc s m) \<noteq> 0 \<or>
     card (children s m) \<le> (if (\<exists>k. code = UWaiting k) \<and> inwait (the_proc s m) then Suc n else n)))"

lemma awaitedI:
  "reaps code n \<Longrightarrow> p_killed (the_proc s m) \<noteq> 0 \<or> card (children s m) \<le> n \<Longrightarrow> awaited s m code"
  unfolding awaited_def by (intro exI[of _ n]) auto

lemma awaited_fewer:
  assumes reaps: "reaps k n" and card: "card (children s m) \<le> Suc n" and fewer: "fewer s t m"
  shows "awaited t m k"
  using reaps
proof (rule awaitedI)
  from fewer consider "children t m \<subset> children s m" | "children t m = {}" | "p_killed (the_proc t m) \<noteq> 0"
    unfolding fewer_def by blast
  then show "p_killed (the_proc t m) \<noteq> 0 \<or> card (children t m) \<le> n"
  proof cases
    case 1
    then have "card (children t m) < card (children s m)" by (intro psubset_card_mono) simp_all
    then show ?thesis using card by simp
  qed simp_all
qed

lemma awaited_next:
  assumes aw: "awaited s m code" and killed: "p_killed (the_proc s m) \<noteq> 0 \<Longrightarrow> p_killed (the_proc t m) \<noteq> 0"
    and sub: "children t m \<subseteq> children s m" and out: "\<And>k. code = UWaiting k \<Longrightarrow> \<not> inwait (the_proc s m)"
    and reaps: "\<And>n. reaps code n \<Longrightarrow> reaps code' n"
  shows "awaited t m code'"
proof -
  obtain n where n: "reaps code n" "p_killed (the_proc s m) \<noteq> 0 \<or> card (children s m) \<le> n"
    using aw out by (auto simp: awaited_def split: if_splits)
  have "card (children t m) \<le> card (children s m)" using sub by (intro card_mono) simp_all
  then show ?thesis using n killed by (intro awaitedI[OF reaps[OF n(1)]]) auto
qed

lemma awaited_ostep:
  assumes k: "kinv s" and st: "ostep E a s t" and a: "a \<noteq> Some m" and m: "m < length (ptable s)" "active (the_proc s m)"
    and init: "initproc s \<noteq> Some m" and aw: "awaited s m code"
  shows "awaited t m code"
proof -
  note mv = ostep_move[OF k st]
  have killed: "p_killed (the_proc t m) \<noteq> 0" if "p_killed (the_proc s m) \<noteq> 0"
    by (rule slot_move_killed[OF table_move_other[OF mv a m(1)] m(2) that])
  have sub: "children t m \<subseteq> children s m" using mv init by (rule children_move)
  then have card: "card (children t m) \<le> card (children s m)" by (intro card_mono) simp_all
  show ?thesis
  proof (cases "(\<exists>k. code = UWaiting k) \<and> inwait (the_proc s m)")
    case True
    then obtain n where n: "reaps code n" "p_killed (the_proc s m) \<noteq> 0 \<or> card (children s m) \<le> Suc n"
      using aw by (auto simp: awaited_def)
    show ?thesis
    proof (cases "p_killed (the_proc s m) = 0 \<and> \<not> inwait (the_proc t m)")
      case True
      then show ?thesis using awaited_fewer[OF n(1)] n(2) ostep_fewer[OF k st a m] \<open>_ \<and> inwait (the_proc s m)\<close> by simp
    next
      case False
      then show ?thesis using n killed card \<open>_ \<and> inwait (the_proc s m)\<close> by (auto simp: awaited_def intro!: exI[of _ n])
    qed
  next
    case False
    then have "\<And>k. code = UWaiting k \<Longrightarrow> \<not> inwait (the_proc s m)" by blast
    then show ?thesis by (intro awaited_next[OF aw killed sub])
  qed
qed

section \<open>The steps of fork\<close>

lemma fork_step_family:
  assumes inv: "conf_inv (s, fk)" and st: "fork_step E p r (s, fk) (s', fk')"
  shows "initproc s' = initproc s"
    and "j \<in> children s' m \<Longrightarrow> j \<in> children s m \<or> p = m \<and> fk p = Some j \<and> r \<noteq> None \<and> r \<noteq> Some (- 1)"
    and "r = Some v \<Longrightarrow> v \<noteq> - 1 \<Longrightarrow> fk p = Some np \<Longrightarrow> p_parent (the_proc s' np) = Some p"
proof -
  have f: "fork_inv (s, fk)" using inv by (simp add: conf_inv_def)
  have alloc: "initproc t = initproc s \<and> children t m = children s m" if "allocproc E s = (q, t)" for q t
    by (cases rule: allocproc_cases[of s E]) (use that in \<open>auto simp: children_eq table_simps embryo_lost_def split: if_splits\<close>)
  have rest: "initproc t = initproc s \<and> (j \<in> children t m \<longrightarrow> j \<in> children s m \<or> p = m \<and> np = j \<and> v \<noteq> - 1) \<and>
      (v \<noteq> - 1 \<longrightarrow> p_parent (the_proc t np) = Some p)" if "fk p = Some np" "fork_rest E p np s = (v, t)" for np v t
  proof -
    note np = fork_invD(4,5)[OF f that(1)]
    then have "0 < p_pid (the_proc s np)" using used_pid_pos[OF inv np(1)] by simp
    then show ?thesis
      by (cases rule: fork_rest_cases[OF np(1), of E p])
        (use that(2) np(1) in \<open>auto simp: children_eq table_simps abandoned_def split: if_splits\<close>)
  qed
  show "initproc s' = initproc s" using st alloc rest by (cases rule: fork_step.cases; blast)
  show "j \<in> children s' m \<Longrightarrow> j \<in> children s m \<or> p = m \<and> fk p = Some j \<and> r \<noteq> None \<and> r \<noteq> Some (- 1)"
    using st alloc rest by (cases rule: fork_step.cases; auto)
  show "r = Some v \<Longrightarrow> v \<noteq> - 1 \<Longrightarrow> fk p = Some np \<Longrightarrow> p_parent (the_proc s' np) = Some p"
    using st rest by (cases rule: fork_step.cases; auto)
qed

section \<open>The steps of a process of the program\<close>

text \<open>Short of its exit, a process of the program gives no child to another and is not killed.\<close>

lemma uact_family:
  assumes act: "uact E c me code s (Some d) ls s'" and k: "kinv s" and cur: "cpu_proc s c = Some me"
  shows "initproc s' = initproc s" and "p_killed (the_proc s' me) = p_killed (the_proc s me)"
    and "j < length (ptable s) \<Longrightarrow> parent_move None (initproc s) (the_proc s j) (the_proc s' j)"
    and "length (ptable s') = length (ptable s)"
proof -
  note me = kinv_current[OF k cur]
  let ?goal = "\<lambda>t. initproc t = initproc s \<and> p_killed (the_proc t me) = p_killed (the_proc s me) \<and>
    length (ptable t) = length (ptable s) \<and>
    (\<forall>j<length (ptable s). parent_move None (initproc s) (the_proc s j) (the_proc t j))"
  have runs: "?goal t" if "runs_on me s t" for t
    using that runs_on_parent[OF that, of _ None] by (simp add: runs_on_def)
  have wait: "?goal t" if "sys_wait E me s = Inr (r, t)" for r t
    using that runs_on_wait[of E me "acquire E PtableLock s" r t] me
    by (intro runs) (simp add: sys_wait_def wait_def runs_on_def)
  have "?goal s'"
    using act
  proof (cases rule: uact.cases)
    case (a_gettime r k d)
    then show ?thesis by (auto simp: sys_gettime_def ret_def split: option.splits)
  next
    case (a_write_sleep m ch lk t l k)
    then show ?thesis using runs[OF runs_on_sleep[OF a_write_sleep(7) me(1)]] by simp
  next
    case (a_settickets n r)
    then show ?thesis using me(1) by (auto simp: sys_settickets_def ret_def table_simps)
  next
    case (a_wait r)
    then show ?thesis using wait by blast
  next
    case (a_wait_sleep t k)
    then show ?thesis using wait[OF a_wait_sleep(5)] by simp
  qed (use me in \<open>simp_all add: table_simps\<close>)
  then show "initproc s' = initproc s" "p_killed (the_proc s' me) = p_killed (the_proc s me)"
    "j < length (ptable s) \<Longrightarrow> parent_move None (initproc s) (the_proc s j) (the_proc s' j)"
    "length (ptable s') = length (ptable s)" by blast+
qed

lemma uact_quiet: "uact E c me code s (Some d) ls s' \<Longrightarrow> quiet code \<Longrightarrow> quiet d"
  by (cases rule: uact.cases) auto

lemma uact_awaited:
  assumes act: "uact E c m code s (Some d) ls s'" and k: "kinv s" and cur: "cpu_proc s c = Some m"
    and init: "initproc s \<noteq> Some m" and aw: "awaited s m code"
  shows "awaited s' m d"
proof -
  note me = kinv_current[OF k cur] and fam = uact_family[OF act k cur]
  have out: "\<not> inwait (the_proc s m)" using me(2) by (simp add: inwait_def)
  have sub: "children s' m \<subseteq> children s m"
    by (rule children_sub[OF fam(4) init fam(3)])
  have killed: "p_killed (the_proc s m) \<noteq> 0 \<Longrightarrow> p_killed (the_proc s' m) \<noteq> 0" by (simp add: fam(2))
  note on = awaited_next[OF aw killed sub out]
  have wait: "awaited s' m d"
    if "code = UWait k" "d = k \<and> r \<noteq> WSleep \<or> d = UWaiting k" "sys_wait E m s = Inr (r, t)" "ptable s' = ptable t" for k r t
  proof -
    have "awaited s m (UWait k)" using aw that(1) by simp
    then obtain n where n: "reaps k (n - 1)" "p_killed (the_proc s m) \<noteq> 0 \<or> card (children s m) \<le> n"
      by (auto simp: awaited_def)
    then have d: "reaps d (n - 1)" using that(2) by auto
    have "wait_turn E m (acquire E PtableLock s) = Inr (r, t)" using that(3) by (simp add: sys_wait_def wait_def)
    from wait_turn_fewer[OF this] have w: "fewer s s' m \<or> d = UWaiting k \<and> inwait (the_proc s' m)"
      using me that(2,4) by (auto simp: fewer_def children_eq)
    have card: "card (children s' m) \<le> card (children s m)" using sub by (intro card_mono) simp_all
    show ?thesis
    proof (cases "p_killed (the_proc s m) = 0 \<and> fewer s s' m")
      case True
      then show ?thesis using n(2) by (intro awaited_fewer[OF d, of s]) auto
    next
      case False
      then show ?thesis using w n(2) d card killed by (auto simp: awaited_def intro!: exI[of _ "n - 1"])
    qed
  qed
  show ?thesis
    using act
  proof (cases rule: uact.cases)
    case (a_gettime r k x)
    then show ?thesis by (intro on) (auto simp del: split_paired_All)
  next
    case (a_wait r)
    then show ?thesis using wait by blast
  next
    case (a_wait_sleep t k)
    then show ?thesis using wait by simp
  qed (use on in auto)
qed

section \<open>The invariant\<close>

text \<open>
  While the program runs in slot \<open>m\<close>, all its other processes are quiet children of \<open>m\<close>, and the
  children of \<open>m\<close> are awaited; afterwards all its processes are quiet.
\<close>

definition family :: "nat \<Rightarrow> 'x kstate \<Rightarrow> (nat \<rightharpoonup> ucode) \<Rightarrow> bool" where
  "family m s U \<longleftrightarrow> initproc s \<noteq> Some m \<and> (\<forall>code. U m = Some code \<longrightarrow> awaited s m code) \<and>
     (\<forall>i code. i \<noteq> m \<longrightarrow> U i = Some code \<longrightarrow> quiet code \<and> (U m \<noteq> None \<longrightarrow> p_parent (the_proc s i) = Some m))"

lemma familyD:
  assumes "family m s U"
  shows "initproc s \<noteq> Some m" and "U m = Some code \<Longrightarrow> awaited s m code"
    and "i \<noteq> m \<Longrightarrow> U i = Some d \<Longrightarrow> quiet d" and "i \<noteq> m \<Longrightarrow> U i = Some d \<Longrightarrow> U m \<noteq> None \<Longrightarrow> p_parent (the_proc s i) = Some m"
  using assms unfolding family_def by blast+

lemma familyI:
  assumes "initproc s \<noteq> Some m" and "\<And>code. U m = Some code \<Longrightarrow> awaited s m code"
    and "\<And>i code. i \<noteq> m \<Longrightarrow> U i = Some code \<Longrightarrow> quiet code"
    and "\<And>i code. i \<noteq> m \<Longrightarrow> U i = Some code \<Longrightarrow> U m \<noteq> None \<Longrightarrow> p_parent (the_proc s i) = Some m"
  shows "family m s U"
  using assms unfolding family_def by blast

text \<open>A step of the kernel that is not the parent's.\<close>

lemma family_ostep:
  assumes k: "kinv s" and code: "code_inv s U" and fam: "family m s U" and st: "s' = s \<or> ostep E a s s'"
    and a: "U m \<noteq> None \<Longrightarrow> a \<noteq> Some m"
  shows "family m s' U"
proof (cases "s' = s")
  case False
  then have os: "ostep E a s s'" using st by simp
  note mv = ostep_move[OF k os] and d = familyD[OF fam]
  show ?thesis
  proof (rule familyI)
    show "initproc s' \<noteq> Some m" using mv d(1) by (simp add: table_move_def)
    show "awaited s' m c" if "U m = Some c" for c
      using that a code_invD(1,2)[OF code that] d(1) d(2)[OF that] by (intro awaited_ostep[OF k os]) auto
    fix i c assume i: "i \<noteq> m" "U i = Some c"
    show "quiet c" by (rule d(3)[OF i])
    assume m: "U m \<noteq> None"
    have "parent_move a (initproc s) (the_proc s i) (the_proc s' i)"
      using mv code_invD(1)[OF code i(2)] by (simp add: table_move_def)
    then show "p_parent (the_proc s' i) = Some m"
      using code_invD(2)[OF code i(2)] a[OF m] d(4)[OF i m] by (auto simp: parent_move_def)
  qed
qed (use fam in simp)

text \<open>A step of \<^verbatim>\<open>fork\<close>: the slots of the program stay as they are.\<close>

lemma family_fork:
  assumes conf: "conf_inv (s, fk)" and code: "code_inv s U" and fam: "family m s U"
    and st: "fork_step E p r (s, fk) (s', fk')" and p: "p = m \<Longrightarrow> U m \<noteq> None \<Longrightarrow> r = None \<or> r = Some (- 1)"
  shows "family m s' U"
proof -
  note d = familyD[OF fam] and same = fork_step_others(2)[OF conf st code_invD(1,2)[OF code]] and fs = fork_step_family[OF conf st]
  show ?thesis
  proof (rule familyI)
    show "initproc s' \<noteq> Some m" using d(1) by (simp add: fs(1))
    show "awaited s' m c" if U: "U m = Some c" for c
    proof -
      have "children s' m \<subseteq> children s m" using fs(2) p U by blast
      then have "card (children s' m) \<le> card (children s m)" by (intro card_mono) simp_all
      then show ?thesis using d(2)[OF U] same[OF U U] unfolding awaited_def
        by (auto intro: order_trans)
    qed
  qed (use d same in auto)
qed

lemma family_act:
  assumes k: "kinv s" and code: "code_inv s U" and fam: "family m s U" and cur: "cpu_proc s c = Some me"
    and U: "U me = Some d" and act: "uact E c me d s d' ls s'"
  shows "family m s' (U(me := d'))"
proof (cases "me = m")
  case False
  have st: "\<exists>a. (a = Some me \<or> a = None) \<and> (s' = s \<or> ostep E a s s')" using uact_kernel[OF act cur] by blast
  then have "family m s' U" using family_ostep[OF k code fam] False by blast
  note f = familyD[OF this]
  have "quiet x" if "d' = Some x" for x using uact_quiet act that familyD(3)[OF fam False U] by blast
  then show ?thesis using f False U by (intro familyI) (auto split: if_splits)
next
  case True
  note f = familyD[OF fam]
  show ?thesis
  proof (cases d')
    case None
    have "ostep E (Some me) s s' \<or> ostep E None s s' \<or> s' = s" using uact_kernel[OF act cur] by blast
    then have "initproc s' = initproc s" using ostep_move[OF k] by (auto simp: table_move_def)
    then show ?thesis using f True None by (intro familyI) (auto split: if_splits)
  next
    case (Some x)
    note act' = act[unfolded Some True] and cur' = cur[unfolded True]
    note u = uact_family[OF act' k cur']
    have par: "p_parent (the_proc s' i) = Some m" if i: "i \<noteq> m" "U i = Some y" for i y
    proof -
      have "parent_move None (initproc s) (the_proc s i) (the_proc s' i)" by (rule u(3)[OF code_invD(1)[OF code i(2)]])
      then show ?thesis using f(4)[OF i] U True code_invD(2)[OF code i(2)] by (auto simp: parent_move_def)
    qed
    have "awaited s' m x" using uact_awaited[OF act' k cur' f(1)] f(2) U True by simp
    then show ?thesis using f u(1) par True Some by (intro familyI) (auto split: if_splits)
  qed
qed

text \<open>The parent leaves \<^verbatim>\<open>fork\<close>, with a child or without.\<close>

lemma family_failed:
  assumes fam: "family m s U" and U: "U m = Some (UFork k)"
  shows "family m s (U(m \<mapsto> k (- 1)))"
proof -
  note f = familyD[OF fam]
  have "awaited s m (k (- 1))" by (rule awaited_next[OF f(2)[OF U]]) simp_all
  then show ?thesis using f U by (intro familyI) (auto split: if_splits)
qed

lemma family_forked:
  assumes conf: "conf_inv (s, fk)" and code: "code_inv s U" and fam: "family m s U" and U: "U m = Some (UFork k)"
    and st: "fork_step E m (Some r) (s, fk) (s', fk')" and r: "r \<noteq> - 1" and np: "fk m = Some np"
  shows "family m s' (U(m \<mapsto> k r, np \<mapsto> k 0))"
proof -
  note f = familyD[OF fam] and same = fork_step_others(2)[OF conf st code_invD(1,2)[OF code]]
    and fs = fork_step_family[OF conf st] and ch = fork_step_child[OF conf st np r]
  have "p_state (the_proc s np) = EMBRYO" using conf np by (auto simp: conf_inv_def dest: fork_invD(5))
  then have new: "np \<noteq> m" using code_invD(2)[OF code U] by (auto simp: active_def)
  obtain n where n: "reaps (UFork k) n" "p_killed (the_proc s m) \<noteq> 0 \<or> card (children s m) \<le> n"
    using f(2)[OF U] by (auto simp: awaited_def)
  then have q: "quiet (k 0)" "reaps (k r) (Suc n)" using ch(3) by simp_all
  have "children s' m \<subseteq> insert np (children s m)" using fs(2) np by fastforce
  then have "card (children s' m) \<le> card (insert np (children s m))" by (intro card_mono) simp_all
  also have "\<dots> \<le> Suc (card (children s m))" by (simp add: card_insert_if)
  finally have aw: "awaited s' m (k r)" using n(2) same[OF U U] by (intro awaitedI[OF q(2)]) auto
  show ?thesis
    by (rule familyI) (use f fs(1,3) aw same np r new U q in \<open>auto split: if_splits\<close>)
qed

lemma family_step:
  assumes inv: "uinv (s, fk, U, out)" and fam: "family m s U" and st: "ustep E (s, fk, U, out) (s', fk', U', out')"
  shows "family m s' U'"
proof -
  have conf: "conf_inv (s, fk)" and code: "code_inv s U" using inv by (simp_all add: uinv_def)
  then have k: "kinv s" by (simp add: conf_inv_def)
  note f = familyD[OF fam]
  have me: "p = m" if "U p = Some (UFork x)" for p x using f(3)[of p, OF _ that] by (cases "p = m") auto
  from st show ?thesis
  proof (cases rule: ustep.cases)
    case u_system
    then show ?thesis using family_ostep[OF k code fam, of s' E None] by simp
  next
    case (u_foreign p)
    have "U m \<noteq> None \<Longrightarrow> Some p \<noteq> Some m" using u_foreign(6) by auto
    then show ?thesis using family_ostep[OF k code fam, of s' E "Some p"] u_foreign(2,4) by simp
  next
    case (u_foreign_fork p r)
    have "p = m \<Longrightarrow> U m \<noteq> None \<Longrightarrow> r = None \<or> r = Some (- 1)" using u_foreign_fork(4) by simp
    then show ?thesis using family_fork[OF conf code fam u_foreign_fork(3)] u_foreign_fork(1) by simp
  next
    case (u_act c me d d' ls)
    then show ?thesis using family_act[OF k code fam u_act(4,6,7)] by simp
  next
    case (u_fork p x)
    then show ?thesis using family_fork[OF conf code fam u_fork(3)] by simp
  next
    case (u_fork_failed p x)
    have p: "p = m" by (rule me[OF u_fork_failed(4)])
    have "family m s' U" by (rule family_fork[OF conf code fam u_fork_failed(3)]) simp
    from family_failed[OF this u_fork_failed(4)[unfolded p]] show ?thesis using u_fork_failed(1) p by simp
  next
    case (u_forked p r np x)
    have p: "p = m" by (rule me[OF u_forked(6)])
    show ?thesis
      using family_forked[OF conf code fam u_forked(6)[unfolded p] u_forked(3)[unfolded p] u_forked(4) u_forked(5)[unfolded p]]
        u_forked(1) p by simp
  qed
qed

section \<open>A run to the end\<close>

text \<open>
  On the simulated machine of three slots the program runs in slot 1, so that its second \<^verbatim>\<open>fork\<close> fails; its child
  is killed and exits, the first \<^verbatim>\<open>wait\<close> reaps it and the second one fails.
\<close>

definition pw_start :: "sim kstate" where "pw_start = forkret sim_env sim_child"
definition pw_one :: "sim kstate" where "pw_one = snd (fork sim_env 1 pw_start)"
definition pw_full :: "sim kstate" where "pw_full = snd (allocproc sim_env pw_one)"
definition pw_wait :: "sim kstate" where
  "pw_wait = scheduler_return sim_env 0 (state_of pw_full (sys_wait sim_env 1 pw_full))"
definition pw_killed :: "sim kstate" where "pw_killed = snd (kill sim_env 3 pw_wait)"
definition pw_child :: "sim kstate" where "pw_child = dispatched sim_env 0 pw_killed"
definition pw_dead :: "sim kstate" where
  "pw_dead = scheduler_return sim_env 0 (state_of pw_child (sys_exit sim_env 2 pw_child))"
definition pw_back :: "sim kstate" where "pw_back = dispatched sim_env 0 pw_dead"
definition pw_end :: "sim kstate" where "pw_end = state_of pw_back (sys_wait sim_env 1 pw_back)"

lemma pw_ustart: "ustart sim_env (pw_start, Map.empty, [1 \<mapsto> lottery_main], [])"
proof -
  have "(kstep sim_env)\<^sup>*\<^sup>* (sim_boot, Map.empty) (pw_start, Map.empty)"
    using sim_reach_wait sim_child_step unfolding pw_start_def by (meson rtranclp.rtrancl_into_rtrancl)
  moreover have "cpu_proc pw_start 0 = Some 1" by code_simp
  ultimately show ?thesis using sim_init unfolding ustart_def by (metis (no_types, lifting))
qed

lemma pw_forks:
  "(ustep sim_env)\<^sup>*\<^sup>* (pw_start, Map.empty, [1 \<mapsto> lottery_main], [])
     (pw_full, Map.empty, [1 \<mapsto> UWait (UWait UExit), 2 \<mapsto> USettickets 80 (spin 80 UExit)], lt_out)" (is "?R\<^sup>*\<^sup>* _ (_, _, ?U, _)")
proof -
  have h: "cpu_proc pw_start 0 = Some 1" "argptr (umem sim_env pw_start 1) (the_proc pw_start 1) 0 (e_sizeof_rtcdate sim_env) = None"
    "nextpid pw_start < INT_MAX" "fst (allocproc sim_env pw_start) = Some 2" "fst (fork sim_env 1 pw_start) = 3"
    "cpu_proc pw_one 0 = Some 1" "nextpid pw_one < INT_MAX" "fst (allocproc sim_env pw_one) = None" by code_simp+
  have a: "?R\<^sup>*\<^sup>* (pw_start, Map.empty, [1 \<mapsto> lottery_main], []) (pw_start, Map.empty, [1 \<mapsto> lt_fork1], lt_out)"
    using h(1,2) by (intro main_prints[of _ 0 _ _ "- 1"]) (simp_all add: sys_gettime_def ret_def)
  have b: "?R\<^sup>*\<^sup>* (pw_start, Map.empty, [1 \<mapsto> lt_fork1], lt_out)
      (pw_one, Map.empty, [1 \<mapsto> lt_fork2, 2 \<mapsto> USettickets 80 (spin 80 UExit)], lt_out)"
    using fork_usteps[where k = "\<lambda>pid1. if pid1 = 0 then USettickets 80 (spin 80 UExit) else lt_fork2"
        and U = "[1 \<mapsto> lt_fork1]" and out = lt_out, OF h(1) _ h(3,4,5)] by (simp add: pw_one_def)
  have "allocproc sim_env pw_one = (None, pw_full)" using h(8) by (simp add: prod_eq_iff pw_full_def)
  then have "fork_step sim_env 1 (Some (- 1)) (pw_one, Map.empty) (pw_full, Map.empty)"
    using h(6,7) by (intro f_noproc) simp_all
  then have "?R (pw_one, Map.empty, [1 \<mapsto> lt_fork2, 2 \<mapsto> USettickets 80 (spin 80 UExit)], lt_out) (pw_full, Map.empty,
      [1 \<mapsto> lt_fork2, 2 \<mapsto> USettickets 80 (spin 80 UExit), 1 \<mapsto> (if (- 1 :: int) = 0 then USettickets 20 (spin 20 UExit)
         else UWait (UWait UExit))], lt_out)" by (rule u_fork_failed) simp
  then have c: "?R (pw_one, Map.empty, [1 \<mapsto> lt_fork2, 2 \<mapsto> USettickets 80 (spin 80 UExit)], lt_out) (pw_full, Map.empty, ?U, lt_out)"
    by (simp add: fun_upd_twist del: One_nat_def)
  show ?thesis by (rule rtranclp_trans[OF a], rule rtranclp_trans[OF b], rule r_into_rtranclp[of ?R, OF c])
qed

lemma pw_child_dies:
  "(ustep sim_env)\<^sup>*\<^sup>* (pw_full, Map.empty, [1 \<mapsto> UWait (UWait UExit), 2 \<mapsto> USettickets 80 (spin 80 UExit)], lt_out)
     (pw_dead, Map.empty, [1 \<mapsto> UWaiting (UWait UExit)], lt_out)" (is "?R\<^sup>*\<^sup>* (_, _, ?U0, _) (_, _, ?U2, _)")
proof -
  let ?U1 = "?U0(1 \<mapsto> UWaiting (UWait UExit))"
  have h: "cpu_proc pw_full 0 = Some 1" "blocked (sys_wait sim_env 1 pw_full)" "cpu_proc pw_killed 0 = None"
    "fst (scheduler sim_env 0 True pw_killed) = Some 2" "returned (resume sim_env 2 (snd (scheduler sim_env 0 True pw_killed)))"
    "cpu_proc pw_child 0 = Some 2" "p_killed (the_proc pw_child 2) \<noteq> 0" "blocked (sys_exit sim_env 2 pw_child)" by code_simp+
  from h(2) obtain t where t: "sys_wait sim_env 1 pw_full = Inr (WSleep, t)" by (auto simp: blocked_iff)
  have "?R (pw_full, Map.empty, ?U0, lt_out) (scheduler_return sim_env 0 t, Map.empty, ?U1, lt_out @ [])"
    using h(1) by (rule quiet_act) (use a_wait_sleep[OF t] in simp_all)
  then have a: "?R (pw_full, Map.empty, ?U0, lt_out) (pw_wait, Map.empty, ?U1, lt_out)" by (simp add: pw_wait_def t state_of_def del: One_nat_def)
  have b: "?R (pw_wait, Map.empty, ?U1, lt_out) (pw_killed, Map.empty, ?U1, lt_out)"
    unfolding pw_killed_def by (rule u_system[OF o_kill])
  have c: "?R (pw_killed, Map.empty, ?U1, lt_out) (pw_child, Map.empty, ?U1, lt_out)"
    unfolding pw_child_def by (rule u_system[OF dispatch_ostep[OF h(3-5)]])
  from h(8) obtain v where v: "sys_exit sim_env 2 pw_child = Inr (WSleep, v)" by (auto simp: blocked_iff)
  have "?R (pw_child, Map.empty, ?U1, lt_out) (scheduler_return sim_env 0 v, Map.empty, ?U1(2 := None), lt_out @ [])"
    using h(6) by (rule quiet_act) (use a_exit[OF _ v] h(7) in simp_all)
  moreover have "?U1(2 := None) = ?U2" by (auto simp: fun_eq_iff)
  ultimately have d: "?R (pw_child, Map.empty, ?U1, lt_out) (pw_dead, Map.empty, ?U2, lt_out)"
    by (simp add: pw_dead_def v state_of_def del: One_nat_def)
  show ?thesis
    by (rule converse_rtranclp_into_rtranclp[of ?R, OF a], rule converse_rtranclp_into_rtranclp[of ?R, OF b],
        rule converse_rtranclp_into_rtranclp[of ?R, OF c], rule r_into_rtranclp[of ?R, OF d])
qed

lemma pw_waits:
  "(ustep sim_env)\<^sup>*\<^sup>* (pw_dead, Map.empty, [1 \<mapsto> UWaiting (UWait UExit)], lt_out) (pw_end, Map.empty, [1 \<mapsto> UExit], lt_out)"
  (is "?R\<^sup>*\<^sup>* _ _")
proof -
  have h: "cpu_proc pw_dead 0 = None" "fst (scheduler sim_env 0 True pw_dead) = Some 1"
    "returned (resume sim_env 1 (snd (scheduler sim_env 0 True pw_dead)))" "cpu_proc pw_back 0 = Some 1"
    "returned (sys_wait sim_env 1 pw_back)" by code_simp+
  have a: "?R (pw_dead, Map.empty, [1 \<mapsto> UWaiting (UWait UExit)], lt_out) (pw_back, Map.empty, [1 \<mapsto> UWaiting (UWait UExit)], lt_out)"
    unfolding pw_back_def by (rule u_system[OF dispatch_ostep[OF h(1-3)]])
  have "?R (pw_back, Map.empty, [1 \<mapsto> UWaiting (UWait UExit)], lt_out)
      (pw_back, Map.empty, [1 \<mapsto> UWaiting (UWait UExit)](1 := Some (UWait UExit)), lt_out @ [])"
    using h(4) by (rule quiet_act) (use a_woken in simp_all)
  then have b: "?R (pw_back, Map.empty, [1 \<mapsto> UWaiting (UWait UExit)], lt_out) (pw_back, Map.empty, [1 \<mapsto> UWait UExit], lt_out)"
    by simp
  from h(5) obtain r v where v: "sys_wait sim_env 1 pw_back = Inr (WReturn r, v)" by (auto simp: returned_iff)
  have "?R (pw_back, Map.empty, [1 \<mapsto> UWait UExit], lt_out) (v, Map.empty, [1 \<mapsto> UWait UExit](1 := Some UExit), lt_out @ [])"
    using h(4) by (rule quiet_act) (use a_wait[OF v] in simp_all)
  then have c: "?R (pw_back, Map.empty, [1 \<mapsto> UWait UExit], lt_out) (pw_end, Map.empty, [1 \<mapsto> UExit], lt_out)"
    by (simp add: pw_end_def v state_of_def del: One_nat_def)
  show ?thesis
    by (rule converse_rtranclp_into_rtranclp[of ?R, OF a], rule converse_rtranclp_into_rtranclp[of ?R, OF b],
        rule r_into_rtranclp[of ?R, OF c])
qed

section \<open>Properties\<close>

text \<open>
  C15. The two calls of \<^verbatim>\<open>wait\<close> are enough: started in a process other than the first one and without
  children, \<^verbatim>\<open>lotterytest\<close> reaches its final \<^verbatim>\<open>exit\<close>, unless it was killed, only when no child of it is left in
  the table and no other process of the program exists, whatever the scheduler and other processes do
  and whether or not its calls of \<^verbatim>\<open>fork\<close> succeed.
\<close>

theorem lottery_test_parent_waits:
  assumes "ustart E (s0, fk0, [m \<mapsto> lottery_main], [])" and "initproc s0 \<noteq> Some m"
    and "\<forall>p\<in>set (ptable s0). p_parent p \<noteq> Some m"
    and "(ustep E)\<^sup>*\<^sup>* (s0, fk0, [m \<mapsto> lottery_main], []) (s, fk, U, out)"
    and "U m = Some UExit" and "p_killed (ptable s ! m) = 0"
  shows "(\<forall>p\<in>set (ptable s). p_parent p \<noteq> Some m) \<and> dom U = {m}"
proof -
  have none: "children s0 m = {}" using assms(3) by (auto simp: children_eq)
  have "awaited s0 m lottery_main" by (rule awaitedI[OF reaps_main]) (simp add: none)
  then have start: "family m s0 [m \<mapsto> lottery_main]" using assms(2) by (intro familyI) (auto split: if_splits)
  let ?P = "\<lambda>u :: 'a uconf. case u of (s, fk, U, out) \<Rightarrow> family m s U"
  have "?P (s, fk, U, out)"
    by (rule ltest.reachable_stable[OF assms(1,4), of ?P]) (use start family_step in \<open>auto split: prod.splits\<close>)
  then have fam: "family m s U" by simp
  note f = familyD[OF fam]
  have "card (children s m) = 0" using f(2)[OF assms(5)] assms(6) by (simp add: awaited_def)
  then have "children s m = {}" by simp
  then have kids: "p_parent (the_proc s i) \<noteq> Some m" if "i < length (ptable s)" for i using that by (auto simp: children_eq)
  have "uinv (s, fk, U, out)" by (rule ltest.reachable_inv[OF assms(1,4)])
  then have code: "code_inv s U" by (simp add: uinv_def)
  have "i = m" if "U i = Some d" for i d
    using f(4)[OF _ that] kids[OF code_invD(1)[OF code that]] assms(5) by auto
  then have "dom U \<subseteq> {m}" by blast
  then have "dom U = {m}" using assms(5) by auto
  then show ?thesis using kids by (auto simp: in_set_conv_nth)
qed

theorem lottery_test_parent_waits_witness:
  "map p_parent (ptable pw_one) = [None, Some 0, Some 1] \<and> map p_parent (ptable pw_end) = [None, Some 0, None] \<and>
   p_state (ptable pw_end ! 1) = RUNNING \<and> \<not> Some 1 \<in> p_parent ` set (ptable pw_end)"
proof -
  have h: "initproc pw_start \<noteq> Some 1" "map p_parent (ptable pw_start) = [None, Some 0, None]" "p_killed (ptable pw_end ! 1) = 0"
    "map p_parent (ptable pw_one) = [None, Some 0, Some 1]" "map p_parent (ptable pw_end) = [None, Some 0, None]"
    "p_state (ptable pw_end ! 1) = RUNNING" by code_simp+
  have "p_parent ` set (ptable pw_start) = set [None, Some 0, None]" using h(2) by (metis list.set_map)
  then have start: "\<forall>p\<in>set (ptable pw_start). p_parent p \<noteq> Some 1" by force
  have run: "(ustep sim_env)\<^sup>*\<^sup>* (pw_start, Map.empty, [1 \<mapsto> lottery_main], []) (pw_end, Map.empty, [1 \<mapsto> UExit], lt_out)"
    by (rule rtranclp_trans[OF pw_forks], rule rtranclp_trans[OF pw_child_dies], rule pw_waits)
  have "\<forall>p\<in>set (ptable pw_end). p_parent p \<noteq> Some 1"
    using lottery_test_parent_waits[OF pw_ustart h(1) start run _ h(3)] by simp
  then show ?thesis using h(4-6) by auto
qed

end
