(* ===== verification/Usys.thy ===== *)
theory Usys
  imports Syscall_Props
begin

text \<open>
  The user side of a system call: the stubs of \<^verbatim>\<open>src/hw3/usys.S\<close>, the prototypes of
  \<^verbatim>\<open>src/hw3/user.h\<close>, and a C call that puts its arguments on the user stack. What the kernel
  fetches with \<^verbatim>\<open>argint\<close> is what the program passed, for every call and every argument.
\<close>

section \<open>A call from user code\<close>

text \<open>The registers of the program and its memory.\<close>

type_synonym umach = "trapframe \<times> (u32 \<Rightarrow> u8)"

text \<open>An \<^verbatim>\<open>int\<close> in memory, low byte first.\<close>

definition store_int :: "u32 \<Rightarrow> int \<Rightarrow> (u32 \<Rightarrow> u8) \<Rightarrow> u32 \<Rightarrow> u8" where
  "store_int a v mem =
     (let w = (word_of_int v :: u32)
      in mem(a := ucast w, a + 1 := ucast (drop_bit 8 w), a + 2 := ucast (drop_bit 16 w), a + 3 := ucast (drop_bit 24 w)))"

definition push :: "int \<Rightarrow> umach \<Rightarrow> umach" where
  "push v m = (case m of (tf, mem) \<Rightarrow> (tf\<lparr>tf_esp := tf_esp tf - 4\<rparr>, store_int (tf_esp tf - 4) v mem))"

lemma push_simp [simp]: "push v (tf, mem) = (tf\<lparr>tf_esp := tf_esp tf - 4\<rparr>, store_int (tf_esp tf - 4) v mem)"
  by (simp add: push_def)

text \<open>
  The macro \<^verbatim>\<open>SYSCALL(name)\<close> up to the trap: the number goes to \<^verbatim>\<open>eax\<close>. The stubs that
  \<^verbatim>\<open>usys.S\<close> defines, in its order.
\<close>

definition usys_stub :: "sysno \<Rightarrow> umach \<Rightarrow> umach" where
  "usys_stub n m = (case m of (tf, mem) \<Rightarrow> (tf\<lparr>tf_eax := word_of_int (sysno_num n)\<rparr>, mem))"

definition usys_stubs :: "sysno list" where
  "usys_stubs = [SYS_fork, SYS_exit, SYS_wait, SYS_pipe, SYS_read, SYS_write, SYS_close, SYS_kill, SYS_exec,
     SYS_open, SYS_mknod, SYS_unlink, SYS_fstat, SYS_link, SYS_mkdir, SYS_chdir, SYS_dup, SYS_getpid,
     SYS_sbrk, SYS_sleep, SYS_uptime, SYS_gettime, SYS_settickets]"

text \<open>The number of arguments of each prototype; integers and pointers take one word each.\<close>

fun user_args :: "sysno \<Rightarrow> nat" where
  "user_args SYS_fork = 0" | "user_args SYS_exit = 0" | "user_args SYS_wait = 0" | "user_args SYS_pipe = 1"
| "user_args SYS_write = 3" | "user_args SYS_read = 3" | "user_args SYS_close = 1" | "user_args SYS_kill = 1"
| "user_args SYS_exec = 2" | "user_args SYS_open = 2" | "user_args SYS_mknod = 3" | "user_args SYS_unlink = 1"
| "user_args SYS_fstat = 2" | "user_args SYS_link = 2" | "user_args SYS_mkdir = 1" | "user_args SYS_chdir = 1"
| "user_args SYS_dup = 1" | "user_args SYS_getpid = 0" | "user_args SYS_sbrk = 1" | "user_args SYS_sleep = 1"
| "user_args SYS_uptime = 0" | "user_args SYS_gettime = 1" | "user_args SYS_settickets = 1"

text \<open>
  A C call of a stub: the arguments are pushed from the last to the first, then the return
  address; the stub traps.
\<close>

definition ucall :: "sysno \<Rightarrow> int list \<Rightarrow> int \<Rightarrow> umach \<Rightarrow> umach" where
  "ucall n args ra m = usys_stub n (push ra (foldr push args m))"

section \<open>Integers in memory\<close>

lemma nat_bytes:
  assumes "(n :: nat) < 2 ^ 32"
  shows "n mod 256 + 256 * (n div 256 mod 256) + 65536 * (n div 65536 mod 256) + 16777216 * (n div 16777216 mod 256) = n"
proof -
  have q: "n div 65536 = n div 256 div 256" "n div 16777216 = n div 256 div 256 div 256"
    by (simp_all add: div_mult2_eq[symmetric])
  have "n div 256 div 256 div 256 < 256" using assms by (simp add: div_mult2_eq[symmetric] less_mult_imp_div_less)
  then have "n div 256 div 256 div 256 mod 256 = n div 256 div 256 div 256" by simp
  then show ?thesis
    unfolding q using div_mult_mod_eq[of n 256] div_mult_mod_eq[of "n div 256" 256]
      div_mult_mod_eq[of "n div 256 div 256" 256] by linarith
qed

lemma byte_of_word: "(ucast (ucast (drop_bit k w :: u32) :: u8) :: u32) = word_of_nat (unat w div 2 ^ k mod 256)"
proof -
  have d: "unat (drop_bit k w) = unat w div 2 ^ k" by (metis drop_bit_eq_div unat_drop_bit_eq)
  have "unat (ucast (drop_bit k w) :: u8) = unat w div 2 ^ k mod 256"
    by (subst unsigned_ucast_eq) (simp only: d take_bit_eq_mod, simp)
  then have u: "unat (ucast (ucast (drop_bit k w) :: u8) :: u32) = unat w div 2 ^ k mod 256"
    by (subst unsigned_ucast_eq) (simp only: take_bit_eq_mod, simp)
  have "unat w div 2 ^ k mod 256 < 2 ^ 32" by (rule less_le_trans[of _ 256]) simp_all
  then show ?thesis by (simp only: word_unat_eq_iff u unat_of_nat) simp
qed

lemma word_bytes:
  "ucast (ucast w :: u8) + 256 * ucast (ucast (drop_bit 8 w) :: u8) + 65536 * ucast (ucast (drop_bit 16 w) :: u8) +
   16777216 * ucast (ucast (drop_bit 24 w) :: u8) = (w :: u32)"
proof -
  have n: "unat w < 2 ^ 32" using unsigned_less[of w, where ?'a = nat] by simp
  show ?thesis
    using byte_of_word[of 0 w] byte_of_word[of 8 w] byte_of_word[of 16 w] byte_of_word[of 24 w]
      arg_cong[OF nat_bytes[OF n], of "word_of_nat :: nat \<Rightarrow> u32"] by simp
qed

lemma load_store_same: "in_int v \<Longrightarrow> load_int (store_int a v mem) a = v"
  by (simp add: load_int_def store_int_def Let_def word_bytes sint_sbintrunc' in_int_def INT_MIN_def INT_MAX_def
      signed_take_bit_int_eq_self)

text \<open>Stores of other words, if neither wraps around the address space.\<close>

lemma load_store_other:
  assumes "uint a + 4 \<le> uint b \<or> uint b + 4 \<le> uint a" and "uint a \<le> 2 ^ 32 - 4" and "uint b \<le> 2 ^ 32 - 4"
  shows "load_int (store_int b v mem) a = load_int mem a"
proof -
  have "a + word_of_int i \<noteq> b + word_of_int j" if "0 \<le> i" "i < 4" "0 \<le> j" "j < 4" for i j
  proof -
    have "uint (a + word_of_int i) = uint a + i" "uint (b + word_of_int j) = uint b + j"
      using that assms(2,3) by (simp_all add: uint_add_small)
    then show ?thesis using assms(1) that by auto
  qed
  note ne = this[of 0 0] this[of 0 1] this[of 0 2] this[of 0 3] this[of 1 0] this[of 1 1] this[of 1 2] this[of 1 3]
    this[of 2 0] this[of 2 1] this[of 2 2] this[of 2 3] this[of 3 0] this[of 3 1] this[of 3 2] this[of 3 3]
  show ?thesis unfolding load_int_def store_int_def Let_def using ne by simp
qed

section \<open>Arguments on the stack\<close>

text \<open>The word \<open>k\<close> places below an address; the stack does not reach the bottom of the memory.\<close>

definition below :: "u32 \<Rightarrow> nat \<Rightarrow> u32" where
  "below a k = a - word_of_int (4 * int k)"

lemma below_Suc: "below a k - 4 = below a (Suc k)"
  by (simp add: below_def algebra_simps)

lemma below_add: "j \<le> k \<Longrightarrow> below a k + word_of_int (4 * int j) = below a (k - j)"
  by (simp add: below_def of_nat_diff algebra_simps)

lemma uint_below: "4 * int k \<le> uint (a :: u32) \<Longrightarrow> uint (below a k) = uint a - 4 * int k"
  using uint_add_int[of a "- (4 * int k)"] uint_bounded[of a] by (simp add: below_def)

lemma push_args:
  assumes "4 * int (length args) \<le> uint (tf_esp tf)" and "\<forall>v\<in>set args. in_int v"
  shows "\<exists>mem'. foldr push args (tf, mem) = (tf\<lparr>tf_esp := below (tf_esp tf) (length args)\<rparr>, mem') \<and>
    (\<forall>i<length args. load_int mem' (below (tf_esp tf) (length args - i)) = args ! i)"
  using assms
proof (induction args)
  case (Cons v args)
  let ?esp = "tf_esp tf" and ?n = "length args"
  from Cons obtain mem' where m: "foldr push args (tf, mem) = (tf\<lparr>tf_esp := below ?esp ?n\<rparr>, mem')"
    "\<And>i. i < ?n \<Longrightarrow> load_int mem' (below ?esp (?n - i)) = args ! i" by auto
  let ?a = "below ?esp (Suc ?n)"
  have "load_int (store_int ?a v mem') (below ?esp (Suc ?n - i)) = (v # args) ! i" if i: "i < Suc ?n" for i
  proof (cases i)
    case 0
    then show ?thesis using Cons.prems(2) by (simp add: load_store_same)
  next
    case (Suc j)
    have "load_int (store_int ?a v mem') (below ?esp (?n - j)) = load_int mem' (below ?esp (?n - j))"
      using Cons.prems(1) Suc i uint_bounded[of ?esp] by (intro load_store_other) (simp_all add: uint_below of_nat_diff)
    then show ?thesis using m(2)[of j] Suc i by simp
  qed
  then show ?case using m(1) by (auto simp: below_Suc)
qed (simp add: below_def)


text \<open>What the registers and the memory hold at the trap.\<close>

lemma ucall_trap:
  assumes "4 * int (Suc (length args)) \<le> uint (tf_esp tf)" and "\<forall>v\<in>set args. in_int v"
    and "ucall n args ra (tf, mem) = (tf', mem')"
  shows "tf_esp tf' = below (tf_esp tf) (Suc (length args))" and "tf_eax tf' = word_of_int (sysno_num n)"
    and "i < length args \<Longrightarrow> load_int mem' (below (tf_esp tf) (length args - i)) = args ! i"
proof -
  let ?esp = "tf_esp tf" and ?n = "length args"
  obtain m where m: "foldr push args (tf, mem) = (tf\<lparr>tf_esp := below ?esp ?n\<rparr>, m)"
    "\<And>i. i < ?n \<Longrightarrow> load_int m (below ?esp (?n - i)) = args ! i"
    using push_args[of args tf mem] assms(1,2) by auto
  then have t: "tf' = tf\<lparr>tf_esp := below ?esp (Suc ?n), tf_eax := word_of_int (sysno_num n)\<rparr>"
    "mem' = store_int (below ?esp (Suc ?n)) ra m"
    using assms(3) by (auto simp: ucall_def usys_stub_def below_Suc)
  show "tf_esp tf' = below ?esp (Suc ?n)" "tf_eax tf' = word_of_int (sysno_num n)" by (simp_all add: t)
  assume i: "i < ?n"
  have "load_int mem' (below ?esp (?n - i)) = load_int m (below ?esp (?n - i))"
    unfolding t using assms(1) i uint_bounded[of ?esp]
    by (intro load_store_other) (simp_all add: uint_below of_nat_diff)
  then show "load_int mem' (below ?esp (?n - i)) = args ! i" using m(2)[OF i] by simp
qed

lemma ucall_argint:
  assumes room: "4 * int (Suc (length args)) \<le> uint (tf_esp tf)" and vals: "\<forall>v\<in>set args. in_int v"
    and call: "ucall n args ra (tf, mem) = (tf', mem')" and i: "i < length args"
    and p: "p_tf p = tf'" "tf_esp tf \<le> p_sz p"
  shows "argint mem' p (int i) = Some (args ! i)"
proof -
  let ?esp = "tf_esp tf" and ?n = "length args"
  let ?a = "below ?esp (?n - i)"
  have "tf_esp tf' + 4 + word_of_int (4 * int i) = below ?esp (Suc ?n) + word_of_int (4 * int (Suc i))"
    using ucall_trap(1)[OF room vals call] by (simp add: algebra_simps)
  also have "\<dots> = ?a" using i by (subst below_add) simp_all
  finally have a: "tf_esp tf' + 4 + word_of_int (4 * int i) = ?a" .
  have u: "uint ?a = uint ?esp - 4 * int (?n - i)" using room i by (intro uint_below) simp
  have "uint (?a + 4) = uint ?a + 4" using uint_add_small[of ?a 4] u i uint_bounded[of ?esp] by simp
  then have "fetchint mem' (p_sz p) ?a = Some (load_int mem' ?a)"
    using p(2) u i by (auto simp: fetchint_def word_le_def word_less_def)
  then show ?thesis unfolding argint_def p a using ucall_trap(3)[OF room vals call i] by simp
qed

lemma stubs_complete: "distinct usys_stubs" "n \<in> set usys_stubs"
  by (cases n; simp add: usys_stubs_def)+

section \<open>From the program to the handler\<close>

text \<open>
  C20. A system call from C code to its handler: every call of \<^verbatim>\<open>syscall.h\<close> has a stub, and when a program
  calls it with the arguments of its prototype, with room on its stack, the kernel runs the
  handler of that call and every \<^verbatim>\<open>argint\<close> of it returns the argument passed. So \<^verbatim>\<open>settickets(v)\<close> sets the
  tickets of the caller to \<^verbatim>\<open>v\<close> and returns \<^verbatim>\<open>v\<close>, and \<^verbatim>\<open>kill(v)\<close> kills the process with pid \<^verbatim>\<open>v\<close>.
\<close>

theorem user_call_reaches_handler:
  assumes "length args = user_args n" and "4 * int (Suc (length args)) \<le> uint (tf_esp tf)" and "\<forall>v\<in>set args. in_int v"
    and "ucall n args ra (tf, mem) = (tf', mem')" and "me < length (ptable s)" and "p_tf (ptable s ! me) = tf'"
    and "umem E s me = mem'" and "tf_esp tf \<le> p_sz (ptable s ! me)"
  shows "n \<in> set usys_stubs \<and> (\<forall>i<user_args n. argint (umem E s me) (ptable s ! me) (int i) = Some (args ! i)) \<and>
    syscall E H me s = (case run_handler E H n me s of
        Inl e \<Rightarrow> Inl e
      | Inr (WReturn r, t) \<Rightarrow> Inr (WReturn r, [], set_eax me r t)
      | Inr (WSleep, t) \<Rightarrow> Inr (WSleep, [], t)) \<and>
    (n = SYS_settickets \<longrightarrow> syscall E H me s =
       Inr (WReturn (args ! 0), [], set_eax me (args ! 0) (upd_proc me (\<lambda>p. p\<lparr>p_tickets := args ! 0\<rparr>) s))) \<and>
    (n = SYS_kill \<longrightarrow> syscall E H me s =
       (case kill E (args ! 0) s of (r, t) \<Rightarrow> Inr (WReturn r, [], set_eax me r t)))"
proof -
  have arg: "argint (umem E s me) (ptable s ! me) (int i) = Some (args ! i)" if "i < user_args n" for i
    unfolding assms(7) using that assms(1) by (intro ucall_argint[OF assms(2-4) _ assms(6,8)]) simp
  have "sint (tf_eax (p_tf (ptable s ! me))) = sysno_num n"
    unfolding assms(6) ucall_trap(2)[OF assms(2-4)] by (cases n) simp_all
  then have l: "lookup_syscall (sint (tf_eax (p_tf (ptable s ! me)))) = Some n" by (simp add: lookup_syscall_iff)
  have call: "syscall E H me s = (case run_handler E H n me s of
        Inl e \<Rightarrow> Inl e
      | Inr (WReturn r, t) \<Rightarrow> Inr (WReturn r, [], set_eax me r t)
      | Inr (WSleep, t) \<Rightarrow> Inr (WSleep, [], t))" by (simp add: syscall_def l)
  show ?thesis
    using arg[of 0] call stubs_complete(2)[of n] assms(5)
    by (auto simp: arg sys_settickets_def sys_kill_def ret_def table_simps case_prod_unfold)
qed

text \<open>The first process of the simulated machine calls \<^verbatim>\<open>settickets(80)\<close>.\<close>

definition ucall_frame :: umach where
  "ucall_frame = ucall SYS_settickets [80] 100 (p_tf (ptable sim_run ! 0), \<lambda>_. 0)"

definition ucall_state :: "sim kstate" where
  "ucall_state = upd_proc 0 (\<lambda>p. p\<lparr>p_tf := fst ucall_frame\<rparr>) sim_run"

theorem user_call_reaches_handler_witness:
  "\<exists>u. syscall (sim_env\<lparr>e_umem := (\<lambda>d x. snd ucall_frame)\<rparr>) (\<lambda>n me s. ret (- 1, s)) 0 ucall_state = Inr (WReturn 80, [], u) \<and>
     p_tickets (ptable u ! 0) = 80"
proof -
  let ?E = "sim_env\<lparr>e_umem := (\<lambda>d x. snd ucall_frame)\<rparr>"
  have h: "tf_esp (p_tf (ptable sim_run ! 0)) = 4096" "p_sz (ptable ucall_state ! 0) = 4096" "length (ptable sim_run) = 3"
    by code_simp+
  have c: "ucall SYS_settickets [80] 100 (p_tf (ptable sim_run ! 0), \<lambda>_. 0) = (fst ucall_frame, snd ucall_frame)"
    by (simp add: ucall_frame_def)
  have p: "p_tf (ptable ucall_state ! 0) = fst ucall_frame" "0 < length (ptable ucall_state)"
    using h(3) by (simp_all add: ucall_state_def table_simps)
  have m: "umem ?E ucall_state 0 = snd ucall_frame" by (simp add: umem_def)
  have v: "\<forall>v\<in>set [80]. in_int v" by (simp add: in_int_def INT_MIN_def INT_MAX_def)
  have g: "length [80 :: int] = user_args SYS_settickets" "4 * int (Suc (length [80 :: int])) \<le> uint (tf_esp (p_tf (ptable sim_run ! 0)))"
    "tf_esp (p_tf (ptable sim_run ! 0)) \<le> p_sz (ptable ucall_state ! 0)" by (simp_all add: h)
  have "syscall ?E (\<lambda>n me s. ret (- 1, s)) 0 ucall_state =
      Inr (WReturn ([80] ! 0), [], set_eax 0 ([80] ! 0) (upd_proc 0 (\<lambda>p. p\<lparr>p_tickets := [80] ! 0\<rparr>) ucall_state))"
    using user_call_reaches_handler[OF g(1,2) v c p(2,1) m g(3), of "\<lambda>n me s. ret (- 1, s)"] by blast
  then show ?thesis using p(2) by (simp add: set_eax_def table_simps)
qed

end
