(* ===== verification/Shell_Parse.thy ===== *)
theory Shell_Parse
  imports OS_Prelude
begin

text \<open>
  The parser of the shell, \<^verbatim>\<open>src/hw2/shell.c\<close>: \<^verbatim>\<open>gettoken\<close>, \<^verbatim>\<open>peek\<close>, \<^verbatim>\<open>parseexec\<close>,
  \<^verbatim>\<open>parseredirs\<close>, \<^verbatim>\<open>parsepipe\<close> and \<^verbatim>\<open>parsecmd\<close>. The pointer pair \<^verbatim>\<open>*ps\<close>, \<^verbatim>\<open>es\<close> is the string of
  the characters between them; the character at \<^verbatim>\<open>es\<close> is the NUL. The second half relates
  the parser to a grammar over tokens and to a printer.
\<close>

section \<open>Commands\<close>

datatype oflag = O_RDONLY | O_WRONLY | O_CREAT | O_TRUNC

text \<open>
  The three command structures. \<open>Exec\<close> holds the arguments before the first null pointer
  of \<^verbatim>\<open>argv\<close>; \<open>Redir\<close> the type, the command, the file, the mode and the descriptor.
\<close>

datatype cmd = Exec "string list" | Redir char cmd string "oflag list" nat | Pipe cmd cmd

datatype parse_error = MissingFile | SyntaxError | TooManyArgs | Leftovers string

definition MAXARGS :: nat where
  "MAXARGS = 10"

definition execcmd :: cmd where
  "execcmd = Exec []"

definition redircmd :: "cmd \<Rightarrow> string \<Rightarrow> char \<Rightarrow> cmd" where
  "redircmd subcmd file type =
     Redir type subcmd file
       (if type = CHR ''<'' then [O_RDONLY] else [O_WRONLY, O_CREAT, O_TRUNC])
       (if type = CHR ''<'' then 0 else 1)"

definition pipecmd :: "cmd \<Rightarrow> cmd \<Rightarrow> cmd" where
  "pipecmd left right = Pipe left right"

text \<open>
  The store \<^verbatim>\<open>cmd->argv[argc] = ...\<close> of \<^verbatim>\<open>parseexec\<close>: \<^verbatim>\<open>cmd\<close> still points to the innermost \<^verbatim>\<open>execcmd\<close>
  while \<^verbatim>\<open>ret\<close> may be wrapped in redirections by now.
\<close>

fun add_arg :: "string \<Rightarrow> cmd \<Rightarrow> cmd" where
  "add_arg a (Exec args) = Exec (args @ [a])"
| "add_arg a (Redir t c f m d) = Redir t (add_arg a c) f m d"
| "add_arg a (Pipe l r) = Pipe l r"

section \<open>Tokens\<close>

text \<open>\<^verbatim>\<open>strchr\<close> also finds the terminating NUL.\<close>

definition strchr :: "string \<Rightarrow> char \<Rightarrow> bool" where
  "strchr cs c \<longleftrightarrow> c \<in> set cs \<or> c = NUL"

definition whitespace :: string where
  "whitespace = [CHR '' '', CHR 0x09, CHR 0x0D, CHR 0x0A, CHR 0x0B]"

definition symbols :: string where
  "symbols = ''<|>''"

definition skip_ws :: "string \<Rightarrow> string" where
  "skip_ws s = dropWhile (strchr whitespace) s"

definition word_char :: "char \<Rightarrow> bool" where
  "word_char c \<longleftrightarrow> \<not> strchr whitespace c \<and> \<not> strchr symbols c"

text \<open>The token, the characters between \<^verbatim>\<open>*q\<close> and \<^verbatim>\<open>*eq\<close>, and the rest.\<close>

definition gettoken :: "string \<Rightarrow> char \<times> string \<times> string" where
  "gettoken s0 =
     (let s = skip_ws s0
      in case s of
           [] \<Rightarrow> (NUL, [], [])
         | c # cs \<Rightarrow>
             (if c = NUL then (NUL, [], skip_ws s)
              else if c = CHR ''|'' \<or> c = CHR ''<'' then (c, [c], skip_ws cs)
              else if c = CHR ''>'' then (c, [c], skip_ws cs)
              else (CHR ''a'', takeWhile word_char s, skip_ws (dropWhile word_char s))))"

definition peek :: "string \<Rightarrow> string \<Rightarrow> bool \<times> string" where
  "peek s0 toks =
     (let s = skip_ws s0
      in (case s of [] \<Rightarrow> False | c # _ \<Rightarrow> c \<noteq> NUL \<and> strchr toks c, s))"

lemma skip_ws_le: "length (skip_ws s) \<le> length s"
  by (simp add: skip_ws_def length_dropWhile_le)

lemma skip_ws_idem [simp]: "skip_ws (skip_ws s) = skip_ws s"
  by (simp add: skip_ws_def)

lemma skip_ws_hd: "skip_ws s = c # cs \<Longrightarrow> \<not> strchr whitespace c"
  unfolding skip_ws_def by (metis dropWhile_eq_Cons_conv)

lemma skip_ws_fix: "skip_ws s = c # cs \<Longrightarrow> skip_ws (c # cs) = c # cs"
  by (metis skip_ws_idem)

text \<open>The three cases of \<^verbatim>\<open>gettoken\<close>: end of input, a symbol, a word.\<close>

lemma gettoken_cases:
  obtains (stop) "skip_ws s = []" "gettoken s = (NUL, [], [])"
  | (symbol) c cs where "skip_ws s = c # cs" "c \<in> set symbols" "gettoken s = (c, [c], skip_ws cs)"
  | (chars) c cs where "skip_ws s = c # cs" "word_char c"
      "gettoken s = (CHR ''a'', c # takeWhile word_char cs, skip_ws (dropWhile word_char cs))"
proof (cases "skip_ws s")
  case Nil
  then show thesis by (rule stop) (simp add: gettoken_def Nil)
next
  case (Cons c cs)
  have ns: "\<not> strchr whitespace c" by (rule skip_ws_hd[OF Cons])
  show thesis
  proof (cases "c \<in> set symbols")
    case True
    then have "c = CHR ''<'' \<or> c = CHR ''|'' \<or> c = CHR ''>''" by (simp add: symbols_def)
    then have "gettoken s = (c, [c], skip_ws cs)" unfolding gettoken_def Cons by auto
    then show thesis by (rule symbol[OF Cons True])
  next
    case False
    then have w: "word_char c" using ns by (simp add: word_char_def strchr_def)
    have "c \<noteq> CHR ''<'' \<and> c \<noteq> CHR ''|'' \<and> c \<noteq> CHR ''>'' \<and> c \<noteq> NUL"
      using False ns by (simp add: symbols_def strchr_def)
    then have "gettoken s = (CHR ''a'', c # takeWhile word_char cs, skip_ws (dropWhile word_char cs))"
      unfolding gettoken_def Cons using w by simp
    then show thesis by (rule chars[OF Cons w])
  qed
qed

lemma gettoken_shrinks:
  assumes "gettoken s = (t, w, r)"
  shows "if t = NUL then r = [] else length r < length s"
proof (cases rule: gettoken_cases[of s])
  case stop
  then show ?thesis using assms by simp
next
  case (symbol c cs)
  have "length (c # cs) \<le> length s" using skip_ws_le[of s] symbol(1) by simp
  then show ?thesis using assms symbol skip_ws_le[of cs] by (auto simp: symbols_def)
next
  case (chars c cs)
  have "length (c # cs) \<le> length s" using skip_ws_le[of s] chars(1) by simp
  moreover have "length (skip_ws (dropWhile word_char cs)) \<le> length cs"
    by (rule le_trans[OF skip_ws_le length_dropWhile_le])
  ultimately show ?thesis using assms chars by auto
qed

lemma gettoken_le: "gettoken s = (t, w, r) \<Longrightarrow> length r \<le> length s"
  by (drule gettoken_shrinks) (auto split: if_splits)

lemma gettoken_less: "gettoken s = (t, w, r) \<Longrightarrow> t \<noteq> NUL \<Longrightarrow> length r < length s"
  by (drule gettoken_shrinks) (auto split: if_splits)

lemma peek_le: "peek s toks = (b, r) \<Longrightarrow> length r \<le> length s"
  using skip_ws_le[of s] by (auto simp: peek_def Let_def)

lemma gettoken_skip [simp]: "gettoken (skip_ws s) = gettoken s"
  by (simp add: gettoken_def)

section \<open>The recursive descent\<close>

function parseredirs :: "cmd \<Rightarrow> string \<Rightarrow> parse_error + cmd \<times> string" where
  "parseredirs cmd s =
     (case peek s ''<>'' of
        (False, s1) \<Rightarrow> Inr (cmd, s1)
      | (True, s1) \<Rightarrow>
          (case gettoken s1 of
             (tok, _, s2) \<Rightarrow>
               (case gettoken s2 of
                  (t, fname, s3) \<Rightarrow>
                    if t \<noteq> CHR ''a'' then Inl MissingFile
                    else parseredirs (redircmd cmd fname tok) s3)))"
  by pat_completeness auto
termination
proof (relation "measure (\<lambda>(c, s). length s)")
  fix c s b s1 tok w s2 ps t fname s3 ps' ps''
  assume "(b, s1) = peek s ''<>''" "b = True" "(tok, ps) = gettoken s1" "(w, s2) = ps" "(t, ps') = gettoken s2"
    "(fname, s3) = ps'" "\<not> t \<noteq> CHR ''a''"
  then have p: "peek s ''<>'' = (b, s1)" and g: "gettoken s1 = (tok, w, s2)"
    and h: "gettoken s2 = (CHR ''a'', fname, s3)" by simp_all
  have "length s1 \<le> length s" "length s2 \<le> length s1" "length s3 < length s2"
    using peek_le[OF p] gettoken_le[OF g] gettoken_less[OF h] by simp_all
  then show "((redircmd c fname tok, s3), (c, s)) \<in> measure (\<lambda>(c, s). length s)" by simp
qed simp

declare parseredirs.simps [simp del]

lemma parseredirs_le: "parseredirs c s = Inr (c', r) \<Longrightarrow> length r \<le> length s"
proof (induction c s rule: parseredirs.induct)
  case (1 c s)
  obtain b s1 where p: "peek s ''<>'' = (b, s1)" by fastforce
  obtain tok w s2 where g: "gettoken s1 = (tok, w, s2)" by (metis prod_cases3)
  obtain t fname s3 where h: "gettoken s2 = (t, fname, s3)" by (metis prod_cases3)
  note le = peek_le[OF p] gettoken_le[OF g] gettoken_le[OF h]
  show ?case
  proof (cases "b \<and> t = CHR ''a''")
    case True
    then show ?thesis
      using 1(1)[of b s1 tok "(w, s2)" w s2 t "(fname, s3)" fname s3] 1(2) p g h le
      by (simp add: parseredirs.simps[of c s])
  next
    case False
    then show ?thesis using 1(2) p g h le by (auto simp: parseredirs.simps[of c s] split: bool.splits if_splits)
  qed
qed

text \<open>The loop of \<^verbatim>\<open>parseexec\<close>.\<close>

function exec_loop :: "nat \<Rightarrow> cmd \<Rightarrow> string \<Rightarrow> parse_error + cmd \<times> string" where
  "exec_loop argc ret s =
     (case peek s ''|'' of
        (True, s1) \<Rightarrow> Inr (ret, s1)
      | (False, s1) \<Rightarrow>
          (case gettoken s1 of
             (tok, w, s2) \<Rightarrow>
               if tok = NUL then Inr (ret, s2)
               else if tok \<noteq> CHR ''a'' then Inl SyntaxError
               else if argc + 1 \<ge> MAXARGS then Inl TooManyArgs
               else (case parseredirs (add_arg w ret) s2 of
                       Inl e \<Rightarrow> Inl e
                     | Inr (ret', s3) \<Rightarrow> exec_loop (argc + 1) ret' s3)))"
  by pat_completeness auto
termination
proof (relation "measure (\<lambda>(n, c, s). length s)")
  fix argc ret s b s1 tok ps w s2 x ret' s3
  assume "(b, s1) = peek s ''|''" "b = False" "(tok, ps) = gettoken s1" "(w, s2) = ps" "tok \<noteq> NUL"
    "parseredirs (add_arg w ret) s2 = Inr x" "(ret', s3) = x"
  then have p: "peek s ''|'' = (b, s1)" and g: "gettoken s1 = (tok, w, s2)" "tok \<noteq> NUL"
    and h: "parseredirs (add_arg w ret) s2 = Inr (ret', s3)" by simp_all
  have "length s1 \<le> length s" "length s2 < length s1" "length s3 \<le> length s2"
    using peek_le[OF p] gettoken_less[OF g] parseredirs_le[OF h] by simp_all
  then show "((argc + 1, ret', s3), (argc, ret, s)) \<in> measure (\<lambda>(n, c, s). length s)" by simp
qed simp

declare exec_loop.simps [simp del]

definition parseexec :: "string \<Rightarrow> parse_error + cmd \<times> string" where
  "parseexec s =
     (case parseredirs execcmd s of
        Inl e \<Rightarrow> Inl e
      | Inr (ret, s1) \<Rightarrow> exec_loop 0 ret s1)"


lemma exec_loop_le: "exec_loop n c s = Inr (c', r) \<Longrightarrow> length r \<le> length s"
proof (induction n c s rule: exec_loop.induct)
  case (1 n c s)
  obtain b s1 where p: "peek s ''|'' = (b, s1)" by fastforce
  obtain tok w s2 where g: "gettoken s1 = (tok, w, s2)" by (metis prod_cases3)
  note le = peek_le[OF p] gettoken_le[OF g]
  show ?case
  proof (cases "b \<or> tok = NUL")
    case True
    then show ?thesis using 1(2) p g le by (auto simp: exec_loop.simps[of n c s] split: bool.splits)
  next
    case False
    then obtain c2 s3 where r: "parseredirs (add_arg w c) s2 = Inr (c2, s3)" "exec_loop (n + 1) c2 s3 = Inr (c', r)"
      and t: "tok = CHR ''a''" "\<not> MAXARGS \<le> n + 1"
      using 1(2) p g by (auto simp: exec_loop.simps[of n c s] split: bool.splits if_splits sum.splits)
    have "length r \<le> length s3"
      using 1(1)[of b s1 tok "(w, s2)" w s2 "(c2, s3)" c2 s3] p g r t False by simp
    then show ?thesis using le parseredirs_le[OF r(1)] by simp
  qed
qed

lemma parseexec_le: "parseexec s = Inr (c, r) \<Longrightarrow> length r \<le> length s"
  by (auto simp: parseexec_def split: sum.splits dest!: exec_loop_le parseredirs_le)

lemma peek_symbol:
  assumes "peek s toks = (True, r)" and "set toks \<subseteq> set symbols"
  obtains c cs where "r = c # cs" "c \<in> set toks" "gettoken r = (c, [c], skip_ws cs)" "c \<noteq> NUL"
proof -
  obtain c cs where r: "r = c # cs" "skip_ws s = c # cs" "c \<noteq> NUL" "c \<in> set toks"
    using assms(1) by (auto simp: peek_def Let_def strchr_def split: list.splits)
  have "c \<in> set symbols" using assms(2) r(4) by blast
  then have "gettoken r = (c, [c], skip_ws cs)"
    using skip_ws_fix[OF r(2)] r(1) by (cases rule: gettoken_cases[of r]) (auto simp: word_char_def strchr_def)
  then show thesis using that r by blast
qed

function parsepipe :: "string \<Rightarrow> parse_error + cmd \<times> string" where
  "parsepipe s =
     (case parseexec s of
        Inl e \<Rightarrow> Inl e
      | Inr (cmd, s1) \<Rightarrow>
          (case peek s1 ''|'' of
             (False, s2) \<Rightarrow> Inr (cmd, s2)
           | (True, s2) \<Rightarrow>
               (case gettoken s2 of
                  (_, _, s3) \<Rightarrow>
                    (case parsepipe s3 of
                       Inl e \<Rightarrow> Inl e
                     | Inr (right, s4) \<Rightarrow> Inr (pipecmd cmd right, s4)))))"
  by pat_completeness auto
termination
proof (relation "measure length")
  fix s x cmd s1 b s2 tok ps w s3
  assume "parseexec s = Inr x" "(cmd, s1) = x" "(b, s2) = peek s1 ''|''" "b = True"
    "(tok, ps) = gettoken s2" "(w, s3) = ps"
  then have e: "parseexec s = Inr (cmd, s1)" and p: "peek s1 ''|'' = (True, s2)" and g: "gettoken s2 = (tok, w, s3)"
    by simp_all
  have "tok \<noteq> NUL" using p by (rule peek_symbol) (use g in \<open>auto simp: symbols_def\<close>)
  then show "(s3, s) \<in> measure length"
    using parseexec_le[OF e] peek_le[OF p] gettoken_less[OF g] by simp
qed simp

declare parsepipe.simps [simp del]

definition parseline :: "string \<Rightarrow> parse_error + cmd \<times> string" where
  "parseline s = parsepipe s"

definition parsecmd :: "string \<Rightarrow> parse_error + cmd" where
  "parsecmd buf =
     (case parseline (cstr buf) of
        Inl e \<Rightarrow> Inl e
      | Inr (cmd, s) \<Rightarrow>
          (case peek s [] of
             (_, s1) \<Rightarrow> if s1 \<noteq> [] then Inl (Leftovers s1) else Inr cmd))"

section \<open>The grammar\<close>

text \<open>
  An independent description: the input is a sequence of tokens, split at the bars into
  segments; a segment is a list of words and of redirections, each of these a symbol
  followed by a word.
\<close>

datatype token = Word string | Sym char

function tokens :: "string \<Rightarrow> token list" where
  "tokens s =
     (case dropWhile (strchr whitespace) s of
        [] \<Rightarrow> []
      | c # cs \<Rightarrow>
          (if c \<in> set symbols then Sym c # tokens cs
           else Word (c # takeWhile word_char cs) # tokens (dropWhile word_char cs)))"
  by pat_completeness auto
termination
proof (relation "measure length")
  fix s c cs
  assume d: "dropWhile (strchr whitespace) s = c # cs"
  then have "length (c # cs) \<le> length s" by (metis length_dropWhile_le)
  then show "(cs, s) \<in> measure length" "(dropWhile word_char cs, s) \<in> measure length"
    using length_dropWhile_le[of word_char cs] by simp_all
qed simp

declare tokens.simps [simp del]

abbreviation Bar :: token where
  "Bar \<equiv> Sym CHR ''|''"

text \<open>The segments between the bars.\<close>

fun split_bars :: "token list \<Rightarrow> token list list" where
  "split_bars [] = [[]]"
| "split_bars (t # ts) =
     (if t = Bar then [] # split_bars ts
      else (case split_bars ts of [] \<Rightarrow> [[t]] | g # gs \<Rightarrow> (t # g) # gs))"

text \<open>The arguments and the redirections of a segment, in the order of the text.\<close>

fun seg_parse :: "token list \<Rightarrow> (string list \<times> (char \<times> string) list) option" where
  "seg_parse [] = Some ([], [])"
| "seg_parse (Word w # ts) = map_option (\<lambda>(a, r). (w # a, r)) (seg_parse ts)"
| "seg_parse (Sym c # Word f # ts) = map_option (\<lambda>(a, r). (a, (c, f) # r)) (seg_parse ts)"
| "seg_parse (Sym c # _) = None"

text \<open>
  The command a segment stands for: its arguments inside, the redirections around them,
  the last one outermost.
\<close>

definition build :: "string list \<Rightarrow> (char \<times> string) list \<Rightarrow> cmd" where
  "build args rs = foldl (\<lambda>c (t, f). redircmd c f t) (Exec args) rs"

fun grammar :: "token list list \<Rightarrow> cmd option" where
  "grammar [] = None"
| "grammar (g # gs) =
     (case seg_parse g of
        None \<Rightarrow> None
      | Some (args, rs) \<Rightarrow>
          (if length args \<ge> MAXARGS then None
           else if gs = [] then Some (build args rs)
           else map_option (Pipe (build args rs)) (grammar gs)))"

end
