(* ===== verification/Shell_Grammar.thy ===== *)
theory Shell_Grammar
  imports Shell_Parse
begin

text \<open>
  The shell's parser implements the token grammar of \<open>Shell_Parse\<close>, and parses back what a
  printer writes.
\<close>

section \<open>Tokens and the character level\<close>

lemma tokens_skip [simp]: "tokens (skip_ws s) = tokens s"
  unfolding tokens.simps[of s] tokens.simps[of "skip_ws s"] by (simp add: skip_ws_def)

lemma tokens_Nil_iff: "tokens s = [] \<longleftrightarrow> skip_ws s = []"
  unfolding tokens.simps[of s] skip_ws_def by (simp split: list.split del: dropWhile_eq_Nil_conv)

lemma tokens_Nil: "skip_ws s = [] \<Longrightarrow> tokens s = []"
  by (simp add: tokens_Nil_iff)

lemma tokens_Sym: "skip_ws s = c # cs \<Longrightarrow> c \<in> set symbols \<Longrightarrow> tokens s = Sym c # tokens cs"
  by (simp add: tokens.simps[of s] skip_ws_def)

lemma tokens_Word:
  "skip_ws s = c # cs \<Longrightarrow> word_char c \<Longrightarrow> tokens s = Word (c # takeWhile word_char cs) # tokens (dropWhile word_char cs)"
  by (simp add: tokens.simps[of s] skip_ws_def word_char_def strchr_def)

lemma gettoken_tokens:
  "gettoken s =
     (case tokens s of
        [] \<Rightarrow> (NUL, [], [])
      | Sym c # _ \<Rightarrow> (c, [c], snd (snd (gettoken s)))
      | Word w # _ \<Rightarrow> (CHR ''a'', w, snd (snd (gettoken s))))"
  by (cases rule: gettoken_cases[of s]) (simp_all add: tokens_Nil tokens_Sym tokens_Word)

lemma gettoken_rest: "tokens (snd (snd (gettoken s))) = tl (tokens s)"
proof (cases rule: gettoken_cases[of s])
  case stop
  then show ?thesis by (simp add: tokens_Nil_iff[THEN iffD2] skip_ws_def)
qed (simp_all add: tokens_Sym tokens_Word)

lemma peek_tokens:
  assumes "set toks \<subseteq> set symbols"
  shows "peek s toks = ((case tokens s of Sym c # _ \<Rightarrow> c \<in> set toks | _ \<Rightarrow> False), skip_ws s)"
proof (cases rule: gettoken_cases[of s])
  case stop
  then show ?thesis by (simp add: peek_def tokens_Nil_iff[THEN iffD2])
next
  case (symbol c cs)
  then show ?thesis by (auto simp: peek_def tokens_Sym strchr_def symbols_def)
next
  case (chars c cs)
  then show ?thesis using assms by (auto simp: peek_def tokens_Word strchr_def word_char_def)
qed

lemma tokens_symbols: "Sym c \<in> set (tokens s) \<Longrightarrow> c \<in> set symbols"
proof (induction s rule: tokens.induct)
  case (1 s)
  show ?case
  proof (cases rule: gettoken_cases[of s])
    case stop
    then have "tokens s = []" by (simp add: tokens_Nil_iff)
    then show ?thesis using 1(3) by simp
  next
    case (symbol d cs)
    then show ?thesis using 1 by (auto simp: tokens_Sym skip_ws_def)
  next
    case (chars d cs)
    then show ?thesis using 1 by (auto simp: tokens_Word skip_ws_def word_char_def strchr_def)
  qed
qed

section \<open>Redirections\<close>

text \<open>The redirections a token list starts with.\<close>

fun lead :: "token list \<Rightarrow> ((char \<times> string) list \<times> token list) option" where
  "lead (Sym c # ts) =
     (if c = CHR ''|'' then Some ([], Sym c # ts)
      else (case ts of
              Word f # us \<Rightarrow> map_option (\<lambda>(r, vs). ((c, f) # r, vs)) (lead us)
            | _ \<Rightarrow> None))"
| "lead ts = Some ([], ts)"

definition wrap :: "cmd \<Rightarrow> (char \<times> string) list \<Rightarrow> cmd" where
  "wrap c rs = foldl (\<lambda>c (t, f). redircmd c f t) c rs"

lemma wrap_simps [simp]: "wrap c [] = c" "wrap c ((t, f) # rs) = wrap (redircmd c f t) rs"
  by (simp_all add: wrap_def)

lemma wrap_build: "wrap (build args rs) rs' = build args (rs @ rs')"
  by (simp add: wrap_def build_def)

lemma add_arg_build: "add_arg w (build args rs) = build (args @ [w]) rs"
proof (induction rs rule: rev_induct)
  case (snoc r rs)
  then show ?case by (cases r) (simp add: build_def redircmd_def)
qed (simp add: build_def)

text \<open>Segments: the tokens up to the first bar.\<close>

abbreviation seg_of :: "token list \<Rightarrow> token list" where
  "seg_of ts \<equiv> takeWhile (\<lambda>t. t \<noteq> Bar) ts"

abbreviation seg_rest :: "token list \<Rightarrow> token list" where
  "seg_rest ts \<equiv> dropWhile (\<lambda>t. t \<noteq> Bar) ts"

fun starts_ok :: "token list \<Rightarrow> bool" where
  "starts_ok (Sym c # _) = (c = CHR ''|'')"
| "starts_ok _ = True"

lemma lead_cases:
  obtains (over) "lead ts = Some ([], ts)" "starts_ok ts"
  | (redir) c f us where "ts = Sym c # Word f # us" "c \<noteq> CHR ''|''"
      "lead ts = map_option (\<lambda>(r, vs). ((c, f) # r, vs)) (lead us)"
  | (missing) "lead ts = None" "seg_parse (seg_of ts) = None"
proof (cases "\<exists>c us. ts = Sym c # us \<and> c \<noteq> CHR ''|''")
  case False
  then show thesis by (intro over) (cases ts rule: starts_ok.cases; simp)+
next
  case True
  then obtain c us where ts: "ts = Sym c # us" "c \<noteq> CHR ''|''" by blast
  show thesis
  proof (cases "\<exists>f vs. us = Word f # vs")
    case True
    then show thesis using redir ts by auto
  next
    case False
    have "seg_parse (seg_of ts) = None"
    proof (cases us)
      case Nil
      then show ?thesis using ts by simp
    next
      case (Cons u vs)
      then obtain d where "u = Sym d" using False by (cases u) auto
      then show ?thesis using Cons ts by simp
    qed
    then show thesis using False ts by (intro missing) (auto split: list.splits token.splits)
  qed
qed

lemma lead_Some:
  "lead ts = Some (r, us) \<Longrightarrow> starts_ok us \<and> seg_rest ts = seg_rest us \<and>
     seg_parse (seg_of ts) = map_option (\<lambda>(a, r'). (a, r @ r')) (seg_parse (seg_of us))"
proof (induction ts arbitrary: r rule: length_induct)
  case (1 ts)
  show ?case
  proof (cases rule: lead_cases[of ts])
    case over
    then show ?thesis using 1(2) by (simp add: option.map_ident case_prod_beta)
  next
    case (redir c f vs)
    then obtain r' where r: "r = (c, f) # r'" "lead vs = Some (r', us)" using 1(2) by auto
    have "starts_ok us \<and> seg_rest vs = seg_rest us \<and>
      seg_parse (seg_of vs) = map_option (\<lambda>(a, r''). (a, r' @ r'')) (seg_parse (seg_of us))"
      using 1(1)[rule_format, of vs r'] r(2) redir(1) by simp
    then show ?thesis using redir(1,2) r(1) by (cases "seg_parse (seg_of us)") auto
  qed (use 1(2) in simp)
qed

lemma lead_None: "lead ts = None \<Longrightarrow> seg_parse (seg_of ts) = None"
proof (induction ts rule: length_induct)
  case (1 ts)
  show ?case
  proof (cases rule: lead_cases[of ts])
    case (redir c f us)
    then show ?thesis using 1 by auto
  qed (use 1(2) in simp_all)
qed

lemma parseredirs_lead:
  "case lead (tokens s) of
     None \<Rightarrow> parseredirs c s = Inl MissingFile
   | Some (r, us) \<Rightarrow> (\<exists>s'. parseredirs c s = Inr (wrap c r, s') \<and> tokens s' = us)"
proof (induction c s rule: parseredirs.induct)
  case (1 c s)
  have pk: "peek s ''<>'' = ((case tokens s of Sym c # _ \<Rightarrow> c \<in> set ''<>'' | _ \<Rightarrow> False), skip_ws s)"
    by (rule peek_tokens) (auto simp: symbols_def)
  show ?case
  proof (cases "\<exists>t ts. tokens s = Sym t # ts \<and> t \<noteq> CHR ''|''")
    case False
    have "lead (tokens s) = Some ([], tokens s)"
      using False by (cases "tokens s" rule: lead.cases) (simp_all split: list.splits token.splits)
    moreover have "\<not> fst (peek s ''<>'')" using False by (auto simp: pk split: list.splits token.splits)
    ultimately show ?thesis using pk by (simp add: parseredirs.simps[of c s] split: bool.splits)
  next
    case True
    then obtain t ts where l: "tokens s = Sym t # ts" "t \<noteq> CHR ''|''" by blast
    then have t: "t \<in> set ''<>''" using tokens_symbols[of t s] by (auto simp: symbols_def)
    then have pk': "peek s ''<>'' = (True, skip_ws s)" using pk l by simp
    obtain s2 where g: "gettoken (skip_ws s) = (t, [t], s2)" using gettoken_tokens[of s] l by auto
    have l2: "tokens s2 = ts" using gettoken_rest[of s] g l by simp
    obtain t3 f s3 where h: "gettoken s2 = (t3, f, s3)" by (metis prod_cases3)
    show ?thesis
    proof (cases "\<exists>w us. ts = Word w # us")
      case True
      then obtain w us where ts: "ts = Word w # us" by blast
      then have h2: "t3 = CHR ''a''" "f = w" "tokens s3 = us"
        using gettoken_tokens[of s2] gettoken_rest[of s2] h l2 by auto
      note ih = 1(1)[OF pk'[symmetric] refl g[symmetric] refl h[symmetric] refl, unfolded h2]
      have step: "parseredirs c s = parseredirs (redircmd c w t) s3"
        using pk' g h h2 by (simp add: parseredirs.simps[of c s])
      show ?thesis using ih l ts by (auto simp: step split: option.splits)
    next
      case False
      then have ld: "lead (tokens s) = None" using l by (auto split: list.splits token.splits)
      have "t3 \<noteq> CHR ''a''"
      proof (cases ts)
        case Nil
        then show ?thesis using gettoken_tokens[of s2] h l2 by simp
      next
        case (Cons u us)
        then obtain x where u: "u = Sym x" using False by (cases u) auto
        then have "t3 = x" using gettoken_tokens[of s2] h l2 Cons by simp
        moreover have "x \<in> set symbols" using tokens_symbols[of x s2] l2 Cons u by simp
        ultimately show ?thesis by (auto simp: symbols_def)
      qed
      then show ?thesis using pk' g h ld by (simp add: parseredirs.simps[of c s])
    qed
  qed
qed


section \<open>Segments and pipelines\<close>

text \<open>What parsing a segment must return: the command and the rest, or one of two errors.\<close>

definition seg_result :: "string list \<Rightarrow> (char \<times> string) list \<Rightarrow> token list \<Rightarrow> parse_error + cmd \<times> string \<Rightarrow> bool" where
  "seg_result args rs ts res \<longleftrightarrow>
     (case seg_parse (seg_of ts) of
        Some (a, r) \<Rightarrow>
          if length args + length a < MAXARGS
          then \<exists>s'. res = Inr (build (args @ a) (rs @ r), s') \<and> tokens s' = seg_rest ts
          else res = Inl TooManyArgs
      | None \<Rightarrow> res = Inl TooManyArgs \<or> res = Inl MissingFile)"

lemma seg_result_lead:
  assumes "lead ts = Some (r, us)" and "seg_result args (rs @ r) us res"
  shows "seg_result args rs ts res"
  using lead_Some[OF assms(1)] assms(2) unfolding seg_result_def
  by (cases "seg_parse (seg_of us)") (auto split: prod.splits)

lemma seg_result_word:
  assumes "seg_result (args @ [w]) rs ts res"
  shows "seg_result args rs (Word w # ts) res"
  using assms unfolding seg_result_def by (cases "seg_parse (seg_of ts)") (auto split: prod.splits if_splits)

lemma lead_length: "lead ts = Some (r, us) \<Longrightarrow> length us \<le> length ts"
proof (induction ts arbitrary: r rule: length_induct)
  case (1 ts)
  show ?case
  proof (cases rule: lead_cases[of ts])
    case (redir c f vs)
    then obtain r' where "lead vs = Some (r', us)" using 1(2) by auto
    then have "length us \<le> length vs" using 1(1) redir(1) by simp
    then show ?thesis using redir(1) by simp
  qed (use 1(2) in simp_all)
qed

text \<open>One turn of the loop of \<^verbatim>\<open>parseexec\<close>, read off the tokens: the segment ends, or there is a word.\<close>

lemma exec_loop_stop:
  assumes "tokens s = [] \<or> tokens s = Sym CHR ''|'' # ts"
  obtains s' where "exec_loop argc ret s = Inr (ret, s')" and "tokens s' = tokens s"
proof -
  obtain tok w s2 where g: "gettoken s = (tok, w, s2)" by (metis prod_cases3)
  have pk: "peek s ''|'' = ((case tokens s of Sym c # _ \<Rightarrow> c \<in> set ''|'' | _ \<Rightarrow> False), skip_ws s)"
    by (rule peek_tokens) (auto simp: symbols_def)
  from assms show thesis
  proof
    assume t: "tokens s = []"
    then have "exec_loop argc ret s = Inr (ret, s2)" "tokens s2 = []"
      using pk g gettoken_tokens[of s] gettoken_rest[of s] by (simp_all add: exec_loop.simps[of argc ret s])
    then show thesis using that t by simp
  next
    assume t: "tokens s = Sym CHR ''|'' # ts"
    then have "exec_loop argc ret s = Inr (ret, skip_ws s)" using pk by (simp add: exec_loop.simps[of argc ret s])
    then show thesis using that by simp
  qed
qed

lemma exec_loop_word:
  assumes t: "tokens s = Word v # ts" and ret: "ret = build args rs"
  obtains (many) "argc + 1 \<ge> MAXARGS" "exec_loop argc ret s = Inl TooManyArgs"
  | (bad) "lead ts = None" "exec_loop argc ret s = Inl MissingFile"
  | (more) r us s' where "argc + 1 < MAXARGS" "lead ts = Some (r, us)" "tokens s' = us"
      "exec_loop argc ret s = exec_loop (argc + 1) (build (args @ [v]) (rs @ r)) s'"
proof -
  obtain tok w s2 where g: "gettoken s = (tok, w, s2)" by (metis prod_cases3)
  have g2: "tok = CHR ''a''" "w = v" "tokens s2 = ts"
    using gettoken_tokens[of s] gettoken_rest[of s] g t by simp_all
  have pk: "peek s ''|'' = (False, skip_ws s)" using peek_tokens[of "''|''" s] t by (simp add: symbols_def)
  have arg: "add_arg w ret = build (args @ [v]) rs" using ret g2 by (simp add: add_arg_build)
  have red: "case lead ts of
      None \<Rightarrow> parseredirs (add_arg w ret) s2 = Inl MissingFile
    | Some (r, us) \<Rightarrow> (\<exists>s'. parseredirs (add_arg w ret) s2 = Inr (build (args @ [v]) (rs @ r), s') \<and> tokens s' = us)"
    unfolding arg
    by (rule parseredirs_lead[where s = s2 and c = "build (args @ [v]) rs", unfolded g2(3) wrap_build])
  note step = exec_loop.simps[of argc ret s]
  show thesis
  proof (cases "argc + 1 \<ge> MAXARGS")
    case True
    then show thesis using pk g g2 by (intro many) (simp_all add: step)
  next
    case False
    then show thesis
      using red pk g g2 bad more by (cases "lead ts") (auto simp: step split: prod.splits)
  qed
qed

lemma exec_loop_seg:
  assumes "starts_ok (tokens s)" and "ret = build args rs" and "argc = length args" and "argc < MAXARGS"
  shows "seg_result args rs (tokens s) (exec_loop argc ret s)"
  using assms
proof (induction "length (tokens s)" arbitrary: s argc ret args rs rule: less_induct)
  case less
  note ret = less(3) and argc = less(4,5)
  show ?case
  proof (cases "\<exists>v ts. tokens s = Word v # ts")
    case False
    then obtain ts where t: "tokens s = [] \<or> tokens s = Sym CHR ''|'' # ts"
      using less(2) by (cases "tokens s" rule: list.exhaust; cases "hd (tokens s)") auto
    then obtain s' where "exec_loop argc ret s = Inr (ret, s')" "tokens s' = tokens s" by (rule exec_loop_stop)
    then show ?thesis using t ret argc by (auto simp: seg_result_def)
  next
    case True
    then obtain v ts where t: "tokens s = Word v # ts" by blast
    from t ret show ?thesis
    proof (cases rule: exec_loop_word[where argc = argc])
      case many
      then show ?thesis using t argc by (cases "seg_parse (seg_of ts)") (auto simp: seg_result_def)
    next
      case bad
      then show ?thesis using t lead_None[OF bad(1)] by (simp add: seg_result_def)
    next
      case (more r us s')
      have "seg_result (args @ [v]) (rs @ r) us (exec_loop (argc + 1) (build (args @ [v]) (rs @ r)) s')"
        using less(1)[of s' "build (args @ [v]) (rs @ r)" "args @ [v]" "rs @ r" "argc + 1"]
          lead_Some[OF more(2)] lead_length[OF more(2)] more t argc by simp
      then show ?thesis unfolding t more(4) by (intro seg_result_word seg_result_lead[OF more(2)])
    qed
  qed
qed

lemma parseexec_seg: "seg_result [] [] (tokens s) (parseexec s)"
proof (cases "lead (tokens s)")
  case None
  then have "parseexec s = Inl MissingFile" using parseredirs_lead[where s = s and c = execcmd] by (simp add: parseexec_def)
  then show ?thesis using lead_None[OF None] by (simp add: seg_result_def)
next
  case (Some x)
  then obtain r us where x: "lead (tokens s) = Some (r, us)" by (cases x) simp
  then obtain s1 where s1: "parseredirs execcmd s = Inr (build [] r, s1)" "tokens s1 = us"
    using parseredirs_lead[where s = s and c = execcmd] by (auto simp: execcmd_def wrap_def build_def)
  have "seg_result [] r us (exec_loop 0 (build [] r) s1)"
    using exec_loop_seg[of s1 "build [] r" "[]" r 0] lead_Some[OF x] s1(2) by (simp add: MAXARGS_def)
  then show ?thesis using s1 seg_result_lead[OF x, of "[]" "[]"] by (simp add: parseexec_def)
qed


lemma split_bars_seg:
  "split_bars ts = seg_of ts # (case seg_rest ts of [] \<Rightarrow> [] | _ # us \<Rightarrow> split_bars us)"
proof (induction ts)
  case (Cons t ts)
  then show ?case by (auto split: list.splits)
qed simp

lemma parsepipe_grammar:
  "case grammar (split_bars (tokens s)) of
     Some c \<Rightarrow> (\<exists>s'. parsepipe s = Inr (c, s') \<and> tokens s' = [])
   | None \<Rightarrow> parsepipe s = Inl TooManyArgs \<or> parsepipe s = Inl MissingFile"
proof (induction s rule: parsepipe.induct)
  case (1 s)
  note seg = parseexec_seg[of s, unfolded seg_result_def]
  note sb = split_bars_seg[of "tokens s"]
  show ?case
  proof (cases "seg_parse (seg_of (tokens s))")
    case None
    then show ?thesis using seg sb by (auto simp: parsepipe.simps[of s])
  next
    case (Some x)
    obtain a r where x: "x = (a, r)" by (cases x) simp
    show ?thesis
    proof (cases "length a < MAXARGS")
      case False
      then show ?thesis using seg sb Some x by (simp add: parsepipe.simps[of s])
    next
      case True
      then obtain s1 where s1: "parseexec s = Inr (build a r, s1)" "tokens s1 = seg_rest (tokens s)"
        using seg Some x by auto
      have pk: "peek s1 ''|'' = ((case tokens s1 of Sym c # _ \<Rightarrow> c \<in> set ''|'' | _ \<Rightarrow> False), skip_ws s1)"
        by (rule peek_tokens) (auto simp: symbols_def)
      show ?thesis
      proof (cases "tokens s1")
        case Nil
        then have "split_bars (tokens s) = [seg_of (tokens s)]" using sb s1(2) by (metis list.simps(4))
        moreover have "parsepipe s = Inr (build a r, skip_ws s1)"
          using s1(1) pk Nil by (simp add: parsepipe.simps[of s])
        ultimately show ?thesis using Some x True Nil by simp
      next
        case (Cons t us)
        then have t: "t = Bar" using s1(2) by (metis (mono_tags, lifting) dropWhile_eq_Cons_conv)
        obtain tok w s3 where g: "gettoken s1 = (tok, w, s3)" by (metis prod_cases3)
        have l3: "tokens s3 = us" using gettoken_rest[of s1] g Cons by simp
        have pk': "peek s1 ''|'' = (True, skip_ws s1)" using pk Cons t by simp
        have rest: "split_bars (tokens s) = seg_of (tokens s) # split_bars us"
          using sb s1(2) Cons by (metis (no_types, lifting) list.simps(5))
        have ne: "split_bars us \<noteq> []" using split_bars_seg[of us] by simp
        have g': "gettoken (skip_ws s1) = (tok, w, s3)" using g by simp
        note ih = 1(1)[OF s1(1) refl pk'[symmetric] refl g'[symmetric] refl, unfolded l3]
        have step: "parsepipe s = (case parsepipe s3 of Inl e \<Rightarrow> Inl e
          | Inr (right, s4) \<Rightarrow> Inr (pipecmd (build a r) right, s4))"
          using s1 pk' g by (simp add: parsepipe.simps[of s])
        show ?thesis
          using ih Some x True ne
          by (cases "grammar (split_bars us)") (auto simp: rest step pipecmd_def split: prod.splits)
      qed
    qed
  qed
qed

lemma parsecmd_result:
  "case grammar (split_bars (tokens (cstr buf))) of
     Some c \<Rightarrow> parsecmd buf = Inr c
   | None \<Rightarrow> parsecmd buf = Inl TooManyArgs \<or> parsecmd buf = Inl MissingFile"
  using parsepipe_grammar[of "cstr buf"]
  by (auto simp: parsecmd_def parseline_def peek_def tokens_Nil_iff split: option.splits)

text \<open>
  C23. The parser accepts exactly the grammar: \<^verbatim>\<open>parsecmd\<close> returns a command if and only if every segment
  between bars consists of words and of redirection symbols followed by a word, with
  fewer than ten words as arguments, and the command is the one the grammar assigns.
\<close>

theorem parsecmd_grammar:
  "parsecmd buf = Inr c \<longleftrightarrow> grammar (split_bars (tokens (cstr buf))) = Some c"
  using parsecmd_result[of buf] by (auto split: option.splits)

text \<open>
  A failing \<^verbatim>\<open>parsecmd\<close> reports a missing file or too many arguments; the messages for a syntax
  error and for leftovers are unreachable.
\<close>

theorem parsecmd_errors:
  "parsecmd buf = Inl e \<Longrightarrow> e = TooManyArgs \<or> e = MissingFile"
  using parsecmd_result[of buf] by (auto split: option.splits)

theorem parsecmd_errors_witness: "parsecmd ''cat <'' = Inl MissingFile"
proof -
  have "isl (parsecmd ''cat <'')" by code_simp
  then obtain e where e: "parsecmd ''cat <'' = Inl e" by (cases "parsecmd ''cat <''") auto
  have "e = TooManyArgs \<or> e = MissingFile" by (rule parsecmd_errors[OF e])
  moreover have "parsecmd ''cat <'' \<noteq> Inl TooManyArgs" by code_simp
  ultimately show ?thesis using e by auto
qed

text \<open>The argument vectors of a command.\<close>

fun argvs :: "cmd \<Rightarrow> string list list" where
  "argvs (Exec a) = [a]"
| "argvs (Redir t c f m d) = argvs c"
| "argvs (Pipe l r) = argvs l @ argvs r"

lemma argvs_build: "argvs (build a r) = [a]"
  by (induction r rule: rev_induct) (auto simp: build_def redircmd_def split: prod.splits)

lemma grammar_argvs: "grammar gs = Some c \<Longrightarrow> a \<in> set (argvs c) \<Longrightarrow> length a < MAXARGS"
  by (induction gs arbitrary: c) (auto simp: argvs_build split: option.splits prod.splits if_splits)

text \<open>
  No argument vector of a parsed command has more than nine arguments, so the terminating null
  pointer always fits in the array of ten.
\<close>

theorem parsed_argv_fits:
  "parsecmd buf = Inr c \<Longrightarrow> a \<in> set (argvs c) \<Longrightarrow> length a + 1 \<le> MAXARGS"
  using grammar_argvs parsecmd_result[of buf] by (fastforce split: option.splits)

theorem parsed_argv_fits_witness:
  "parsecmd ''a b | c'' = Inr (Pipe (Exec [''a'', ''b'']) (Exec [''c''])) \<and> length [''a'', ''b''] + 1 \<le> MAXARGS"
proof -
  have p: "parsecmd ''a b | c'' = Inr (Pipe (Exec [''a'', ''b'']) (Exec [''c'']))" by code_simp
  show ?thesis using parsed_argv_fits[OF p, of "[''a'', ''b'']"] p by simp
qed


section \<open>Printing and parsing back\<close>

fun print_cmd :: "cmd \<Rightarrow> string" where
  "print_cmd (Exec a) = concat (map (\<lambda>w. w @ '' '') a)"
| "print_cmd (Redir t c f m d) = print_cmd c @ t # f @ '' ''"
| "print_cmd (Pipe l r) = print_cmd l @ ''|'' @ print_cmd r"

definition wf_word :: "string \<Rightarrow> bool" where
  "wf_word w \<longleftrightarrow> w \<noteq> [] \<and> list_all word_char w"

text \<open>The commands the parser can produce.\<close>

fun wf_simple :: "cmd \<Rightarrow> bool" where
  "wf_simple (Exec a) \<longleftrightarrow> list_all wf_word a \<and> length a < MAXARGS"
| "wf_simple (Redir t c f m d) \<longleftrightarrow>
     (t = CHR ''<'' \<and> m = [O_RDONLY] \<and> d = 0 \<or> t = CHR ''>'' \<and> m = [O_WRONLY, O_CREAT, O_TRUNC] \<and> d = 1) \<and>
     wf_word f \<and> wf_simple c"
| "wf_simple (Pipe l r) \<longleftrightarrow> False"

fun wf_cmd :: "cmd \<Rightarrow> bool" where
  "wf_cmd (Pipe l r) \<longleftrightarrow> wf_simple l \<and> wf_cmd r"
| "wf_cmd c \<longleftrightarrow> wf_simple c"

fun cmd_tokens :: "cmd \<Rightarrow> token list" where
  "cmd_tokens (Exec a) = map Word a"
| "cmd_tokens (Redir t c f m d) = cmd_tokens c @ [Sym t, Word f]"
| "cmd_tokens (Pipe l r) = cmd_tokens l @ Bar # cmd_tokens r"

lemma tokens_space [simp]: "tokens (CHR '' '' # s) = tokens s"
  by (simp add: tokens.simps[of s] tokens.simps[of "CHR '' '' # s"] strchr_def whitespace_def)

lemma tokens_sym: "c \<in> set symbols \<Longrightarrow> tokens (c # s) = Sym c # tokens s"
  by (rule tokens_Sym) (auto simp: skip_ws_def strchr_def whitespace_def symbols_def)

lemma tokens_word:
  assumes "wf_word w"
  shows "tokens (w @ CHR '' '' # s) = Word w # tokens s"
proof -
  obtain c cs where w: "w = c # cs" "word_char c" "\<forall>x\<in>set cs. word_char x"
    using assms by (cases w) (auto simp: wf_word_def list_all_iff)
  have nsp: "\<not> word_char CHR '' ''" by (simp add: word_char_def strchr_def whitespace_def)
  have "skip_ws (w @ CHR '' '' # s) = c # (cs @ CHR '' '' # s)"
    using w by (simp add: skip_ws_def word_char_def)
  from tokens_Word[OF this w(2)] show ?thesis using w nsp by simp
qed

lemma tokens_args: "list_all wf_word a \<Longrightarrow> tokens (concat (map (\<lambda>w. w @ '' '') a) @ s) = map Word a @ tokens s"
  by (induction a) (simp_all add: tokens_word)

lemma tokens_simple: "wf_simple c \<Longrightarrow> tokens (print_cmd c @ s) = cmd_tokens c @ tokens s"
proof (induction c arbitrary: s)
  case (Redir t c f m d)
  have t: "t \<in> set symbols" using Redir(2) by (auto simp: symbols_def)
  have "wf_word f" "wf_simple c" using Redir(2) by simp_all
  then show ?case using Redir(1)[of "t # f @ CHR '' '' # s"] by (simp add: tokens_sym[OF t] tokens_word)
qed (simp_all add: tokens_args)

lemma wf_cmd_induct [consumes 1, case_names simple pipe]:
  assumes "wf_cmd c" and "\<And>c. wf_simple c \<Longrightarrow> P c"
    and "\<And>l r. wf_simple l \<Longrightarrow> wf_cmd r \<Longrightarrow> P r \<Longrightarrow> P (Pipe l r)"
  shows "P c"
  using assms(1) by (induction c) (auto intro: assms(2,3) simp del: wf_simple.simps)

lemma tokens_print: "wf_cmd c \<Longrightarrow> tokens (print_cmd c) = cmd_tokens c"
proof (induction rule: wf_cmd_induct)
  case (simple c)
  then show ?case using tokens_simple[of c "[]"] by (simp add: tokens_Nil skip_ws_def)
next
  case (pipe l r)
  then show ?case using tokens_simple[of l "CHR ''|'' # print_cmd r"] tokens_sym[of "CHR ''|''"] by (simp add: symbols_def)
qed

lemma seg_parse_snoc:
  "seg_parse ts = Some (a, r) \<Longrightarrow> seg_parse (ts @ [Sym t, Word f]) = Some (a, r @ [(t, f)])"
  by (induction ts arbitrary: a r rule: seg_parse.induct) auto

lemma seg_parse_words: "seg_parse (map Word a) = Some (a, [])"
  by (induction a) auto

lemma simple_seg:
  "wf_simple c \<Longrightarrow> Bar \<notin> set (cmd_tokens c) \<and>
     (\<exists>a r. seg_parse (cmd_tokens c) = Some (a, r) \<and> c = build a r \<and> length a < MAXARGS)"
proof (induction c)
  case (Exec a)
  then show ?case by (auto simp: seg_parse_words build_def)
next
  case (Redir t c f m d)
  then obtain a r where c: "seg_parse (cmd_tokens c) = Some (a, r)" "c = build a r" "length a < MAXARGS"
    by auto
  have "Redir t c f m d = build a (r @ [(t, f)])" using Redir(2) c(2) by (auto simp: build_def redircmd_def)
  moreover have "seg_parse (cmd_tokens (Redir t c f m d)) = Some (a, r @ [(t, f)])"
    using seg_parse_snoc[OF c(1)] by simp
  moreover have "Bar \<notin> set (cmd_tokens (Redir t c f m d))" using Redir by auto
  ultimately show ?case using c(3) by blast
qed simp

lemma split_bars_nobar: "Bar \<notin> set ts \<Longrightarrow> split_bars ts = [ts]"
  by (induction ts) auto

lemma split_bars_bar: "Bar \<notin> set ts \<Longrightarrow> split_bars (ts @ Bar # us) = ts # split_bars us"
  by (induction ts) auto

lemma grammar_print: "wf_cmd c \<Longrightarrow> grammar (split_bars (cmd_tokens c)) = Some c"
proof (induction rule: wf_cmd_induct)
  case (simple c)
  then show ?case using simple_seg[of c] by (auto simp: split_bars_nobar)
next
  case (pipe l r)
  then show ?case using simple_seg[of l] split_bars_seg[of "cmd_tokens r"] by (auto simp: split_bars_bar)
qed

lemma print_no_NUL: "wf_simple c \<Longrightarrow> NUL \<notin> set (print_cmd c)"
  by (induction c) (auto simp: wf_word_def list_all_iff word_char_def strchr_def)

lemma print_cmd_no_NUL: "wf_cmd c \<Longrightarrow> NUL \<notin> set (print_cmd c)"
  by (induction rule: wf_cmd_induct) (auto dest: print_no_NUL)

text \<open>The parser produces only such commands.\<close>

lemma tokens_words: "Word w \<in> set (tokens s) \<Longrightarrow> wf_word w"
proof (induction s rule: tokens.induct)
  case (1 s)
  show ?case
  proof (cases rule: gettoken_cases[of s])
    case stop
    then show ?thesis using 1(3) by (simp add: tokens_Nil)
  next
    case (symbol d cs)
    then show ?thesis using 1 by (auto simp: tokens_Sym skip_ws_def)
  next
    case (chars d cs)
    then have "d \<notin> set symbols" by (simp add: word_char_def strchr_def)
    moreover have "wf_word (d # takeWhile word_char cs)"
      using chars(2) by (auto simp: wf_word_def list_all_iff dest: set_takeWhileD)
    ultimately show ?thesis using 1 chars by (auto simp: tokens_Word skip_ws_def)
  qed
qed

definition good_tokens :: "token list \<Rightarrow> bool" where
  "good_tokens ts \<longleftrightarrow> (\<forall>t\<in>set ts. case t of Word w \<Rightarrow> wf_word w | Sym c \<Rightarrow> c \<in> set symbols)"

lemma good_tokens_tokens: "good_tokens (tokens s)"
  by (auto simp: good_tokens_def tokens_words tokens_symbols split: token.splits)

lemma seg_parse_good:
  "seg_parse ts = Some (a, r) \<Longrightarrow> good_tokens ts \<Longrightarrow> Bar \<notin> set ts \<Longrightarrow>
     list_all wf_word a \<and> (\<forall>(t, f)\<in>set r. (t = CHR ''<'' \<or> t = CHR ''>'') \<and> wf_word f)"
  by (induction ts arbitrary: a r rule: seg_parse.induct) (auto simp: good_tokens_def symbols_def)

lemma build_wf:
  assumes "list_all wf_word a" and "length a < MAXARGS"
    and "\<forall>(t, f)\<in>set r. (t = CHR ''<'' \<or> t = CHR ''>'') \<and> wf_word f"
  shows "wf_simple (build a r)"
  using assms(3)
proof (induction r rule: rev_induct)
  case Nil
  then show ?case using assms by (simp add: build_def)
next
  case (snoc x r)
  then show ?case by (cases x) (auto simp: build_def redircmd_def)
qed

lemma split_bars_good: "good_tokens ts \<Longrightarrow> g \<in> set (split_bars ts) \<Longrightarrow> good_tokens g \<and> Bar \<notin> set g"
proof (induction ts arbitrary: g)
  case (Cons t ts)
  have ts: "good_tokens ts" using Cons.prems(1) by (simp add: good_tokens_def)
  obtain h hs where s: "split_bars ts = h # hs" using split_bars_seg[of ts] by blast
  then have "good_tokens h \<and> Bar \<notin> set h" using Cons.IH[OF ts] by simp
  then have "t \<noteq> Bar \<Longrightarrow> good_tokens (t # h) \<and> Bar \<notin> set (t # h)" using Cons.prems(1) by (auto simp: good_tokens_def)
  then show ?case using Cons.prems(2) Cons.IH[OF ts] s by (auto simp: good_tokens_def split: if_splits)
qed (simp add: good_tokens_def)

lemma grammar_wf:
  "grammar gs = Some c \<Longrightarrow> (\<And>g. g \<in> set gs \<Longrightarrow> good_tokens g \<and> Bar \<notin> set g) \<Longrightarrow> wf_cmd c"
proof (induction gs arbitrary: c)
  case (Cons g gs)
  obtain a r where g: "seg_parse g = Some (a, r)" "length a < MAXARGS"
    using Cons.prems(1) by (auto split: option.splits if_splits)
  have w: "wf_simple (build a r)" using seg_parse_good[OF g(1)] Cons.prems(2)[of g] g(2) by (intro build_wf) auto
  show ?case
  proof (cases "gs = []")
    case True
    then show ?thesis using Cons.prems(1) g w by (cases "build a r") auto
  next
    case False
    then show ?thesis using Cons g w by auto
  qed
qed simp

lemma parsed_wf: "parsecmd buf = Inr c \<Longrightarrow> wf_cmd c"
  using parsecmd_result[of buf] grammar_wf split_bars_good[OF good_tokens_tokens] by (fastforce split: option.splits)

text \<open>
  C24. Round trip: a command the parser returned for any input, printed with a blank after each word,
  parses to itself.
\<close>

theorem parse_print:
  assumes "parsecmd buf = Inr c"
  shows "parsecmd (print_cmd c) = Inr c"
proof -
  have w: "wf_cmd c" by (rule parsed_wf[OF assms])
  show ?thesis
    using parsecmd_result[of "print_cmd c"] print_cmd_no_NUL[OF w] tokens_print[OF w] grammar_print[OF w]
    by (simp add: buf_simps)
qed

theorem parse_print_witness:
  "parsecmd ''sort<in|wc -l'' = Inr (Pipe (redircmd (Exec [''sort'']) ''in'' CHR ''<'') (Exec [''wc'', ''-l''])) \<and>
   parsecmd (print_cmd (Pipe (redircmd (Exec [''sort'']) ''in'' CHR ''<'') (Exec [''wc'', ''-l'']))) =
     Inr (Pipe (redircmd (Exec [''sort'']) ''in'' CHR ''<'') (Exec [''wc'', ''-l'']))"
proof -
  have p: "parsecmd ''sort<in|wc -l'' = Inr (Pipe (redircmd (Exec [''sort'']) ''in'' CHR ''<'') (Exec [''wc'', ''-l'']))"
    by code_simp
  show ?thesis using parse_print[OF p] p by simp
qed

end
