(* ===== verification/Shell_Run.thy ===== *)
theory Shell_Run
  imports Shell_Grammar
begin

text \<open>
  Execution of commands in \<^verbatim>\<open>src/hw2/shell.c\<close>: \<^verbatim>\<open>runcmd\<close> with the descriptor tables of the processes
  it creates, and the loop of \<^verbatim>\<open>main\<close> with \<^verbatim>\<open>getcmd\<close>. Whether \<^verbatim>\<open>execvp\<close>, \<^verbatim>\<open>open\<close>, \<^verbatim>\<open>pipe\<close>,
  \<^verbatim>\<open>fork\<close> and \<^verbatim>\<open>chdir\<close> succeed is decided by the system: the record \<open>shenv\<close> answers each call,
  told apart by its position in the command tree. Descriptors are allocated lowest first.
\<close>

section \<open>Descriptor tables\<close>

type_synonym pos = "bool list"

datatype 'f ofile = OFile 'f | PipeRd pos | PipeWr pos

type_synonym 'f fdt = "'f ofile option list"

definition fd_get :: "'f fdt \<Rightarrow> nat \<Rightarrow> 'f ofile option" where
  "fd_get fds d = (if d < length fds then fds ! d else None)"

definition fd_close :: "int \<Rightarrow> 'f fdt \<Rightarrow> 'f fdt" where
  "fd_close d fds = (if 0 \<le> d then fds[nat d := None] else fds)"

definition fd_install :: "'f ofile \<Rightarrow> 'f fdt \<Rightarrow> nat \<times> 'f fdt" where
  "fd_install f fds =
     (case find_idx (\<lambda>x. x = None) fds of
        Some i \<Rightarrow> (i, fds[i := Some f])
      | None \<Rightarrow> (length fds, fds @ [Some f]))"

definition fd_dup :: "int \<Rightarrow> 'f fdt \<Rightarrow> 'f fdt" where
  "fd_dup d fds =
     (if d < 0 then fds
      else (case fd_get fds (nat d) of None \<Rightarrow> fds | Some f \<Rightarrow> snd (fd_install f fds)))"

record 'f shenv =
  sh_execvp :: "pos \<Rightarrow> string list \<Rightarrow> bool"
  sh_open :: "pos \<Rightarrow> string \<Rightarrow> oflag list \<Rightarrow> int \<Rightarrow> 'f option"
  sh_pipe :: "pos \<Rightarrow> bool"
  sh_unset :: "pos \<Rightarrow> int \<times> int"
  sh_fork :: "pos \<Rightarrow> bool"

section \<open>runcmd\<close>

text \<open>How a process created for a command ends up: another program with a table, or gone.\<close>

datatype 'f leaf = Execd "string list" "'f fdt" | Exited int "string list" "'f fdt"

text \<open>The array \<^verbatim>\<open>p\<close> and the table after \<^verbatim>\<open>pipe(p)\<close>; on failure \<^verbatim>\<open>p\<close> keeps what the stack held.\<close>

definition do_pipe :: "'f shenv \<Rightarrow> pos \<Rightarrow> 'f fdt \<Rightarrow> (int \<times> int) \<times> 'f fdt" where
  "do_pipe E pos fds =
     (if sh_pipe E pos
      then (let (r, fds1) = fd_install (PipeRd pos) fds;
                (w, fds2) = fd_install (PipeWr pos) fds1
            in ((int r, int w), fds2))
      else (sh_unset E pos, fds))"

text \<open>
  The processes that result from \<^verbatim>\<open>runcmd\<close>, the forked ones first. \<^verbatim>\<open>runcmd\<close> never returns, so
  the \<^verbatim>\<open>wait\<close> behind the call for the right side of a pipe is not reached.
\<close>

fun runcmd :: "'f shenv \<Rightarrow> pos \<Rightarrow> cmd \<Rightarrow> 'f fdt \<Rightarrow> 'f leaf list" where
  "runcmd E pos (Exec argv) fds =
     (if argv = [] then [Exited 0 [] fds]
      else if sh_execvp E pos argv then [Execd argv fds]
      else [Exited 0 [''unknown runcmd''] fds])"
| "runcmd E pos (Redir t cmd f mode fd) fds =
     (if t = CHR ''<'' \<or> t = CHR ''>''
      then (let fds1 = fd_close (int fd) fds;
                fds2 = (case sh_open E pos f (List.insert O_CREAT mode) 777 of
                          None \<Rightarrow> fds1
                        | Some x \<Rightarrow> snd (fd_install (OFile x) fds1))
            in runcmd E (pos @ [False]) cmd fds2)
      else [Exited (- 1) [''unknown runcmd''] fds])"
| "runcmd E pos (Pipe left right) fds =
     (let (p, fds1) = do_pipe E pos fds;
          child = (if sh_fork E pos
                   then runcmd E (pos @ [False]) left
                          (fd_close (snd p) (fd_close (fst p) (fd_dup (snd p) (fd_close 1 fds1))))
                   else [])
      in child @ runcmd E (pos @ [True]) right
                   (fd_close (fst p) (fd_close (snd p) (fd_dup (fst p) (fd_close 0 fds1)))))"

text \<open>\<^verbatim>\<open>runcmd(parsecmd(buf))\<close> in the child of the shell; a parse error exits with -1.\<close>

fun error_text :: "parse_error \<Rightarrow> string" where
  "error_text MissingFile = ''missing file for redirection''"
| "error_text SyntaxError = ''syntax error''"
| "error_text TooManyArgs = ''too many args''"
| "error_text (Leftovers s) = ''leftovers: '' @ s"

definition run_line :: "'f shenv \<Rightarrow> string \<Rightarrow> 'f fdt \<Rightarrow> 'f leaf list" where
  "run_line E buf fds =
     (case parsecmd buf of
        Inl e \<Rightarrow> [Exited (- 1) [error_text e] fds]
      | Inr cmd \<Rightarrow> runcmd E [] cmd fds)"

section \<open>The loop of main\<close>

text \<open>\<^verbatim>\<open>fgets\<close> with room for a given number of characters.\<close>

fun fgets :: "nat \<Rightarrow> string \<Rightarrow> string \<times> string" where
  "fgets 0 s = ([], s)"
| "fgets (Suc n) [] = ([], [])"
| "fgets (Suc n) (c # cs) =
     (if c = NL then ([c], cs) else (let (l, r) = fgets n cs in (c # l, r)))"

definition getcmd :: "nat \<Rightarrow> string \<Rightarrow> string option \<times> string" where
  "getcmd nbuf stdin =
     (let (line, rest) = fgets (nbuf - 1) stdin;
          buf = line @ replicate (nbuf - length line) NUL
      in (if buf ! 0 = NUL then None else Some buf, rest))"

datatype 'f event = Chdir string bool | Run string "'f leaf list" | ForkFailed string

record 'f shmain =
  m_chdir :: "nat \<Rightarrow> string \<Rightarrow> bool"
  m_fork :: "nat \<Rightarrow> bool"
  m_env :: "nat \<Rightarrow> 'f shenv"
  m_fds :: "'f fdt"

text \<open>The directory of a \<^verbatim>\<open>cd\<close> line: the last character is cut off, then the text from index 3.\<close>

definition cd_arg :: "string \<Rightarrow> string" where
  "cd_arg buf = cstr (drop 3 (buf[length (cstr buf) - 1 := NUL]))"

lemma fgets_length: "fgets n s = (l, r) \<Longrightarrow> length l + length r = length s"
  by (induction n s arbitrary: l r rule: fgets.induct) (auto split: if_splits prod.splits)

lemma getcmd_shrinks:
  assumes "getcmd nbuf s = (Some buf, r)" and "0 < nbuf"
  shows "length r < length s"
proof -
  obtain l where l: "fgets (nbuf - 1) s = (l, r)" using assms(1) by (auto simp: getcmd_def Let_def split: prod.splits)
  have "l \<noteq> []"
  proof
    assume "l = []"
    then have "fst (getcmd nbuf s) = None" using l assms(2) by (simp add: getcmd_def Let_def)
    then show False using assms(1) by simp
  qed
  then show ?thesis using fgets_length[OF l] by (cases l) auto
qed

text \<open>The loop, reading into a buffer of 100 bytes; \<open>k\<close> counts the turns.\<close>

function sh_main :: "'f shmain \<Rightarrow> nat \<Rightarrow> string \<Rightarrow> 'f event list" where
  "sh_main M k stdin =
     (case getcmd 100 stdin of
        (None, _) \<Rightarrow> []
      | (Some buf, rest) \<Rightarrow>
          (if buf ! 0 = CHR ''c'' \<and> buf ! 1 = CHR ''d'' \<and> buf ! 2 = CHR '' ''
           then Chdir (cd_arg buf) (m_chdir M k (cd_arg buf))
           else if m_fork M k then Run (cstr buf) (run_line (m_env M k) buf (m_fds M))
           else ForkFailed (cstr buf))
          # sh_main M (k + 1) rest)"
  by pat_completeness auto
termination
proof (relation "measure (\<lambda>(M, k, s). length s)")
  fix M :: "'f shmain" and k :: nat and s :: string and x rest buf
  assume "(x, rest) = getcmd 100 s" "x = Some buf"
  then have "length rest < length s" by (intro getcmd_shrinks[of 100 s buf rest]) simp_all
  then show "((M, k + 1, rest), (M, k, s)) \<in> measure (\<lambda>(M, k, s). length s)" by simp
qed simp

declare sh_main.simps [simp del]

section \<open>Facts about descriptor tables\<close>

lemma fd_get_close: "fd_get (fd_close (int d) fds) = (fd_get fds)(d := None)"
  by (auto simp: fd_get_def fd_close_def fun_eq_iff nth_list_update)

lemma fd_install_spec:
  assumes "fd_install f fds = (n, fds')"
  shows "fd_get fds n = None" and "fd_get fds' = (fd_get fds)(n := Some f)"
    and "k < n \<Longrightarrow> fd_get fds k \<noteq> None"
proof -
  have "fd_get fds n = None \<and> fd_get fds' = (fd_get fds)(n := Some f) \<and> (k < n \<longrightarrow> fd_get fds k \<noteq> None)"
  proof (cases "find_idx (\<lambda>x. x = None) fds")
    case None
    then have n: "n = length fds" "fds' = fds @ [Some f]" using assms by (simp_all add: fd_install_def)
    have "\<forall>i<length fds. fds ! i \<noteq> None" using None by (simp add: table_simps)
    then show ?thesis by (auto simp: n fd_get_def fun_eq_iff nth_append)
  next
    case (Some i)
    then have n: "n = i" "fds' = fds[i := Some f]" using assms by (auto simp: fd_install_def)
    have "i < length fds" "fds ! i = None" "\<forall>j<i. fds ! j \<noteq> None" using Some by (simp_all add: table_simps)
    then show ?thesis by (auto simp: n fd_get_def fun_eq_iff nth_list_update)
  qed
  then show "fd_get fds n = None" "fd_get fds' = (fd_get fds)(n := Some f)" "k < n \<Longrightarrow> fd_get fds k \<noteq> None"
    by blast+
qed

text \<open>A new descriptor goes to the number that was just closed when all lower ones are open.\<close>

lemma fd_install_at:
  assumes "fd_get fds d = None" and "\<And>k. k < d \<Longrightarrow> fd_get fds k \<noteq> None"
  shows "fd_get (snd (fd_install f fds)) = (fd_get fds)(d := Some f)"
proof -
  obtain n t where i: "fd_install f fds = (n, t)" by fastforce
  have "\<not> n < d" using assms(2) fd_install_spec(1)[OF i] by blast
  moreover have "\<not> d < n" using assms(1) fd_install_spec(3)[OF i] by blast
  ultimately show ?thesis using fd_install_spec(2)[OF i] i by simp
qed

text \<open>\<^verbatim>\<open>close(d); dup(e)\<close> makes \<open>d\<close> a copy of \<open>e\<close>.\<close>

lemma fd_close_dup:
  assumes "fd_get fds e = Some f" and "e \<noteq> d" and "\<And>k. k < d \<Longrightarrow> fd_get fds k \<noteq> None"
  shows "fd_get (fd_dup (int e) (fd_close (int d) fds)) = (fd_get fds)(d := Some f)"
proof -
  have "fd_get (fd_close (int d) fds) e = Some f" using assms(1,2) by (simp add: fd_get_close)
  then have "fd_dup (int e) (fd_close (int d) fds) = snd (fd_install f (fd_close (int d) fds))"
    by (simp add: fd_dup_def)
  moreover have "fd_get (snd (fd_install f (fd_close (int d) fds))) = (fd_get (fd_close (int d) fds))(d := Some f)"
    using assms(3) by (intro fd_install_at) (simp_all add: fd_get_close)
  ultimately show ?thesis by (simp add: fd_get_close)
qed


section \<open>Redirections\<close>

text \<open>The file of the first redirection of a kind.\<close>

definition first_file :: "char \<Rightarrow> (char \<times> string) list \<Rightarrow> string option" where
  "first_file t rs = map_option snd (List.find (\<lambda>(u, f). u = t) rs)"

lemma first_file_snoc:
  "first_file t (rs @ [(u, f)]) =
     (case first_file t rs of Some g \<Rightarrow> Some g | None \<Rightarrow> if u = t then Some f else None)"
  by (induction rs) (auto simp: first_file_def)

lemma redir_leaf:
  assumes op: "\<And>p f m n. sh_open E p f m n = Some (opn f)"
    and ex: "\<And>p. sh_execvp E p args" and ne: "args \<noteq> []"
    and rs: "\<forall>(t, f)\<in>set rs. t = CHR ''<'' \<or> t = CHR ''>''"
    and std: "fd_get fds 0 \<noteq> None" "fd_get fds 1 \<noteq> None"
  shows "\<exists>t. runcmd E pos (build args rs) fds = [Execd args t] \<and> fd_get t = (fd_get fds)
    (0 := (case first_file CHR ''<'' rs of Some f \<Rightarrow> Some (OFile (opn f)) | None \<Rightarrow> fd_get fds 0),
     1 := (case first_file CHR ''>'' rs of Some f \<Rightarrow> Some (OFile (opn f)) | None \<Rightarrow> fd_get fds 1))"
  using rs std
proof (induction rs arbitrary: pos fds rule: rev_induct)
  case Nil
  then show ?case using ex ne by (auto simp: build_def first_file_def)
next
  case (snoc x rs)
  obtain t f where x: "x = (t, f)" by (cases x)
  define d :: nat where "d = (if t = CHR ''<'' then 0 else 1)"
  define fds2 where "fds2 = snd (fd_install (OFile (opn f)) (fd_close (int d) fds))"
  have t: "t = CHR ''<'' \<or> t = CHR ''>''" using snoc.prems(1) x by simp
  have g: "fd_get fds2 = (fd_get fds)(d := Some (OFile (opn f)))"
  proof -
    have "fd_get fds2 = (fd_get (fd_close (int d) fds))(d := Some (OFile (opn f)))"
      unfolding fds2_def using snoc.prems(2,3)
      by (intro fd_install_at) (auto simp: fd_get_close d_def split: if_splits)
    then show ?thesis by (simp add: fd_get_close)
  qed
  have run: "runcmd E pos (build args (rs @ [x])) fds = runcmd E (pos @ [False]) (build args rs) fds2"
    using t op by (auto simp: build_def redircmd_def x fds2_def d_def)
  have rs': "\<forall>(t, f)\<in>set rs. t = CHR ''<'' \<or> t = CHR ''>''" using snoc.prems(1) by simp
  have std2: "fd_get fds2 0 \<noteq> None" "fd_get fds2 1 \<noteq> None" using snoc.prems(2,3) by (simp_all add: g)
  obtain u where u: "runcmd E (pos @ [False]) (build args rs) fds2 = [Execd args u]" "fd_get u = (fd_get fds2)
    (0 := (case first_file CHR ''<'' rs of Some f \<Rightarrow> Some (OFile (opn f)) | None \<Rightarrow> fd_get fds2 0),
     1 := (case first_file CHR ''>'' rs of Some f \<Rightarrow> Some (OFile (opn f)) | None \<Rightarrow> fd_get fds2 1))"
    using snoc.IH[OF rs' std2, of "pos @ [False]"] by blast
  have "fd_get u = (fd_get fds)
    (0 := (case first_file CHR ''<'' (rs @ [x]) of Some f \<Rightarrow> Some (OFile (opn f)) | None \<Rightarrow> fd_get fds 0),
     1 := (case first_file CHR ''>'' (rs @ [x]) of Some f \<Rightarrow> Some (OFile (opn f)) | None \<Rightarrow> fd_get fds 1))"
    unfolding u(2) g x first_file_snoc using t by (auto simp: d_def fun_eq_iff split: option.splits)
  then show ?case using run u(1) by auto
qed


text \<open>
  C25. Redirections of a simple command: if standard input and output are open and every file can be
  opened, the program runs with descriptor 0 on the file of the leftmost input
  redirection and descriptor 1 on that of the leftmost output redirection, or on what
  they were without one, and with all other descriptors as before.
\<close>

theorem leftmost_redirection_wins:
  assumes "\<And>p f m n. sh_open E p f m n = Some (opn f)" and "\<And>p. sh_execvp E p args" and "args \<noteq> []"
    and "parsecmd buf = Inr (build args rs)" and "fd_get fds 0 \<noteq> None" and "fd_get fds 1 \<noteq> None"
  shows "\<exists>t. run_line E buf fds = [Execd args t] \<and> fd_get t = (fd_get fds)
    (0 := (case first_file CHR ''<'' rs of Some f \<Rightarrow> Some (OFile (opn f)) | None \<Rightarrow> fd_get fds 0),
     1 := (case first_file CHR ''>'' rs of Some f \<Rightarrow> Some (OFile (opn f)) | None \<Rightarrow> fd_get fds 1))"
proof -
  have wf: "wf_simple (build args rs)"
    using parsed_wf[OF assms(4)] by (cases rs rule: rev_cases) (auto simp: build_def redircmd_def split: prod.splits)
  have "wf_simple (build a rs) \<Longrightarrow> \<forall>(t, f)\<in>set rs. t = CHR ''<'' \<or> t = CHR ''>''" for a
    by (induction rs rule: rev_induct) (auto simp: build_def redircmd_def split: prod.splits)
  then have rs: "\<forall>(t, f)\<in>set rs. t = CHR ''<'' \<or> t = CHR ''>''" using wf by blast
  show ?thesis
    using redir_leaf[OF assms(1,2,3) rs assms(5,6), of "[]"] assms(4) by (simp add: run_line_def)
qed

text \<open>A system where every call succeeds; a file is identified by its name.\<close>

definition sh_ok :: "string shenv" where
  "sh_ok = \<lparr>sh_execvp = (\<lambda>p a. True), sh_open = (\<lambda>p f m n. Some f), sh_pipe = (\<lambda>p. True),
     sh_unset = (\<lambda>p. (0, 0)), sh_fork = (\<lambda>p. True)\<rparr>"

definition tty :: "string fdt" where
  "tty = [Some (OFile ''tty''), Some (OFile ''tty''), Some (OFile ''tty'')]"

theorem leftmost_redirection_wins_witness:
  "\<exists>t. run_line sh_ok ''cat <a <b >c'' tty = [Execd [''cat''] t] \<and>
     fd_get t 0 = Some (OFile ''a'') \<and> fd_get t 1 = Some (OFile ''c'')"
proof -
  let ?rs = "[(CHR ''<'', ''a''), (CHR ''<'', ''b''), (CHR ''>'', ''c'')]"
  have p: "parsecmd ''cat <a <b >c'' = Inr (build [''cat''] ?rs)" by code_simp
  have ff: "first_file CHR ''<'' ?rs = Some ''a''" "first_file CHR ''>'' ?rs = Some ''c''" by code_simp+
  have e: "sh_open sh_ok q f m n = Some f" "sh_execvp sh_ok q [''cat'']" for q f m n by (simp_all add: sh_ok_def)
  have t: "fd_get tty 0 \<noteq> None" "fd_get tty 1 \<noteq> None" by code_simp+
  show ?thesis
    using leftmost_redirection_wins[OF e(1) e(2) _ p t] ff by auto
qed

text \<open>
  C26. A failing \<^verbatim>\<open>open\<close> is not noticed: with an output redirection before an input redirection whose
  file cannot be opened, the program still runs, its standard output is closed and its
  standard input is the output file.
\<close>

theorem failed_open_misdirects:
  assumes "\<And>p m n. sh_open E p inp m n = None" and "\<And>p m n. sh_open E p outp m n = Some x"
    and "\<And>p. sh_execvp E p args" and "args \<noteq> []"
    and "parsecmd buf = Inr (build args [(CHR ''>'', outp), (CHR ''<'', inp)])"
    and "fds = Some a # Some b # rest"
  shows "run_line E buf fds = [Execd args (Some (OFile x) # None # rest)]"
  using assms by (simp add: run_line_def build_def redircmd_def fd_close_def fd_install_def)

theorem failed_open_misdirects_witness:
  "run_line (sh_ok\<lparr>sh_open := (\<lambda>p f m n. if f = ''no/such'' then None else Some f)\<rparr>) ''cat >out <no/such'' tty =
     [Execd [''cat''] [Some (OFile ''out''), None, Some (OFile ''tty'')]]"
proof -
  let ?E = "sh_ok\<lparr>sh_open := (\<lambda>p f m n. if f = ''no/such'' then None else Some f)\<rparr>"
  have p: "parsecmd ''cat >out <no/such'' = Inr (build [''cat''] [(CHR ''>'', ''out''), (CHR ''<'', ''no/such'')])"
    by code_simp
  have e: "sh_open ?E q ''no/such'' m n = None" "sh_open ?E q ''out'' m n = Some ''out''" "sh_execvp ?E q [''cat'']" for q m n
    by (simp_all add: sh_ok_def)
  show ?thesis
    using failed_open_misdirects[OF e(1) e(2) e(3) _ p, of tty] by (simp add: tty_def)
qed


section \<open>Pipelines\<close>

text \<open>What each program of a pipeline of commands without redirections should have as 0 and 1.\<close>

fun pipeline :: "string list list \<Rightarrow> cmd" where
  "pipeline [] = Exec []"
| "pipeline [a] = Exec a"
| "pipeline (a # as) = Pipe (Exec a) (pipeline as)"

fun wiring :: "pos \<Rightarrow> 'f ofile \<Rightarrow> 'f ofile \<Rightarrow> string list list \<Rightarrow> (string list \<times> 'f ofile \<times> 'f ofile) list" where
  "wiring pos i out [] = []"
| "wiring pos i out [a] = [(a, i, out)]"
| "wiring pos i out (a # as) = (a, i, PipeWr pos) # wiring (pos @ [True]) (PipeRd pos) out as"

definition wired :: "'f fdt \<Rightarrow> 'f leaf \<Rightarrow> string list \<times> 'f ofile \<times> 'f ofile \<Rightarrow> bool" where
  "wired fds l w \<longleftrightarrow> (case w of (a, i, out) \<Rightarrow>
     \<exists>t. l = Execd a t \<and> fd_get t = (fd_get fds)(0 := Some i, 1 := Some out))"

text \<open>The tables of the two sides of one pipe.\<close>

lemma pipe_sides:
  assumes "sh_pipe E pos" and "fd_get fds 0 = Some i" and "fd_get fds 1 = Some out"
    and "do_pipe E pos fds = (p, fds1)"
  shows "fd_get (fd_close (snd p) (fd_close (fst p) (fd_dup (snd p) (fd_close 1 fds1)))) = (fd_get fds)(1 := Some (PipeWr pos))"
    and "fd_get (fd_close (fst p) (fd_close (snd p) (fd_dup (fst p) (fd_close 0 fds1)))) = (fd_get fds)(0 := Some (PipeRd pos))"
proof -
  obtain r f1 where r: "fd_install (PipeRd pos) fds = (r, f1)" by fastforce
  obtain w f2 where w: "fd_install (PipeWr pos) f1 = (w, f2)" by fastforce
  have p: "p = (int r, int w)" "fds1 = f2" using assms(1,4) r w by (simp_all add: do_pipe_def)
  note r1 = fd_install_spec(1,2)[OF r] and w1 = fd_install_spec(1,2)[OF w]
  have wn: "r \<noteq> w" "fd_get fds w = None" using w1(1) by (auto simp: r1(2) split: if_splits)
  have rw: "r \<noteq> 0" "r \<noteq> 1" "w \<noteq> 0" "w \<noteq> 1" "r \<noteq> w"
    using wn r1(1) assms(2,3) by (metis option.distinct(1))+
  have f2: "fd_get f2 = (fd_get fds)(r := Some (PipeRd pos), w := Some (PipeWr pos))" using r1 w1 by simp
  have left: "fd_get (fd_dup (int w) (fd_close (int 1) f2)) = (fd_get f2)(1 := Some (PipeWr pos))"
    using rw f2 assms(2) by (intro fd_close_dup) (auto simp: less_Suc_eq)
  have right: "fd_get (fd_dup (int r) (fd_close (int 0) f2)) = (fd_get f2)(0 := Some (PipeRd pos))"
    using rw f2 by (intro fd_close_dup) auto
  show "fd_get (fd_close (snd p) (fd_close (fst p) (fd_dup (snd p) (fd_close 1 fds1)))) = (fd_get fds)(1 := Some (PipeWr pos))"
    using left rw wn(2) r1(1) by (auto simp: p fd_get_close f2 fun_eq_iff)
  show "fd_get (fd_close (fst p) (fd_close (snd p) (fd_dup (fst p) (fd_close 0 fds1)))) = (fd_get fds)(0 := Some (PipeRd pos))"
    using right rw wn(2) r1(1) by (auto simp: p fd_get_close f2 fun_eq_iff)
qed

text \<open>
  C27. A pipeline of any length: when \<^verbatim>\<open>pipe\<close>, \<^verbatim>\<open>fork\<close> and \<^verbatim>\<open>execvp\<close> succeed and descriptors 0 and 1 are open,
  \<^verbatim>\<open>runcmd\<close> leaves one program per command, in order; the output of each is the write end of
  a pipe whose read end is the input of the next, the ends of the chain are the shell's
  input and output, and no program keeps any other end of a pipe open.
\<close>

theorem pipeline_wiring:
  assumes "\<And>p. sh_pipe E p" and "\<And>p. sh_fork E p" and "\<And>p a. sh_execvp E p a"
    and "as \<noteq> []" and "\<forall>a\<in>set as. a \<noteq> []"
    and "fd_get fds 0 = Some i" and "fd_get fds 1 = Some out"
  shows "list_all2 (wired fds) (runcmd E pos (pipeline as) fds) (wiring pos i out as)"
  using assms(4-7)
proof (induction as arbitrary: pos fds i rule: pipeline.induct)
  case (2 a)
  then show ?case using assms(3) by (auto simp: wired_def fun_eq_iff)
next
  case (3 a b as)
  obtain p f1 where p: "do_pipe E pos fds = (p, f1)" by fastforce
  let ?l = "fd_close (snd p) (fd_close (fst p) (fd_dup (snd p) (fd_close 1 f1)))"
  let ?r = "fd_close (fst p) (fd_close (snd p) (fd_dup (fst p) (fd_close 0 f1)))"
  note sides = pipe_sides[OF assms(1) 3(4,5) p]
  have run: "runcmd E pos (pipeline (a # b # as)) fds = Execd a ?l # runcmd E (pos @ [True]) (pipeline (b # as)) ?r"
    using p 3(3) assms(2,3) by (simp add: Let_def)
  have "list_all2 (wired ?r) (runcmd E (pos @ [True]) (pipeline (b # as)) ?r) (wiring (pos @ [True]) (PipeRd pos) out (b # as))"
    using 3 sides(2) by (intro 3(1)) simp_all
  moreover have "wired ?r l x \<Longrightarrow> wired fds l x" for l x
    using sides(2) by (auto simp: wired_def split: prod.splits)
  ultimately have "list_all2 (wired fds) (runcmd E (pos @ [True]) (pipeline (b # as)) ?r) (wiring (pos @ [True]) (PipeRd pos) out (b # as))"
    by (rule list_all2_mono)
  moreover have "wired fds (Execd a ?l) (a, i, PipeWr pos)"
    using sides(1) 3(4) by (auto simp: wired_def fun_eq_iff)
  ultimately show ?case unfolding run by simp
qed simp

theorem pipeline_wiring_witness:
  "\<exists>t u. runcmd sh_ok [] (pipeline [[''ls''], [''wc'']]) tty = [Execd [''ls''] t, Execd [''wc''] u] \<and>
     fd_get t 1 = Some (PipeWr []) \<and> fd_get u 0 = Some (PipeRd []) \<and> fd_get t 3 = None \<and> fd_get u 4 = None"
proof -
  have e: "sh_pipe sh_ok q" "sh_fork sh_ok q" "sh_execvp sh_ok q a" for q a by (simp_all add: sh_ok_def)
  have t: "fd_get tty 0 = Some (OFile ''tty'')" "fd_get tty 1 = Some (OFile ''tty'')" "fd_get tty 3 = None" "fd_get tty 4 = None"
    by code_simp+
  have "list_all2 (wired tty) (runcmd sh_ok [] (pipeline [[''ls''], [''wc'']]) tty)
      (wiring [] (OFile ''tty'') (OFile ''tty'') [[''ls''], [''wc'']])"
    by (rule pipeline_wiring[OF e(1) e(2) e(3) _ _ t(1,2)]) simp_all
  then show ?thesis using t by (auto simp: wired_def list_all2_Cons2)
qed

section \<open>The command loop\<close>

text \<open>The event a complete line gives rise to.\<close>

definition is_cd :: "string \<Rightarrow> bool" where
  "is_cd l \<longleftrightarrow> take 3 l = ''cd ''"

definition line_event :: "'f shmain \<Rightarrow> nat \<Rightarrow> string \<Rightarrow> 'f event" where
  "line_event M k l =
     (if is_cd l then Chdir (drop 3 l) (m_chdir M k (drop 3 l))
      else if m_fork M k then Run (l @ [NL]) (run_line (m_env M k) (l @ [NL]) (m_fds M))
      else ForkFailed (l @ [NL]))"

lemma fgets_line: "NL \<notin> set l \<Longrightarrow> length l < n \<Longrightarrow> fgets n (l @ NL # s) = (l @ [NL], s)"
  by (induction l arbitrary: n) (case_tac [!] n, auto)

lemma fgets_last: "NL \<notin> set l \<Longrightarrow> length l < n \<Longrightarrow> fgets n l = (l, [])"
  by (induction l arbitrary: n) (case_tac [!] n, auto)

lemma parsecmd_cstr: "parsecmd (b @ NUL # r) = parsecmd b" if "NUL \<notin> set b" for b r
  using that by (simp add: parsecmd_def buf_simps)

lemma cd_prefix:
  assumes "length b \<ge> 3"
  shows "b ! 0 = CHR ''c'' \<and> b ! 1 = CHR ''d'' \<and> b ! 2 = CHR '' '' \<longleftrightarrow> take 3 b = ''cd ''"
proof -
  obtain x y z r where "b = x # y # z # r" using assms
    by (metis One_nat_def Suc_le_length_iff numeral_3_eq_3)
  then show ?thesis by (simp add: numeral_2_eq_2 numeral_3_eq_3)
qed


lemma buffer_fields:
  assumes "NUL \<notin> set b" and "b \<noteq> []" and "length b < 100"
  defines "buf \<equiv> b @ replicate (100 - length b) NUL"
  shows "buf ! 0 \<noteq> NUL" and "cstr buf = b" and "parsecmd buf = parsecmd b"
    and "buf ! 0 = CHR ''c'' \<and> buf ! 1 = CHR ''d'' \<and> buf ! 2 = CHR '' '' \<longleftrightarrow> take 3 b = ''cd ''"
    and "cd_arg buf = drop 3 (butlast b)"
proof -
  obtain n where n: "100 - length b = Suc n" using assms(3) by (metis Suc_diff_Suc)
  have buf: "buf = b @ NUL # replicate n NUL" by (simp add: buf_def n)
  show "buf ! 0 \<noteq> NUL" using assms(1,2) by (cases b) (auto simp: buf)
  show cs: "cstr buf = b" unfolding buf by (rule cstr_append_NUL[OF assms(1)])
  show "parsecmd buf = parsecmd b" unfolding buf by (rule parsecmd_cstr[OF assms(1)])
  have "take 3 buf = ''cd '' \<longleftrightarrow> take 3 b = ''cd ''"
  proof (cases "length b < 3")
    case True
    then have "NUL \<in> set (take 3 buf)" by (auto simp: buf take_Cons' split: if_splits)
    then have "take 3 buf \<noteq> ''cd ''" by auto
    then show ?thesis using True by auto
  qed (simp add: buf)
  then show "buf ! 0 = CHR ''c'' \<and> buf ! 1 = CHR ''d'' \<and> buf ! 2 = CHR '' '' \<longleftrightarrow> take 3 b = ''cd ''"
    using cd_prefix[of buf] by (simp add: buf_def)
  have "buf[length b - 1 := NUL] = butlast b @ NUL # NUL # replicate n NUL"
    using assms(2) by (cases b rule: rev_cases) (simp_all add: buf list_update_append)
  then have "cd_arg buf = cstr (drop 3 (butlast b @ NUL # NUL # replicate n NUL))" by (simp add: cd_arg_def cs)
  also have "\<dots> = drop 3 (butlast b)"
  proof (cases "length (butlast b) < 3")
    case True
    then have "set (drop 3 (butlast b @ NUL # NUL # replicate n NUL)) \<subseteq> {NUL}"
      by (auto simp: drop_Cons' split: if_splits dest: in_set_dropD)
    then have "cstr (drop 3 (butlast b @ NUL # NUL # replicate n NUL)) = []"
      by (rule cstr_all_NUL)
    then show ?thesis using True by simp
  next
    case False
    have "NUL \<notin> set (drop 3 (butlast b))" using assms(1) by (meson in_set_dropD in_set_butlastD)
    then show ?thesis using False by (simp add: buf_simps)
  qed
  finally show "cd_arg buf = drop 3 (butlast b)" .
qed


lemma sh_main_Nil: "sh_main M k [] = []"
proof -
  have "getcmd 100 [] = (None, [])" using fgets_last[of "[]" 99] by (simp add: getcmd_def)
  then show ?thesis by (simp add: sh_main.simps[of M k "[]"])
qed

lemma sh_main_line:
  assumes "NL \<notin> set l" and "NUL \<notin> set l" and "length l < 99"
  shows "sh_main M k (l @ NL # s) = line_event M k l # sh_main M (k + 1) s"
proof -
  let ?b = "l @ [NL]"
  let ?buf = "?b @ replicate (100 - length ?b) NUL"
  have h: "NUL \<notin> set ?b" "?b \<noteq> []" "length ?b < 100" using assms by simp_all
  note buf = buffer_fields[OF h]
  have g: "getcmd 100 (l @ NL # s) = (Some ?buf, s)"
    using buf(1) fgets_line[OF assms(1), of 99 s] assms(3) by (simp add: getcmd_def)
  have cd: "take 3 ?b = ''cd '' \<longleftrightarrow> is_cd l"
    by (cases "length l < 3") (auto simp: is_cd_def take_Cons' split: if_splits)
  have run: "run_line E ?buf fds = run_line E ?b fds" for E :: "'a shenv" and fds
    using buf(3) by (simp add: run_line_def)
  have arg: "cd_arg ?buf = drop 3 l" using buf(5) by simp
  show ?thesis
    by (subst sh_main.simps)
       (simp only: g prod.case option.case buf(2,4) cd run arg line_event_def)
qed

text \<open>
  C28. The shell treats its input line by line: for lines of at most 98 characters, each ended by a
  newline, every line that starts with \<^verbatim>\<open>cd\<close> and a blank changes to the directory that
  follows, every other line is run as a command in a child, in the order of the input,
  and the loop ends at the end of the input.
\<close>

theorem shell_runs_lines:
  assumes "\<forall>l\<in>set ls. NL \<notin> set l \<and> NUL \<notin> set l \<and> length l < 99"
  shows "sh_main M k (concat (map (\<lambda>l. l @ [NL]) ls)) = map (\<lambda>(i, l). line_event M i l) (enumerate k ls)"
  using assms
proof (induction ls arbitrary: k)
  case Nil
  then show ?case by (simp add: sh_main_Nil)
next
  case (Cons l ls)
  then show ?case using sh_main_line[of l M k "concat (map (\<lambda>l. l @ [NL]) ls)"] by simp
qed

definition sh_demo :: "string shmain" where
  "sh_demo = \<lparr>m_chdir = (\<lambda>k d. True), m_fork = (\<lambda>k. True), m_env = (\<lambda>k. sh_ok), m_fds = tty\<rparr>"

theorem shell_runs_lines_witness:
  "sh_main sh_demo 0 (''cd /tmp'' @ [NL] @ ''ls'' @ [NL]) =
     [Chdir ''/tmp'' True, Run (''ls'' @ [NL]) [Execd [''ls''] tty]]"
proof -
  have h: "\<forall>l\<in>set [''cd /tmp'', ''ls'']. NL \<notin> set l \<and> NUL \<notin> set l \<and> length l < 99" by simp
  have "line_event sh_demo 0 ''cd /tmp'' = Chdir ''/tmp'' True" "line_event sh_demo 1 ''ls'' = Run (''ls'' @ [NL]) [Execd [''ls''] tty]"
    by code_simp+
  then show ?thesis using shell_runs_lines[OF h, of sh_demo 0] by simp
qed

text \<open>
  A \<^verbatim>\<open>cd\<close> line that ends with the input instead of a newline loses its last character: the code
  cuts off the last character whatever it is.
\<close>

theorem cd_at_eof_chops:
  assumes "NL \<notin> set d" and "NUL \<notin> set d" and "d \<noteq> []" and "length d < 96"
  shows "sh_main M k (''cd '' @ d) = [Chdir (butlast d) (m_chdir M k (butlast d))]"
proof -
  let ?b = "''cd '' @ d"
  let ?buf = "?b @ replicate (100 - length ?b) NUL"
  have h: "NUL \<notin> set ?b" "?b \<noteq> []" "length ?b < 100" "NL \<notin> set ?b" using assms by simp_all
  note buf = buffer_fields[OF h(1-3)]
  have "fgets 99 ?b = (?b, [])" using assms(4) by (intro fgets_last[OF h(4)]) simp
  then have g: "getcmd 100 ?b = (Some ?buf, [])" using buf(1) by (simp add: getcmd_def)
  have arg: "cd_arg ?buf = butlast d" using buf(5) assms(3) by simp
  have cd: "take 3 ?b = ''cd '' \<longleftrightarrow> True" by simp
  show ?thesis
    by (subst sh_main.simps) (simp only: g prod.case option.case buf(2,4) cd arg sh_main_Nil if_True)
qed

theorem cd_at_eof_chops_witness: "sh_main sh_demo 0 ''cd /tmp'' = [Chdir ''/tm'' True]"
  using cd_at_eof_chops[of "''/tmp''" sh_demo 0] by (simp add: sh_demo_def)

end
