(* ===== verification/Hashtable.thy ===== *)
theory Hashtable
  imports OS_Prelude
begin

text \<open>
  The parallel hash tables of \<^verbatim>\<open>src/hw4\<close>: the table, \<^verbatim>\<open>insert\<close>, \<^verbatim>\<open>retrieve\<close>, \<^verbatim>\<open>put_phase\<close>, \<^verbatim>\<open>get_phase\<close>
  and the counting in \<^verbatim>\<open>main\<close>. The three programs differ in the lock that \<^verbatim>\<open>insert\<close> takes: none
  (\<^verbatim>\<open>parallel_hashtable.c\<close>), one mutex per bucket (\<^verbatim>\<open>parallel_mutex.c\<close>), one spinlock
  (\<^verbatim>\<open>parallel_spin.c\<close>). Entries are linked once and never changed, so a pointer to an entry is
  the list of entries from there on. Threads interleave at single loads and stores of the
  table.
\<close>

section \<open>The table\<close>

type_synonym entry = "int \<times> int"

definition NUM_BUCKETS :: int where
  "NUM_BUCKETS = 5"

definition NUM_KEYS :: nat where
  "NUM_KEYS = 100000"

definition bucket :: "int \<Rightarrow> int" where
  "bucket key = key smod NUM_BUCKETS"

text \<open>The loop of \<^verbatim>\<open>retrieve\<close> along a chain, and \<^verbatim>\<open>retrieve\<close>; a negative index is out of range.\<close>

fun chain_find :: "int \<Rightarrow> entry list \<Rightarrow> entry option" where
  "chain_find key [] = None"
| "chain_find key (b # bs) = (if fst b = key then Some b else chain_find key bs)"

datatype ht_error = OutOfBounds | HtPanic string

definition retrieve :: "int \<Rightarrow> entry list list \<Rightarrow> ht_error + entry option" where
  "retrieve key tab =
     (if bucket key < 0 then Inl OutOfBounds else Inr (chain_find key (tab ! nat (bucket key))))"

section \<open>Inserting in parallel\<close>

text \<open>
  Where a thread is: at the loop test of \<^verbatim>\<open>put_phase\<close>, in \<^verbatim>\<open>insert\<close> before the lock, behind it, with
  \<^verbatim>\<open>e->next\<close> loaded, with the bucket stored, at the end, or after an access out of bounds.
  The number is the variable \<^verbatim>\<open>key\<close> of \<^verbatim>\<open>put_phase\<close>.
\<close>

datatype tstate = Idle int | Locking int | Locked int | Loaded int "entry list" | Stored int
  | Finished | Faulted

record hstate =
  htab :: "entry list list"
  owner :: "nat \<Rightarrow> nat option"
  threads :: "tstate list"
  panicked :: bool

text \<open>The lock that protects a bucket in each program.\<close>

definition lock_none :: "nat \<Rightarrow> nat option" where
  "lock_none b = None"

definition lock_mutex :: "nat \<Rightarrow> nat option" where
  "lock_mutex b = Some b"

definition lock_spin :: "nat \<Rightarrow> nat option" where
  "lock_spin b = Some 0"

definition take_lock :: "nat option \<Rightarrow> nat \<Rightarrow> hstate \<Rightarrow> hstate option" where
  "take_lock lk t s =
     (case lk of
        None \<Rightarrow> Some s
      | Some l \<Rightarrow> if owner s l = None then Some (s\<lparr>owner := (owner s)(l := Some t)\<rparr>) else None)"

definition drop_lock :: "nat option \<Rightarrow> hstate \<Rightarrow> hstate" where
  "drop_lock lk s = (case lk of None \<Rightarrow> s | Some l \<Rightarrow> s\<lparr>owner := (owner s)(l := None)\<rparr>)"

abbreviation set_thread :: "nat \<Rightarrow> tstate \<Rightarrow> hstate \<Rightarrow> hstate" where
  "set_thread t st s \<equiv> s\<lparr>threads := (threads s)[t := st]\<rparr>"

text \<open>
  One step of thread \<open>t\<close>; \<open>None\<close> when it is blocked on a lock or at its end. \<open>mem\<close> tells
  whether \<^verbatim>\<open>malloc\<close> succeeds; when it fails \<^verbatim>\<open>panic\<close> ends the program.
\<close>

definition put_exec :: "(nat \<Rightarrow> nat option) \<Rightarrow> (nat \<Rightarrow> int \<Rightarrow> bool) \<Rightarrow> int list \<Rightarrow> nat \<Rightarrow> nat \<Rightarrow> hstate
    \<Rightarrow> hstate option" where
  "put_exec lock_of mem keys n t s =
     (if panicked s \<or> t \<ge> length (threads s) then None
      else
        (case threads s ! t of
           Idle i \<Rightarrow>
             (if i < int (length keys)
              then (if i < 0 then Some (set_thread t Faulted s)
                    else if mem t i then Some (set_thread t (Locking i) s)
                    else Some (s\<lparr>panicked := True\<rparr>))
              else Some (set_thread t Finished s))
         | Locking i \<Rightarrow>
             (if bucket (keys ! nat i) < 0 then Some (set_thread t Faulted s)
              else map_option (set_thread t (Locked i)) (take_lock (lock_of (nat (bucket (keys ! nat i)))) t s))
         | Locked i \<Rightarrow> Some (set_thread t (Loaded i (htab s ! nat (bucket (keys ! nat i)))) s)
         | Loaded i nxt \<Rightarrow>
             Some (set_thread t (Stored i)
               (s\<lparr>htab := (htab s)[nat (bucket (keys ! nat i)) := (keys ! nat i, int t) # nxt]\<rparr>))
         | Stored i \<Rightarrow>
             Some (set_thread t (Idle (swrap (i + int n)))
               (drop_lock (lock_of (nat (bucket (keys ! nat i)))) s))
         | Finished \<Rightarrow> None
         | Faulted \<Rightarrow> None))"

definition put_step :: "(nat \<Rightarrow> nat option) \<Rightarrow> (nat \<Rightarrow> int \<Rightarrow> bool) \<Rightarrow> int list \<Rightarrow> nat \<Rightarrow> hstate \<Rightarrow> hstate \<Rightarrow> bool" where
  "put_step lock_of mem keys n s s' \<longleftrightarrow> (\<exists>t. put_exec lock_of mem keys n t s = Some s')"

text \<open>The state when the threads are created: thread \<open>t\<close> starts at index \<open>t\<close>.\<close>

definition put_init :: "nat \<Rightarrow> hstate" where
  "put_init n = \<lparr>htab = replicate 5 [], owner = (\<lambda>_. None), threads = map (\<lambda>t. Idle (int t)) [0..<n], panicked = False\<rparr>"

text \<open>Running a given schedule; a blocked thread is skipped.\<close>

fun run_schedule :: "(nat \<Rightarrow> nat option) \<Rightarrow> (nat \<Rightarrow> int \<Rightarrow> bool) \<Rightarrow> int list \<Rightarrow> nat \<Rightarrow> nat list \<Rightarrow> hstate \<Rightarrow> hstate" where
  "run_schedule lock_of mem keys n [] s = s"
| "run_schedule lock_of mem keys n (t # ts) s =
     run_schedule lock_of mem keys n ts
       (case put_exec lock_of mem keys n t s of None \<Rightarrow> s | Some s' \<Rightarrow> s')"

section \<open>Retrieving and counting\<close>

text \<open>
  The loop of \<^verbatim>\<open>get_phase\<close>. The index is an \<^verbatim>\<open>int\<close>: adding the number of threads may wrap to a
  negative one, and the access is then out of bounds. The number of threads is a
  positive \<^verbatim>\<open>int\<close> once \<^verbatim>\<open>main\<close> checked it; the first test covers other values.
\<close>

function get_loop :: "int list \<Rightarrow> nat \<Rightarrow> int \<Rightarrow> int \<Rightarrow> entry list list \<Rightarrow> ht_error + int" where
  "get_loop keys n i lost tab =
     (if n = 0 \<or> int n > INT_MAX \<or> i \<ge> int (length keys) then Inr lost
      else if i < 0 \<or> i > INT_MAX then Inl OutOfBounds
      else (case retrieve (keys ! nat i) tab of
              Inl e \<Rightarrow> Inl e
            | Inr None \<Rightarrow> get_loop keys n (swrap (i + int n)) (lost + 1) tab
            | Inr (Some _) \<Rightarrow> get_loop keys n (swrap (i + int n)) lost tab))"
  by pat_completeness auto

lemma swrap_advance:
  assumes "0 \<le> i" "i \<le> INT_MAX" "0 < n" "n \<le> INT_MAX"
  shows "swrap (i + n) < 0 \<or> swrap (i + n) = i + n"
proof (cases "i + n \<le> INT_MAX")
  case True
  then show ?thesis using assms by (simp add: swrap_id in_int_def INT_MIN_def)
next
  case False
  have "(i + n + 2147483648) mod 4294967296 = (i + n - 2147483648) mod 4294967296"
    using mod_add_self2[of "i + n - 2147483648" 4294967296] by (simp add: algebra_simps)
  also have "\<dots> = i + n - 2147483648"
    using False assms by (intro mod_pos_pos_trivial) (simp_all add: INT_MAX_def)
  finally show ?thesis using assms by (simp add: swrap_def INT_MAX_def)
qed

termination get_loop
proof (relation "measure (\<lambda>(keys, n, i, lost, tab). if i < 0 then 0 else Suc (nat (int (length keys) - i)))")
  fix keys :: "int list" and n :: nat and i lost l :: int and tab :: "entry list list" and r x
  assume g: "\<not> (n = 0 \<or> INT_MAX < int n \<or> int (length keys) \<le> i)" "\<not> (i < 0 \<or> INT_MAX < i)"
  then have "swrap (i + int n) < 0 \<or> swrap (i + int n) = i + int n" by (intro swrap_advance) auto
  then have m: "((keys, n, swrap (i + int n), l, tab), (keys, n, i, lost, tab)) \<in>
    measure (\<lambda>(keys, n, i, lost, tab). if i < 0 then 0 else Suc (nat (int (length keys) - i)))" for l
    using g by auto
  show "((keys, n, swrap (i + int n), lost + 1, tab), (keys, n, i, lost, tab)) \<in>
    measure (\<lambda>(keys, n, i, lost, tab). if i < 0 then 0 else Suc (nat (int (length keys) - i)))" by (rule m)
  show "((keys, n, swrap (i + int n), lost, tab), (keys, n, i, lost, tab)) \<in>
    measure (\<lambda>(keys, n, i, lost, tab). if i < 0 then 0 else Suc (nat (int (length keys) - i)))" by (rule m)
qed simp

declare get_loop.simps [simp del]

definition get_phase :: "int list \<Rightarrow> nat \<Rightarrow> nat \<Rightarrow> entry list list \<Rightarrow> ht_error + int" where
  "get_phase keys n tid tab = get_loop keys n (int tid) 0 tab"

text \<open>The sum of main over the threads, and the number of keys it reports as retrieved.\<close>

fun total_lost :: "int list \<Rightarrow> nat \<Rightarrow> nat \<Rightarrow> entry list list \<Rightarrow> ht_error + int" where
  "total_lost keys n 0 tab = Inr 0"
| "total_lost keys n (Suc k) tab =
     (case total_lost keys n k tab of
        Inl e \<Rightarrow> Inl e
      | Inr a \<Rightarrow> (case get_phase keys n k tab of Inl e \<Rightarrow> Inl e | Inr b \<Rightarrow> Inr (a + b)))"

text \<open>The argument check of main.\<close>

definition check_args :: "nat \<Rightarrow> int \<Rightarrow> ht_error + nat" where
  "check_args argc num_threads =
     (if argc \<noteq> 2 then Inl (HtPanic ''usage: ./parallel_hashtable <num_threads>'')
      else if num_threads \<le> 0 then Inl (HtPanic ''must enter a valid number of threads to run'')
      else Inr (nat num_threads))"

definition report :: "int list \<Rightarrow> nat \<Rightarrow> entry list list \<Rightarrow> ht_error + int" where
  "report keys n tab =
     (case total_lost keys n n tab of Inl e \<Rightarrow> Inl e | Inr lost \<Rightarrow> Inr (int (length keys) - lost))"

end
