(* ===== verification/Hashtable_Props.thy ===== *)
theory Hashtable_Props
  imports Hashtable
begin

text \<open>
  What locking buys the parallel hash tables: with a lock for every bucket no insertion is lost,
  whatever the interleaving. The locale \<open>lock_discipline\<close> is the
  contract between \<^verbatim>\<open>insert\<close> and its locks; it is discharged for the mutexes and for the
  spinlock.
\<close>

definition ht_ok :: "int list \<Rightarrow> nat \<Rightarrow> bool" where
  "ht_ok keys n \<longleftrightarrow> 0 < n \<and> int (length keys) + int n \<le> INT_MAX \<and> (\<forall>k\<in>set keys. 0 \<le> k)"

abbreviation bk :: "int list \<Rightarrow> int \<Rightarrow> nat" where
  "bk keys i \<equiv> nat (bucket (keys ! nat i))"

lemma bucket_range: "0 \<le> k \<Longrightarrow> 0 \<le> bucket k \<and> bucket k < 5"
  by (simp add: bucket_def NUM_BUCKETS_def signed_modulo_int_def sgn_if)

text \<open>The index a thread works on while it holds a lock, and how far its insertions got.\<close>

fun holding :: "tstate \<Rightarrow> int option" where
  "holding (Locked i) = Some i"
| "holding (Loaded i nxt) = Some i"
| "holding (Stored i) = Some i"
| "holding _ = None"

fun progress :: "int list \<Rightarrow> tstate \<Rightarrow> int" where
  "progress keys (Idle i) = i"
| "progress keys (Locking i) = i"
| "progress keys (Locked i) = i"
| "progress keys (Loaded i nxt) = i"
| "progress keys (Stored i) = i + 1"
| "progress keys Finished = int (length keys)"
| "progress keys Faulted = 0"

fun thr_ok :: "int list \<Rightarrow> nat \<Rightarrow> nat \<Rightarrow> tstate \<Rightarrow> bool" where
  "thr_ok keys n t (Idle i) \<longleftrightarrow> 0 \<le> i \<and> i < int (length keys) + int n \<and> nat i mod n = t"
| "thr_ok keys n t (Locking i) \<longleftrightarrow> 0 \<le> i \<and> i < int (length keys) \<and> nat i mod n = t"
| "thr_ok keys n t (Locked i) \<longleftrightarrow> 0 \<le> i \<and> i < int (length keys) \<and> nat i mod n = t"
| "thr_ok keys n t (Loaded i nxt) \<longleftrightarrow> 0 \<le> i \<and> i < int (length keys) \<and> nat i mod n = t"
| "thr_ok keys n t (Stored i) \<longleftrightarrow> 0 \<le> i \<and> i < int (length keys) \<and> nat i mod n = t"
| "thr_ok keys n t Finished \<longleftrightarrow> True"
| "thr_ok keys n t Faulted \<longleftrightarrow> False"

definition inserted :: "int list \<Rightarrow> nat \<Rightarrow> nat \<Rightarrow> tstate \<Rightarrow> nat \<Rightarrow> bool" where
  "inserted keys n t st j \<longleftrightarrow> j < length keys \<and> j mod n = t \<and> int j < progress keys st"

definition locks_inv :: "(nat \<Rightarrow> nat option) \<Rightarrow> int list \<Rightarrow> nat \<Rightarrow> hstate \<Rightarrow> bool" where
  "locks_inv lock_of keys n s \<longleftrightarrow>
     (\<forall>l t. owner s l = Some t \<longleftrightarrow>
        t < n \<and> (\<exists>i. holding (threads s ! t) = Some i \<and> lock_of (bk keys i) = Some l))"

definition loaded_inv :: "int list \<Rightarrow> nat \<Rightarrow> hstate \<Rightarrow> bool" where
  "loaded_inv keys n s \<longleftrightarrow>
     (\<forall>t<n. \<forall>i nxt. threads s ! t = Loaded i nxt \<longrightarrow> nxt = htab s ! bk keys i)"

definition content_inv :: "int list \<Rightarrow> nat \<Rightarrow> hstate \<Rightarrow> bool" where
  "content_inv keys n s \<longleftrightarrow>
     (\<forall>b<5. set (htab s ! b) =
        {(keys ! j, int t) | j t. t < n \<and> inserted keys n t (threads s ! t) j \<and> bk keys (int j) = b})"

definition hinv :: "(nat \<Rightarrow> nat option) \<Rightarrow> int list \<Rightarrow> nat \<Rightarrow> hstate \<Rightarrow> bool" where
  "hinv lock_of keys n s \<longleftrightarrow>
     length (htab s) = 5 \<and> length (threads s) = n \<and> (\<forall>t<n. thr_ok keys n t (threads s ! t)) \<and>
     locks_inv lock_of keys n s \<and> loaded_inv keys n s \<and> content_inv keys n s"

lemma hinv_init: "ht_ok keys n \<Longrightarrow> hinv lock_of keys n (put_init n)"
  by (auto simp: hinv_def put_init_def locks_inv_def loaded_inv_def content_inv_def inserted_def ht_ok_def)
     (use mod_less_eq_dividend not_le in blast)

lemma bk_range: "ht_ok keys n \<Longrightarrow> 0 \<le> i \<Longrightarrow> i < int (length keys) \<Longrightarrow> bk keys i < 5 \<and> 0 \<le> bucket (keys ! nat i)"
  using bucket_range[of "keys ! nat i"] by (auto simp: ht_ok_def)

text \<open>A change of one thread that moves neither locks nor entries.\<close>

lemma hinv_local:
  assumes inv: "hinv lock_of keys n s" and t: "t < n" and ok: "thr_ok keys n t st"
    and hold: "holding st = holding (threads s ! t)"
    and ins: "\<And>j. inserted keys n t st j = inserted keys n t (threads s ! t) j"
    and ld: "\<And>i nxt. st = Loaded i nxt \<Longrightarrow> nxt = htab s ! bk keys i"
  shows "hinv lock_of keys n (set_thread t st s)"
proof -
  let ?s = "set_thread t st s"
  have len: "length (threads s) = n" using inv by (simp add: hinv_def)
  have nth: "threads ?s ! u = (if u = t then st else threads s ! u)" if "u < n" for u
    using that len by simp
  have "locks_inv lock_of keys n ?s"
    using inv nth hold unfolding hinv_def locks_inv_def by (simp cong: conj_cong)
  moreover have "loaded_inv keys n ?s"
    using inv nth ld unfolding hinv_def loaded_inv_def by auto
  moreover have "content_inv keys n ?s"
  proof -
    have "inserted keys n u (threads ?s ! u) j = inserted keys n u (threads s ! u) j" if "u < n" for u j
      using nth[OF that] ins by simp
    then show ?thesis using inv unfolding hinv_def content_inv_def by (simp cong: conj_cong)
  qed
  ultimately show ?thesis using inv nth ok unfolding hinv_def by auto
qed

lemma hinv_panic: "hinv lock_of keys n (s\<lparr>panicked := b\<rparr>) = hinv lock_of keys n s"
  by (simp add: hinv_def locks_inv_def loaded_inv_def content_inv_def)

text \<open>The index after the last insertion of a thread: no index of the thread lies in between.\<close>

lemma stride:
  assumes "j mod n = i mod n" and "(j :: nat) < i + n"
  shows "j \<le> i"
proof (rule ccontr)
  assume "\<not> j \<le> i"
  then have "n dvd j - i" using assms(1) by (simp add: mod_eq_dvd_iff_nat)
  moreover have "0 < j - i" "j - i < n" using assms(2) \<open>\<not> j \<le> i\<close> by simp_all
  ultimately show False by (meson dvd_imp_le not_le)
qed

section \<open>Progress\<close>

text \<open>The steps a thread has left, at most.\<close>

fun weight :: "int list \<Rightarrow> nat \<Rightarrow> tstate \<Rightarrow> nat" where
  "weight keys n (Idle i) = 5 * nat (int (length keys) + int n - i) + 5"
| "weight keys n (Locking i) = 5 * nat (int (length keys) + int n - i) + 4"
| "weight keys n (Locked i) = 5 * nat (int (length keys) + int n - i) + 3"
| "weight keys n (Loaded i nxt) = 5 * nat (int (length keys) + int n - i) + 2"
| "weight keys n (Stored i) = 5 * nat (int (length keys) + int n - i) + 1"
| "weight keys n Finished = 0"
| "weight keys n Faulted = 0"

definition put_weight :: "int list \<Rightarrow> nat \<Rightarrow> hstate \<Rightarrow> nat" where
  "put_weight keys n s = sum_list (map (weight keys n) (threads s)) + (if panicked s then 0 else 1)"

definition all_finished :: "hstate \<Rightarrow> bool" where
  "all_finished s \<longleftrightarrow> \<not> panicked s \<and> list_all (\<lambda>st. st = Finished) (threads s)"

lemma weight_update:
  assumes "t < length ts" and "weight keys n st < weight keys n (ts ! t)"
  shows "sum_list (map (weight keys n) (ts[t := st])) < sum_list (map (weight keys n) ts)"
proof -
  have "weight keys n (ts ! t) \<le> sum_list (map (weight keys n) ts)"
    using assms(1) by (intro member_le_sum_list) auto
  then show ?thesis using assms by (simp add: map_update sum_list_update)
qed

text \<open>The threads are where the code can be; this does not depend on the locks.\<close>

definition threads_ok :: "int list \<Rightarrow> nat \<Rightarrow> hstate \<Rightarrow> bool" where
  "threads_ok keys n s \<longleftrightarrow> length (threads s) = n \<and> (\<forall>t<n. thr_ok keys n t (threads s ! t))"

lemma hinv_threads: "hinv lock_of keys n s \<Longrightarrow> threads_ok keys n s"
  by (simp add: hinv_def threads_ok_def)

lemma put_exec_weight:
  assumes "threads_ok keys n s" and "ht_ok keys n" and "put_exec lock_of mem keys n t s = Some s'"
  shows "put_weight keys n s' < put_weight keys n s"
proof -
  have np: "\<not> panicked s" "t < length (threads s)" "t < n"
    using assms(1,3) by (auto simp: put_exec_def threads_ok_def split: if_splits)
  have tok: "thr_ok keys n t (threads s ! t)" using assms(1) np by (simp add: threads_ok_def)
  have wr: "swrap (i + int n) = i + int n" if "0 \<le> i" "i < int (length keys)" for i
    using that assms(2) by (intro swrap_id) (auto simp: in_int_def ht_ok_def INT_MIN_def)
  have step: "\<exists>st. threads s' = (threads s)[t := st] \<and> panicked s' = panicked s \<and>
      weight keys n st < weight keys n (threads s ! t) \<or> threads s' = threads s \<and> panicked s'"
  proof (cases "threads s ! t")
    case (Stored i)
    then have "threads s' = (threads s)[t := Idle (i + int n)]" "panicked s' = panicked s"
      using assms(3) np tok wr by (auto simp: put_exec_def drop_lock_def split: option.splits)
    moreover have "weight keys n (Idle (i + int n)) < weight keys n (Stored i)"
      using tok Stored assms(2) by (auto simp: ht_ok_def)
    ultimately show ?thesis using Stored by auto
  next
    case (Locking i)
    then show ?thesis using assms(3) np
      by (auto simp: put_exec_def take_lock_def split: if_splits option.splits)
  qed (use assms(3) np tok in \<open>auto simp: put_exec_def split: if_splits\<close>)
  then show ?thesis
    using weight_update[OF np(2)] np(1) by (auto simp: put_weight_def)
qed

section \<open>The contract of the locks\<close>

locale lock_discipline =
  fixes lock_of :: "nat \<Rightarrow> nat option"
  assumes covered: "lock_of b \<noteq> None"
begin

lemma exclusive:
  assumes "hinv lock_of keys n s" and "t < n" and "u < n"
    and "holding (threads s ! t) = Some i" and "holding (threads s ! u) = Some j" and "bk keys i = bk keys j"
  shows "t = u"
proof -
  obtain l where l: "lock_of (bk keys i) = Some l" using covered[of "bk keys i"] by (cases "lock_of (bk keys i)") auto
  have "owner s l = Some t" "owner s l = Some u"
    using assms l unfolding hinv_def locks_inv_def by (metis (no_types, lifting))+
  then show ?thesis by simp
qed

lemma lock_inv:
  assumes inv: "hinv lock_of keys n s" and ok: "ht_ok keys n" and t: "t < n" and st: "threads s ! t = Locking i"
    and tl: "take_lock (lock_of (bk keys i)) t s = Some u"
  shows "hinv lock_of keys n (set_thread t (Locked i) u)"
proof -
  obtain l where l: "lock_of (bk keys i) = Some l" using covered[of "bk keys i"] by auto
  then have fr: "owner s l = None" and u: "u = s\<lparr>owner := (owner s)(l := Some t)\<rparr>"
    using tl by (auto simp: take_lock_def split: if_splits)
  let ?s = "set_thread t (Locked i) u"
  have nth: "threads ?s ! v = (if v = t then Locked i else threads s ! v)" if "v < n" for v
    using that inv by (simp add: hinv_def u)
  have own: "owner s k = Some v \<longleftrightarrow> v < n \<and> (\<exists>j. holding (threads s ! v) = Some j \<and> lock_of (bk keys j) = Some k)" for k v
    using inv by (simp add: hinv_def locks_inv_def)
  have ins: "inserted keys n v (threads ?s ! v) j = inserted keys n v (threads s ! v) j" if "v < n" for v j
    using nth[OF that] st by (simp add: inserted_def)
  have "owner ?s k = Some v \<longleftrightarrow> v < n \<and> (\<exists>j. holding (threads ?s ! v) = Some j \<and> lock_of (bk keys j) = Some k)" for k v
  proof (cases "v = t")
    case True
    then show ?thesis using own[of k t] nth[OF t] t l st by (simp add: u)
  next
    case False
    then show ?thesis using own[of k v] nth[of v] fr by (auto simp: u)
  qed
  then have "locks_inv lock_of keys n ?s" by (simp add: locks_inv_def)
  moreover have "loaded_inv keys n ?s"
    using inv nth by (auto simp: hinv_def loaded_inv_def u split: if_splits)
  moreover have "content_inv keys n ?s"
    using inv ins unfolding hinv_def content_inv_def by (simp add: u cong: conj_cong)
  moreover have "thr_ok keys n v (threads ?s ! v)" if "v < n" for v
    using inv nth[OF that] that st by (auto simp: hinv_def dest!: spec[of _ t])
  ultimately show ?thesis using inv by (simp add: hinv_def u)
qed

lemma unlock_inv:
  assumes inv: "hinv lock_of keys n s" and ok: "ht_ok keys n" and t: "t < n" and st: "threads s ! t = Stored i"
  shows "hinv lock_of keys n (set_thread t (Idle (swrap (i + int n))) (drop_lock (lock_of (bk keys i)) s))"
proof -
  obtain l where l: "lock_of (bk keys i) = Some l" using covered[of "bk keys i"] by auto
  have i: "0 \<le> i" "i < int (length keys)" "nat i mod n = t" using inv t st by (force simp: hinv_def)+
  have nx: "swrap (i + int n) = i + int n"
    using i ok by (intro swrap_id) (auto simp: in_int_def ht_ok_def INT_MIN_def)
  let ?s = "set_thread t (Idle (i + int n)) (drop_lock (lock_of (bk keys i)) s)"
  have nth: "threads ?s ! v = (if v = t then Idle (i + int n) else threads s ! v)" if "v < n" for v
    using that inv by (simp add: hinv_def drop_lock_def l)
  have own: "owner s k = Some v \<longleftrightarrow> v < n \<and> (\<exists>j. holding (threads s ! v) = Some j \<and> lock_of (bk keys j) = Some k)" for k v
    using inv by (simp add: hinv_def locks_inv_def)
  have mine: "owner s l = Some t" using own[of l t] t st l by simp
  have ins: "inserted keys n v (threads ?s ! v) j = inserted keys n v (threads s ! v) j" if "v < n" for v j
  proof (cases "v = t")
    case True
    obtain m where m: "i = int m" using i(1) by (rule nonneg_int_cases)
    have "j mod n = t \<Longrightarrow> int j < i + int n \<longleftrightarrow> int j < i + 1"
      using stride[of j n m] i(3) ok by (auto simp: m ht_ok_def)
    then show ?thesis using True nth[OF that] st by (auto simp: inserted_def)
  qed (use nth[OF that] in simp)
  have "owner ?s k = Some v \<longleftrightarrow> v < n \<and> (\<exists>j. holding (threads ?s ! v) = Some j \<and> lock_of (bk keys j) = Some k)" for k v
  proof (cases "v = t")
    case True
    then show ?thesis using own[of k t] nth[OF t] t l st mine by (auto simp: drop_lock_def)
  next
    case False
    then show ?thesis using own[of k v] nth[of v] mine l by (auto simp: drop_lock_def)
  qed
  then have "locks_inv lock_of keys n ?s" by (simp add: locks_inv_def)
  moreover have "loaded_inv keys n ?s"
    using inv nth l by (auto simp: hinv_def loaded_inv_def drop_lock_def split: if_splits)
  moreover have "content_inv keys n ?s"
    using inv ins unfolding hinv_def content_inv_def by (simp add: drop_lock_def l cong: conj_cong)
  moreover have "thr_ok keys n v (threads ?s ! v)" if "v < n" for v
    using inv nth[OF that] that i by (auto simp: hinv_def nat_add_distrib)
  ultimately show ?thesis using inv by (simp add: hinv_def drop_lock_def l nx)
qed

lemma store_inv:
  assumes inv: "hinv lock_of keys n s" and ok: "ht_ok keys n" and t: "t < n" and st: "threads s ! t = Loaded i nxt"
  shows "hinv lock_of keys n (set_thread t (Stored i) (s\<lparr>htab := (htab s)[bk keys i := (keys ! nat i, int t) # nxt]\<rparr>))"
proof -
  let ?s = "set_thread t (Stored i) (s\<lparr>htab := (htab s)[bk keys i := (keys ! nat i, int t) # nxt]\<rparr>)"
  have i: "0 \<le> i" "i < int (length keys)" "nat i mod n = t" using inv t st by (force simp: hinv_def)+
  have b: "bk keys i < 5" using bk_range[OF ok i(1,2)] by simp
  have len: "length (htab s) = 5" "length (threads s) = n" using inv by (simp_all add: hinv_def)
  have nxt: "nxt = htab s ! bk keys i" using inv t st by (simp add: hinv_def loaded_inv_def)
  have nth: "threads ?s ! v = (if v = t then Stored i else threads s ! v)" if "v < n" for v
    using that len by simp
  have tab: "htab ?s ! c = (if c = bk keys i then (keys ! nat i, int t) # htab s ! c else htab s ! c)" if "c < 5" for c
    using that len by (simp add: nxt)
  have ins: "inserted keys n v (threads ?s ! v) j \<longleftrightarrow> inserted keys n v (threads s ! v) j \<or> v = t \<and> j = nat i"
    if "v < n" for v j
    using nth[OF that] st i by (auto simp: inserted_def)
  have "locks_inv lock_of keys n ?s"
    using inv nth st unfolding hinv_def locks_inv_def by (auto split: if_splits)
  moreover have "loaded_inv keys n ?s"
    unfolding loaded_inv_def
  proof (intro allI impI)
    fix v j y
    assume v: "v < n" and ld: "threads ?s ! v = Loaded j y"
    then have vt: "v \<noteq> t" "threads s ! v = Loaded j y" using nth[OF v] by (auto split: if_splits)
    then have "bk keys j \<noteq> bk keys i" using exclusive[OF inv v t, of j i] st by auto
    then show "y = htab ?s ! bk keys j" using inv v vt by (simp add: hinv_def loaded_inv_def)
  qed
  moreover have "content_inv keys n ?s"
    unfolding content_inv_def
  proof (intro allI impI)
    fix c :: nat
    assume c: "c < 5"
    have old: "set (htab s ! c) =
        {(keys ! j, int v) | j v. v < n \<and> inserted keys n v (threads s ! v) j \<and> bk keys (int j) = c}"
      using inv c by (simp add: hinv_def content_inv_def)
    show "set (htab ?s ! c) =
        {(keys ! j, int v) | j v. v < n \<and> inserted keys n v (threads ?s ! v) j \<and> bk keys (int j) = c}"
    proof -
      have "{(keys ! j, int v) | j v. v < n \<and> inserted keys n v (threads ?s ! v) j \<and> bk keys (int j) = c} =
          set (htab s ! c) \<union> {(keys ! j, int v) | j v. v = t \<and> j = nat i \<and> bk keys (int j) = c}"
        unfolding old using ins t by blast
      then show ?thesis unfolding tab[OF c] by auto
    qed
  qed
  moreover have "thr_ok keys n v (threads ?s ! v)" if "v < n" for v
    using inv nth[OF that] that i by (auto simp: hinv_def)
  ultimately show ?thesis using len by (simp add: hinv_def)
qed

lemma put_step_inv:
  assumes inv: "hinv lock_of keys n s" and ok: "ht_ok keys n" and st: "put_step lock_of mem keys n s s'"
  shows "hinv lock_of keys n s'"
proof -
  obtain t where ex: "put_exec lock_of mem keys n t s = Some s'" using st by (auto simp: put_step_def)
  then have t: "t < n" using inv by (auto simp: put_exec_def hinv_def split: if_splits)
  have tok: "thr_ok keys n t (threads s ! t)" using inv t by (simp add: hinv_def)
  have np: "\<not> panicked s" "\<not> t \<ge> length (threads s)" using ex by (auto simp: put_exec_def split: if_splits)
  show ?thesis
  proof (cases "threads s ! t")
    case (Idle i)
    then consider "s' = set_thread t (Locking i) s" "i < int (length keys)" | "s' = s\<lparr>panicked := True\<rparr>"
      | "s' = set_thread t Finished s" "i \<ge> int (length keys)"
      using ex np tok by (auto simp: put_exec_def split: if_splits)
    then show ?thesis
    proof cases
      case 1
      then show ?thesis using hinv_local[OF inv t, of "Locking i"] tok Idle by (simp add: inserted_def)
    next
      case 2
      then show ?thesis using inv by (simp add: hinv_panic)
    next
      case 3
      then have "inserted keys n t Finished j = inserted keys n t (threads s ! t) j" for j
        using Idle by (auto simp: inserted_def)
      then show ?thesis using hinv_local[OF inv t, of Finished] Idle 3(1) by simp
    qed
  next
    case (Locking i)
    have "\<not> bucket (keys ! nat i) < 0" using bk_range[OF ok, of i] tok Locking by simp
    then obtain u where "take_lock (lock_of (bk keys i)) t s = Some u" "s' = set_thread t (Locked i) u"
      using ex np Locking by (auto simp: put_exec_def)
    then show ?thesis using lock_inv[OF inv ok t Locking] by simp
  next
    case (Locked i)
    then have s': "s' = set_thread t (Loaded i (htab s ! bk keys i)) s" using ex np by (simp add: put_exec_def)
    show ?thesis
      unfolding s' by (rule hinv_local[OF inv t]) (use tok Locked in \<open>auto simp: inserted_def\<close>)
  next
    case (Loaded i nxt)
    then show ?thesis using store_inv[OF inv ok t Loaded] ex np by (simp add: put_exec_def)
  next
    case (Stored i)
    then show ?thesis using unlock_inv[OF inv ok t Stored] ex np by (simp add: put_exec_def)
  qed (use ex np in \<open>simp_all add: put_exec_def\<close>)
qed

text \<open>A thread that holds its lock can go on; if no thread holds a lock, every lock is free.\<close>

lemma put_progress:
  assumes inv: "hinv lock_of keys n s" and ok: "ht_ok keys n" and np: "\<not> panicked s" and nf: "\<not> all_finished s"
  shows "\<exists>s'. put_step lock_of mem keys n s s'"
proof -
  have len: "length (threads s) = n" using inv by (simp add: hinv_def)
  have tok: "t < n \<Longrightarrow> thr_ok keys n t (threads s ! t)" for t using inv by (simp add: hinv_def)
  show ?thesis
  proof (cases "\<exists>t<n. holding (threads s ! t) \<noteq> None")
    case True
    then obtain t where t: "t < n" "holding (threads s ! t) \<noteq> None" by blast
    then have "put_exec lock_of mem keys n t s \<noteq> None"
      using np len by (cases "threads s ! t") (auto simp: put_exec_def)
    then show ?thesis by (auto simp: put_step_def)
  next
    case False
    have free: "owner s l = None" for l
    proof (cases "owner s l")
      case (Some u)
      then have "u < n \<and> (\<exists>i. holding (threads s ! u) = Some i \<and> lock_of (bk keys i) = Some l)"
        using inv unfolding hinv_def locks_inv_def by blast
      then show ?thesis using False by auto
    qed simp
    obtain t where t: "t < n" "threads s ! t \<noteq> Finished"
      using nf np len by (auto simp: all_finished_def list_all_length)
    have "put_exec lock_of mem keys n t s \<noteq> None"
      using np len t tok[OF t(1)] free
      by (cases "threads s ! t") (auto simp: put_exec_def take_lock_def split: option.splits)
    then show ?thesis by (auto simp: put_step_def)
  qed
qed

end

section \<open>Both locking schemes satisfy the contract\<close>

interpretation mutexes: lock_discipline lock_mutex
  by unfold_locales (simp add: lock_mutex_def)

interpretation spin: lock_discipline lock_spin
  by unfold_locales (simp add: lock_spin_def)

text \<open>The put phase as a transition system, for inputs that \<open>ht_ok\<close> admits.\<close>

definition put_start :: "int list \<Rightarrow> nat \<Rightarrow> hstate \<Rightarrow> bool" where
  "put_start keys n s \<longleftrightarrow> ht_ok keys n \<and> s = put_init n"

definition put_inv :: "(nat \<Rightarrow> nat option) \<Rightarrow> int list \<Rightarrow> nat \<Rightarrow> hstate \<Rightarrow> bool" where
  "put_inv lock_of keys n s \<longleftrightarrow> ht_ok keys n \<and> hinv lock_of keys n s"

interpretation mutex_put: transition_system "put_start keys n" "put_step lock_mutex mem keys n" "put_inv lock_mutex keys n"
  for keys n mem
  by unfold_locales (auto simp: put_start_def put_inv_def intro: hinv_init mutexes.put_step_inv)

interpretation spin_put: transition_system "put_start keys n" "put_step lock_spin mem keys n" "put_inv lock_spin keys n"
  for keys n mem
  by unfold_locales (auto simp: put_start_def put_inv_def intro: hinv_init spin.put_step_inv)

section \<open>Retrieval after the barrier\<close>

lemma chain_find_None: "chain_find key bs = None \<longleftrightarrow> (\<forall>b\<in>set bs. fst b \<noteq> key)"
  by (induction bs) auto

lemma chain_find_Some: "chain_find key bs = Some e \<Longrightarrow> e \<in> set bs \<and> fst e = key"
  by (induction bs) (auto split: if_splits)

lemma finished_table:
  assumes "hinv lock_of keys n s" and "ht_ok keys n" and "all_finished s" and "b < 5"
  shows "set (htab s ! b) = {(keys ! j, int (j mod n)) | j. j < length keys \<and> bk keys (int j) = b}"
proof -
  have fin: "threads s ! t = Finished" if "t < n" for t
    using assms(1,3) that by (simp add: hinv_def all_finished_def list_all_length)
  have "0 < n" using assms(2) by (simp add: ht_ok_def)
  then show ?thesis
    using assms(1,4) fin by (auto simp: hinv_def content_inv_def inserted_def)
qed

lemma finished_retrieve:
  assumes "hinv lock_of keys n s" and "ht_ok keys n" and "all_finished s" and "j < length keys"
  shows "\<exists>e. retrieve (keys ! j) (htab s) = Inr (Some e) \<and> fst e = keys ! j"
proof -
  have b: "bk keys (int j) < 5" "0 \<le> bucket (keys ! j)" using bk_range[OF assms(2), of "int j"] assms(4) by simp_all
  have "(keys ! j, int (j mod n)) \<in> set (htab s ! bk keys (int j))"
    using finished_table[OF assms(1-3) b(1)] assms(4) by auto
  then have "chain_find (keys ! j) (htab s ! nat (bucket (keys ! j))) \<noteq> None"
    unfolding chain_find_None by force
  then show ?thesis using b(2) chain_find_Some by (force simp: retrieve_def)
qed

lemma get_loop_none_lost:
  assumes "\<And>j. j < length keys \<Longrightarrow> \<exists>e. retrieve (keys ! j) tab = Inr (Some e)"
    and "ht_ok keys n" and "0 \<le> i"
  shows "get_loop keys n i lost tab = Inr lost"
  using assms
proof (induction keys n i lost tab rule: get_loop.induct)
  case (1 keys n i lost tab)
  show ?case
  proof (cases "i < int (length keys)")
    case False
    then show ?thesis by (simp add: get_loop.simps)
  next
    case True
    have nx: "swrap (i + int n) = i + int n"
      using True 1(4,5) by (intro swrap_id) (auto simp: in_int_def ht_ok_def INT_MIN_def)
    obtain e where e: "retrieve (keys ! nat i) tab = Inr (Some e)"
      using 1(3)[of "nat i"] True 1(5) by (metis nat_less_iff)
    have g: "\<not> (n = 0 \<or> INT_MAX < int n \<or> int (length keys) \<le> i)" "\<not> (i < 0 \<or> INT_MAX < i)"
      using True 1(4,5) by (auto simp: ht_ok_def)
    have "get_loop keys n (swrap (i + int n)) lost tab = Inr lost"
      using 1(2)[OF g e refl] 1(3,4,5) nx by simp
    then show ?thesis using g e by (simp add: get_loop.simps[of keys n i])
  qed
qed

lemma none_lost:
  assumes "hinv lock_of keys n s" and "ht_ok keys n" and "all_finished s"
  shows "get_phase keys n t (htab s) = Inr 0" and "report keys n (htab s) = Inr (int (length keys))"
proof -
  have g: "get_phase keys n t (htab s) = Inr 0" for t
    unfolding get_phase_def
    by (rule get_loop_none_lost) (use finished_retrieve[OF assms] assms(2) in \<open>blast | simp\<close>)+
  have "total_lost keys n k (htab s) = Inr 0" for k by (induction k) (simp_all add: g)
  then show "get_phase keys n t (htab s) = Inr 0" "report keys n (htab s) = Inr (int (length keys))"
    using g by (simp_all add: report_def)
qed


lemma reachable_hinv:
  assumes "lk = lock_mutex \<or> lk = lock_spin" and "ht_ok keys n" and "(put_step lk mem keys n)\<^sup>*\<^sup>* (put_init n) s"
  shows "hinv lk keys n s"
  using assms mutex_put.reachable_inv[of keys n "put_init n" mem s] spin_put.reachable_inv[of keys n "put_init n" mem s]
  by (auto simp: put_start_def put_inv_def)

lemma run_schedule_reachable: "(put_step lk mem keys n)\<^sup>*\<^sup>* s (run_schedule lk mem keys n ts s)"
proof (induction ts arbitrary: s)
  case (Cons t ts)
  show ?case
  proof (cases "put_exec lk mem keys n t s")
    case None
    then show ?thesis using Cons[of s] by simp
  next
    case (Some s')
    then have "put_step lk mem keys n s s'" by (auto simp: put_step_def)
    then show ?thesis using Cons[of s'] Some by (simp add: converse_rtranclp_into_rtranclp)
  qed
qed simp

section \<open>Properties\<close>

text \<open>
  C29. With the per-bucket mutexes or with the spinlock, in every interleaving of any number of
  threads, no key is lost: when all threads have finished, the bucket chains hold exactly
  the keys of that bucket, each with the thread that inserted it, every retrieval
  finds its key, and main reports all keys as retrieved.
\<close>

theorem no_keys_lost:
  assumes "lk = lock_mutex \<or> lk = lock_spin" and "ht_ok keys n"
    and "(put_step lk mem keys n)\<^sup>*\<^sup>* (put_init n) s" and "all_finished s"
  shows "(\<forall>b<5. set (htab s ! b) =
      {(keys ! j, int (j mod n)) | j. j < length keys \<and> nat (bucket (keys ! j)) = b}) \<and>
    (\<forall>j<length keys. \<exists>e. retrieve (keys ! j) (htab s) = Inr (Some e) \<and> fst e = keys ! j) \<and>
    report keys n (htab s) = Inr (int (length keys))"
proof -
  have inv: "hinv lk keys n s" by (rule reachable_hinv[OF assms(1-3)])
  show ?thesis
    using finished_table[OF inv assms(2,4)] finished_retrieve[OF inv assms(2,4)] none_lost(2)[OF inv assms(2,4)] by simp
qed

text \<open>Two threads and three keys of one bucket; the second thread is blocked for a while.\<close>

definition demo_keys :: "int list" where
  "demo_keys = [0, 5, 10]"

definition demo_schedule :: "nat list" where
  "demo_schedule = [0, 1, 0, 1, 0, 1, 0, 1, 0, 1, 1, 0, 0, 1, 1, 0, 0, 0, 0, 0, 0, 0, 1, 1, 1, 1, 1]"

definition demo_end :: "(nat \<Rightarrow> nat option) \<Rightarrow> hstate" where
  "demo_end lk = run_schedule lk (\<lambda>t i. True) demo_keys 2 demo_schedule (put_init 2)"

theorem no_keys_lost_witness:
  "all_finished (demo_end lock_mutex) \<and> report demo_keys 2 (htab (demo_end lock_mutex)) = Inr 3"
proof -
  have f: "all_finished (demo_end lock_mutex)" "ht_ok demo_keys 2" by code_simp+
  have "(put_step lock_mutex (\<lambda>t i. True) demo_keys 2)\<^sup>*\<^sup>* (put_init 2) (demo_end lock_mutex)"
    unfolding demo_end_def by (rule run_schedule_reachable)
  then have "report demo_keys 2 (htab (demo_end lock_mutex)) = Inr (int (length demo_keys))"
    using no_keys_lost[of lock_mutex demo_keys 2 "\<lambda>t i. True" "demo_end lock_mutex"] f by blast
  then show ?thesis using f by (simp add: demo_keys_def)
qed

text \<open>
  C32. Under either lock the put phase cannot get stuck and cannot go on forever: in a reachable state
  no thread accesses memory out of bounds, some thread can make a step unless all have
  finished or the program panicked, and every step lowers a natural number.
\<close>

theorem put_phase_terminates:
  assumes "lk = lock_mutex \<or> lk = lock_spin" and "ht_ok keys n"
    and "(put_step lk mem keys n)\<^sup>*\<^sup>* (put_init n) s"
  shows "(\<forall>t<n. threads s ! t \<noteq> Faulted) \<and>
    (panicked s \<or> all_finished s \<or> (\<exists>s'. put_step lk mem keys n s s')) \<and>
    (\<forall>s'. put_step lk mem keys n s s' \<longrightarrow> put_weight keys n s' < put_weight keys n s)"
proof -
  have inv: "hinv lk keys n s" by (rule reachable_hinv[OF assms])
  have "t < n \<Longrightarrow> threads s ! t \<noteq> Faulted" for t using inv by (auto simp: hinv_def dest!: spec[of _ t])
  moreover have "panicked s \<or> all_finished s \<or> (\<exists>s'. put_step lk mem keys n s s')"
    using mutexes.put_progress[of keys n s mem] spin.put_progress[of keys n s mem] inv assms(1,2) by blast
  moreover have "put_step lk mem keys n s s' \<Longrightarrow> put_weight keys n s' < put_weight keys n s" for s'
    using put_exec_weight[OF hinv_threads[OF inv] assms(2)] by (auto simp: put_step_def)
  ultimately show ?thesis by blast
qed

theorem put_phase_terminates_witness:
  "\<exists>s'. put_step lock_spin (\<lambda>t i. True) demo_keys 2 (put_init 2) s' \<and> put_weight demo_keys 2 s' < put_weight demo_keys 2 (put_init 2)"
proof -
  have h: "ht_ok demo_keys 2" "\<not> panicked (put_init 2)" "\<not> all_finished (put_init 2)" by code_simp+
  show ?thesis
    using put_phase_terminates[of lock_spin demo_keys 2 "\<lambda>t i. True" "put_init 2"] h by blast
qed

end
