(* ===== verification/Hashtable_Main.thy ===== *)
theory Hashtable_Main
  imports Hashtable_Props "HOL-Library.Multiset"
begin

text \<open>
  The hash table programs as a whole. First what the put phase looks like from outside: every
  index of the key array is inserted once and atomically, in some order. Then the three
  \<^verbatim>\<open>main\<close> functions of \<^verbatim>\<open>src/hw4\<close>, from the arguments to the line they print, run under an
  explicit schedule of the threads.
\<close>

section \<open>Insertion as an atomic step\<close>

text \<open>The entry an index stands for, the indices inserted so far, and the entries in the table.\<close>

definition entry_of :: "int list \<Rightarrow> nat \<Rightarrow> nat \<Rightarrow> entry" where
  "entry_of keys n j = (keys ! j, int (j mod n))"

definition stored :: "int list \<Rightarrow> nat \<Rightarrow> hstate \<Rightarrow> nat set" where
  "stored keys n s = {j. inserted keys n (j mod n) (threads s ! (j mod n)) j}"

definition contents :: "hstate \<Rightarrow> entry multiset" where
  "contents s = mset (concat (htab s))"

text \<open>The specification: an index that is not there yet is added.\<close>

definition add_index :: "int list \<Rightarrow> nat set \<Rightarrow> nat set \<Rightarrow> bool" where
  "add_index keys D D' \<longleftrightarrow> (\<exists>j<length keys. j \<notin> D \<and> D' = insert j D)"

definition exact :: "int list \<Rightarrow> nat \<Rightarrow> hstate \<Rightarrow> bool" where
  "exact keys n s \<longleftrightarrow> contents s = image_mset (entry_of keys n) (mset_set (stored keys n s))"

lemma finite_stored: "finite (stored keys n s)"
  by (rule finite_subset[of _ "{..<length keys}"]) (auto simp: stored_def inserted_def)

lemma mset_concat_push:
  "b < length xs \<Longrightarrow> mset (concat (xs[b := e # xs ! b])) = add_mset e (mset (concat xs))"
  by (induction xs arbitrary: b) (auto split: nat.splits)

lemma stored_same:
  assumes "threads s' = (threads s)[t := st]" and "t < length (threads s)"
    and "\<And>j. inserted keys n t st j = inserted keys n t (threads s ! t) j"
  shows "stored keys n s' = stored keys n s"
proof -
  have "inserted keys n u (threads s' ! u) j = inserted keys n u (threads s ! u) j" for u j
    using assms by (cases "u = t") simp_all
  then show ?thesis by (simp add: stored_def)
qed

context lock_discipline
begin

lemma store_effect:
  assumes inv: "hinv lock_of keys n s" and ok: "ht_ok keys n" and t: "t < length (threads s)"
    and st: "threads s ! t = Loaded i nxt" and ex: "put_exec lock_of mem keys n t s = Some s'"
  shows "nat i < length keys \<and> nat i \<notin> stored keys n s \<and> stored keys n s' = insert (nat i) (stored keys n s) \<and>
    contents s' = add_mset (entry_of keys n (nat i)) (contents s)"
proof -
  have np: "\<not> panicked s" "t < n" "length (htab s) = 5"
    using inv ex t by (auto simp: put_exec_def hinv_def split: if_splits)
  have tok: "thr_ok keys n t (threads s ! t)" using inv np(1,2) t by (simp add: hinv_def)
  have nxt: "nxt = htab s ! bk keys i" using inv np t st by (simp add: hinv_def loaded_inv_def)
  have i: "0 \<le> i" "i < int (length keys)" "nat i mod n = t" using tok st by simp_all
  have b: "bk keys i < length (htab s)" using bk_range[OF ok i(1,2)] np(3) by simp
  have s': "threads s' = (threads s)[t := Stored i]" "htab s' = (htab s)[bk keys i := (keys ! nat i, int t) # nxt]"
    using ex np t st by (auto simp: put_exec_def)
  have "inserted keys n u (threads s' ! u) j \<longleftrightarrow> inserted keys n u (threads s ! u) j \<or> u = t \<and> j = nat i" for u j
    using st i t by (cases "u = t") (auto simp: s' inserted_def)
  then have "stored keys n s' = insert (nat i) (stored keys n s)" using i(3) by (auto simp: stored_def)
  moreover have "nat i \<notin> stored keys n s" using i st by (simp add: stored_def inserted_def)
  moreover have "contents s' = add_mset (entry_of keys n (nat i)) (contents s)"
    using mset_concat_push[OF b] i(3) by (simp add: contents_def s' nxt entry_of_def)
  ultimately show ?thesis using i by auto
qed

lemma unlock_effect:
  assumes ok: "ht_ok keys n" and t: "t < length (threads s)" and tok: "thr_ok keys n t (Stored i)"
    and st: "threads s ! t = Stored i" and ex: "put_exec lock_of mem keys n t s = Some s'"
  shows "stored keys n s' = stored keys n s \<and> contents s' = contents s"
proof -
  have i: "0 \<le> i" "i < int (length keys)" "nat i mod n = t" using tok by simp_all
  have nx: "swrap (i + int n) = i + int n" using i ok by (intro swrap_nonneg) (auto simp: ht_ok_def)
  have s': "threads s' = (threads s)[t := Idle (i + int n)]" "htab s' = htab s"
    using ex t st nx by (auto simp: put_exec_def drop_lock_def split: option.splits if_splits)
  obtain m where m: "i = int m" using i(1) by (rule nonneg_int_cases)
  have "int j < i + int n \<longleftrightarrow> int j < i + 1" if "j mod n = t" for j
    using stride[of j n m] i(3) that ok by (auto simp: m ht_ok_def)
  then have "inserted keys n t (Idle (i + int n)) j = inserted keys n t (threads s ! t) j" for j
    using st by (auto simp: inserted_def)
  then show ?thesis using stored_same[OF s'(1) t] s'(2) by (simp add: contents_def)
qed

lemma step_effect:
  assumes inv: "hinv lock_of keys n s" and ok: "ht_ok keys n" and ex: "put_exec lock_of mem keys n t s = Some s'"
  shows "stored keys n s' = stored keys n s \<and> contents s' = contents s \<or>
    (\<exists>j<length keys. j \<notin> stored keys n s \<and> stored keys n s' = insert j (stored keys n s) \<and>
       contents s' = add_mset (entry_of keys n j) (contents s))"
proof -
  have np: "\<not> panicked s" "t < length (threads s)" "t < n" "length (htab s) = 5"
    using inv ex by (auto simp: put_exec_def hinv_def split: if_splits)
  have tok: "thr_ok keys n t (threads s ! t)" using inv np by (simp add: hinv_def)
  note same = stored_same[OF _ np(2), of s']
  show ?thesis
  proof (cases "threads s ! t")
    case (Idle i)
    then consider "s' = set_thread t (Locking i) s" | "s' = s\<lparr>panicked := True\<rparr>"
      | "s' = set_thread t Finished s" "i \<ge> int (length keys)"
      using ex np tok by (auto simp: put_exec_def split: if_splits)
    then show ?thesis
    proof cases
      case 1
      then show ?thesis using same[of "Locking i"] Idle by (simp add: contents_def inserted_def)
    next
      case 2
      then show ?thesis by (simp add: contents_def stored_def)
    next
      case 3
      then have "inserted keys n t Finished j = inserted keys n t (threads s ! t) j" for j
        using Idle by (auto simp: inserted_def)
      then show ?thesis using same[of Finished] 3(1) by (simp add: contents_def)
    qed
  next
    case (Locking i)
    then have "threads s' = (threads s)[t := Locked i]" "htab s' = htab s"
      using ex np bk_range[OF ok, of i] tok
      by (auto simp: put_exec_def take_lock_def split: if_splits option.splits)
    then show ?thesis using same[of "Locked i"] Locking by (simp add: contents_def inserted_def)
  next
    case (Locked i)
    then have s': "s' = set_thread t (Loaded i (htab s ! bk keys i)) s" using ex np by (simp add: put_exec_def)
    then show ?thesis
      using same[of "Loaded i (htab s ! bk keys i)"] Locked by (simp add: contents_def inserted_def)
  next
    case (Loaded i nxt)
    from store_effect[OF inv ok np(2) this ex] show ?thesis by blast
  next
    case (Stored i)
    then show ?thesis using unlock_effect[OF ok np(2) _ Stored ex] tok by simp
  qed (use ex np in \<open>simp_all add: put_exec_def\<close>)
qed

lemma exact_step:
  assumes "hinv lock_of keys n s" and "ht_ok keys n" and "put_step lock_of mem keys n s s'" and "exact keys n s"
  shows "exact keys n s'"
proof -
  obtain t where ex: "put_exec lock_of mem keys n t s = Some s'" using assms(3) by (auto simp: put_step_def)
  then show ?thesis
    using step_effect[OF assms(1,2) ex] assms(4) finite_stored[of keys n s] by (auto simp: exact_def)
qed

lemma index_step:
  assumes "hinv lock_of keys n s" and "ht_ok keys n" and "put_step lock_of mem keys n s s'"
  shows "stored keys n s' = stored keys n s \<or> add_index keys (stored keys n s) (stored keys n s')"
proof -
  obtain t where "put_exec lock_of mem keys n t s = Some s'" using assms(3) by (auto simp: put_step_def)
  from step_effect[OF assms(1,2) this] show ?thesis by (auto simp: add_index_def)
qed

end

text \<open>The put phase refines the specification, under either lock.\<close>

definition exact_inv :: "(nat \<Rightarrow> nat option) \<Rightarrow> int list \<Rightarrow> nat \<Rightarrow> hstate \<Rightarrow> bool" where
  "exact_inv lock_of keys n s \<longleftrightarrow> put_inv lock_of keys n s \<and> exact keys n s"

lemma stored_init: "ht_ok keys n \<Longrightarrow> stored keys n (put_init n) = {}"
  by (simp add: stored_def put_init_def inserted_def ht_ok_def not_less)

lemma exact_init: "ht_ok keys n \<Longrightarrow> exact keys n (put_init n)"
  by (simp add: exact_def stored_init) (simp add: contents_def put_init_def concat_replicate_trivial)

interpretation mutex_ref: simulation "put_start keys n" "put_step lock_mutex mem keys n" "exact_inv lock_mutex keys n"
    "stored keys n" "add_index keys" for keys n mem
  by unfold_locales
     (auto simp: put_start_def exact_inv_def put_inv_def intro: hinv_init exact_init mutexes.put_step_inv
       mutexes.exact_step dest: mutexes.index_step)

interpretation spin_ref: simulation "put_start keys n" "put_step lock_spin mem keys n" "exact_inv lock_spin keys n"
    "stored keys n" "add_index keys" for keys n mem
  by unfold_locales
     (auto simp: put_start_def exact_inv_def put_inv_def intro: hinv_init exact_init spin.put_step_inv
       spin.exact_step dest: spin.index_step)

lemma finished_stored:
  assumes "hinv lock_of keys n s" and "ht_ok keys n" and "all_finished s"
  shows "stored keys n s = {..<length keys}"
proof -
  have "threads s ! t = Finished" if "t < n" for t
    using assms(1,3) that by (simp add: hinv_def all_finished_def list_all_length)
  moreover have "j mod n < n" for j using assms(2) by (simp add: ht_ok_def)
  ultimately show ?thesis by (auto simp: stored_def inserted_def)
qed

text \<open>
  C30. The put phase under the mutexes or the spinlock implements atomic insertion: seen through the
  indices stored so far, every run is a run that adds one missing index at a time, the
  table always holds exactly the entries of these indices, each once, and at the end
  those of all indices.
\<close>

theorem insertion_refines_atomic:
  assumes "lk = lock_mutex \<or> lk = lock_spin" and "ht_ok keys n" and "(put_step lk mem keys n)\<^sup>*\<^sup>* (put_init n) s"
  shows "(add_index keys)\<^sup>*\<^sup>* {} (stored keys n s) \<and>
    contents s = image_mset (entry_of keys n) (mset_set (stored keys n s)) \<and>
    (all_finished s \<longrightarrow> contents s = image_mset (entry_of keys n) (mset_set {..<length keys}))"
proof -
  have st: "put_start keys n (put_init n)" using assms(2) by (simp add: put_start_def)
  have inv: "exact_inv lk keys n s"
    using assms(1,3) mutex_ref.reachable_inv[OF st] spin_ref.reachable_inv[OF st] by blast
  have "(add_index keys)\<^sup>*\<^sup>* (stored keys n (put_init n)) (stored keys n s)"
    using assms(1,3) mutex_ref.reachable_sim[OF st] spin_ref.reachable_sim[OF st] by blast
  then show ?thesis
    using inv finished_stored[OF _ assms(2)] stored_init[OF assms(2)]
    by (auto simp: exact_inv_def put_inv_def exact_def)
qed

theorem insertion_refines_atomic_witness:
  "contents (demo_end lock_mutex) = {#(0, 0), (5, 1), (10, 0)#}"
proof -
  have h: "ht_ok demo_keys 2" "all_finished (demo_end lock_mutex)" by code_simp+
  have r: "(put_step lock_mutex (\<lambda>t i. True) demo_keys 2)\<^sup>*\<^sup>* (put_init 2) (demo_end lock_mutex)"
    unfolding demo_end_def by (rule run_schedule_reachable)
  have "contents (demo_end lock_mutex) = image_mset (entry_of demo_keys 2) (mset_set {..<length demo_keys})"
    using insertion_refines_atomic[of lock_mutex demo_keys 2 "\<lambda>t i. True" "demo_end lock_mutex"] h r by blast
  also have "\<dots> = {#(0, 0), (5, 1), (10, 0)#}"
    by (simp add: demo_keys_def entry_of_def lessThan_nat_numeral lessThan_Suc numeral_3_eq_3)
  finally show ?thesis .
qed

section \<open>The three programs\<close>

text \<open>
  What an execution depends on besides the schedule: the number of arguments and the number
  \<^verbatim>\<open>atoi\<close> made of the first, the values of \<^verbatim>\<open>random\<close>, whether the two arrays of \<^verbatim>\<open>main\<close> can be
  allocated, whether the locks can be initialised and whether \<^verbatim>\<open>malloc\<close> succeeds in \<^verbatim>\<open>insert\<close>.
\<close>

record ht_run =
  r_argc :: nat
  r_threads :: int
  r_random :: "nat \<Rightarrow> int"
  r_handles :: bool
  r_lock_init :: "nat \<Rightarrow> bool"
  r_malloc :: "nat \<Rightarrow> int \<Rightarrow> bool"
  r_lost_array :: bool

definition fill_keys :: "ht_run \<Rightarrow> int list" where
  "fill_keys r = map (r_random r) [0..<NUM_KEYS]"

text \<open>
  How the program ends: with a message, with the message about the locks and status 1, with an
  access out of bounds, or with the lost keys of each thread and the number retrieved.
\<close>

datatype ht_outcome = Panicked string | InitFailed | Crash | Printed "int list" int

text \<open>The values joined from the threads of the get phase, in the order of the loop.\<close>

fun join_lost :: "int list \<Rightarrow> nat \<Rightarrow> nat \<Rightarrow> entry list list \<Rightarrow> ht_error + int list" where
  "join_lost keys n 0 tab = Inr []"
| "join_lost keys n (Suc k) tab =
     (case join_lost keys n k tab of
        Inl e \<Rightarrow> Inl e
      | Inr ls \<Rightarrow> (case get_phase keys n k tab of Inl e \<Rightarrow> Inl e | Inr l \<Rightarrow> Inr (ls @ [l])))"

text \<open>
  \<^verbatim>\<open>main\<close> with the locks of \<open>lock_of\<close>, \<open>locks\<close> of them to initialise, run by a schedule of the put
  phase; \<open>None\<close> while the barrier waits. The get phase only reads the table, so the order
  of its threads does not matter.
\<close>

definition ht_main :: "(nat \<Rightarrow> nat option) \<Rightarrow> nat \<Rightarrow> ht_run \<Rightarrow> nat list \<Rightarrow> ht_outcome option" where
  "ht_main lock_of locks r sched =
     (case check_args (r_argc r) (r_threads r) of
        Inl (HtPanic m) \<Rightarrow> Some (Panicked m)
      | Inl OutOfBounds \<Rightarrow> Some Crash
      | Inr n \<Rightarrow>
          (let keys = fill_keys r
           in if \<not> r_handles r then Some (Panicked ''out of memory allocating thread handles'')
              else if \<not> list_all (r_lock_init r) [0..<locks] then Some InitFailed
              else
                (let s = run_schedule lock_of (r_malloc r) keys n sched (put_init n)
                 in if panicked s then Some (Panicked ''No memory to allocate bucket!'')
                    else if Faulted \<in> set (threads s) then Some Crash
                    else if \<not> all_finished s then None
                    else if \<not> r_lost_array r then Some Crash
                    else (case join_lost keys n n (htab s) of
                            Inl e \<Rightarrow> Some Crash
                          | Inr ls \<Rightarrow> Some (Printed ls (int NUM_KEYS - sum_list ls))))))"

definition hashtable_main :: "ht_run \<Rightarrow> nat list \<Rightarrow> ht_outcome option" where
  "hashtable_main r sched = ht_main lock_none 0 r sched"

definition mutex_main :: "ht_run \<Rightarrow> nat list \<Rightarrow> ht_outcome option" where
  "mutex_main r sched = ht_main lock_mutex (nat NUM_BUCKETS) r sched"

definition spin_main :: "ht_run \<Rightarrow> nat list \<Rightarrow> ht_outcome option" where
  "spin_main r sched = ht_main lock_spin 1 r sched"

section \<open>Fair schedules\<close>

lemma run_schedule_append:
  "run_schedule lk mem keys n (xs @ ys) s = run_schedule lk mem keys n ys (run_schedule lk mem keys n xs s)"
  by (induction xs arbitrary: s) simp_all

lemma run_no_panic:
  assumes "\<And>t i. mem t i" and "\<not> panicked s"
  shows "\<not> panicked (run_schedule lk mem keys n ts s)"
proof -
  have step: "put_exec lk mem keys n t u = Some v \<Longrightarrow> \<not> panicked u \<Longrightarrow> \<not> panicked v" for t u v
    using assms(1)
    by (auto simp: put_exec_def take_lock_def drop_lock_def split: if_splits tstate.splits option.splits)
  show ?thesis using assms(2) by (induction ts arbitrary: s) (auto split: option.splits dest: step)
qed

lemma finished_stays: "all_finished s \<Longrightarrow> run_schedule lk mem keys n ts s = s"
proof (induction ts arbitrary: s)
  case (Cons t ts)
  have "t < length (threads s) \<Longrightarrow> threads s ! t = Finished"
    using Cons.prems by (auto simp: all_finished_def list_all_length)
  then have "put_exec lk mem keys n t s = None" by (auto simp: put_exec_def)
  then show ?case using Cons by simp
qed simp

context lock_discipline
begin

lemma run_hinv:
  assumes "hinv lock_of keys n s" and "ht_ok keys n"
  shows "hinv lock_of keys n (run_schedule lock_of mem keys n ts s)"
  using run_schedule_reachable[of lock_of mem keys n s ts] assms(1)
  by (induction rule: rtranclp_induct) (auto intro: put_step_inv[OF _ assms(2)])

text \<open>A piece of a schedule either finds all its threads blocked or makes progress.\<close>

lemma run_weight:
  assumes "hinv lock_of keys n s" and "ht_ok keys n"
  shows "(\<forall>t\<in>set ts. put_exec lock_of mem keys n t s = None) \<and> run_schedule lock_of mem keys n ts s = s \<or>
    put_weight keys n (run_schedule lock_of mem keys n ts s) < put_weight keys n s"
  using assms(1)
proof (induction ts arbitrary: s)
  case (Cons t ts)
  show ?case
  proof (cases "put_exec lock_of mem keys n t s")
    case None
    then show ?thesis using Cons.IH[OF Cons.prems] by simp
  next
    case (Some u)
    have "hinv lock_of keys n u"
      using put_step_inv[OF Cons.prems assms(2), of mem u] Some by (auto simp: put_step_def)
    from Cons.IH[OF this] put_exec_weight[OF hinv_threads[OF Cons.prems] assms(2) Some] Some show ?thesis by auto
  qed
qed simp

lemma round_progress:
  assumes "hinv lock_of keys n s" and "ht_ok keys n" and "\<not> panicked s" and "\<not> all_finished s"
    and "{..<n} \<subseteq> set ts"
  shows "put_weight keys n (run_schedule lock_of mem keys n ts s) < put_weight keys n s"
proof -
  obtain t u where tu: "put_exec lock_of mem keys n t s = Some u"
    using put_progress[OF assms(1-4), of mem] by (auto simp: put_step_def)
  then have "t < n" using assms(1) by (auto simp: put_exec_def hinv_def split: if_splits)
  then show ?thesis using run_weight[OF assms(1,2), of ts mem] tu assms(5) by force
qed

lemma fair_finishes:
  assumes "hinv lock_of keys n s" and "ht_ok keys n" and "\<not> panicked s" and "\<And>t i. mem t i"
    and "\<forall>g\<in>set gs. {..<n} \<subseteq> set g" and "put_weight keys n s \<le> length gs"
  shows "all_finished (run_schedule lock_of mem keys n (concat gs) s)"
  using assms(1,3,5,6)
proof (induction gs arbitrary: s)
  case Nil
  then show ?case by (simp add: put_weight_def)
next
  case (Cons g gs)
  let ?u = "run_schedule lock_of mem keys n g s"
  show ?case
  proof (cases "all_finished s")
    case True
    then show ?thesis by (simp add: finished_stays del: concat.simps)
  next
    case False
    have "put_weight keys n ?u < put_weight keys n s"
      using round_progress[OF Cons.prems(1) assms(2) Cons.prems(2) False] Cons.prems(3) by simp
    moreover have "\<not> panicked ?u" by (rule run_no_panic[OF assms(4) Cons.prems(2)])
    ultimately show ?thesis
      using Cons.IH[of ?u] run_hinv[OF Cons.prems(1) assms(2)] Cons.prems(3,4)
      by (simp add: run_schedule_append)
  qed
qed

end

lemma put_weight_init: "put_weight keys n (put_init n) \<le> n * (5 * (length keys + n) + 5) + 1"
proof -
  have "sum_list (map (\<lambda>t. weight keys n (Idle (int t))) [0..<k]) \<le> k * (5 * (length keys + n) + 5)" for k
    by (induction k) auto
  then show ?thesis by (simp add: put_weight_def put_init_def comp_def)
qed

section \<open>What the locked programs print\<close>

text \<open>An execution in which every request to the system succeeds, with \<open>n\<close> threads.\<close>

definition good_run :: "ht_run \<Rightarrow> nat \<Rightarrow> bool" where
  "good_run r n \<longleftrightarrow> r_argc r = 2 \<and> r_threads r = int n \<and> 0 < n \<and> int NUM_KEYS + int n \<le> INT_MAX \<and>
     r_handles r \<and> (\<forall>l. r_lock_init r l) \<and> (\<forall>t i. r_malloc r t i) \<and> r_lost_array r \<and> (\<forall>i. 0 \<le> r_random r i)"

lemma good_run_ok: "good_run r n \<Longrightarrow> ht_ok (fill_keys r) n"
  by (auto simp: good_run_def ht_ok_def fill_keys_def)

lemma length_fill_keys [simp]: "length (fill_keys r) = NUM_KEYS"
  by (simp add: fill_keys_def)

lemma join_none_lost:
  assumes "hinv lk keys n s" and "ht_ok keys n" and "all_finished s"
  shows "join_lost keys n k (htab s) = Inr (replicate k 0)"
  by (induction k) (simp_all add: none_lost(1)[OF assms] replicate_append_same)

lemma locked_main:
  assumes r: "good_run r n" and lk: "lk = lock_mutex \<or> lk = lock_spin"
  shows "ht_main lk k r sched =
    (if all_finished (run_schedule lk (r_malloc r) (fill_keys r) n sched (put_init n))
     then Some (Printed (replicate n 0) (int NUM_KEYS)) else None)"
proof -
  let ?s = "run_schedule lk (r_malloc r) (fill_keys r) n sched (put_init n)"
  note ok = good_run_ok[OF r]
  have inv: "hinv lk (fill_keys r) n ?s"
    by (rule reachable_hinv[OF lk ok run_schedule_reachable])
  have np: "\<not> panicked ?s" by (rule run_no_panic) (use r in \<open>simp_all add: good_run_def put_init_def\<close>)
  have nf: "Faulted \<notin> set (threads ?s)"
    using inv by (force simp: hinv_def in_set_conv_nth)
  have "check_args (r_argc r) (r_threads r) = Inr n" using r by (simp add: check_args_def good_run_def)
  then show ?thesis
    using r np nf join_none_lost[OF inv ok] by (simp add: ht_main_def good_run_def Let_def list_all_length sum_list_replicate)
qed

text \<open>
  C31. The programs with mutexes and with the spinlock, on an execution in which the system grants
  every request: whatever the schedule, they have printed nothing yet or report no lost
  key in any thread and all 100000 keys retrieved; and every schedule that lets each
  thread run in each of enough rounds, in any order and however often, gets there.
\<close>

theorem locked_programs_retrieve_all:
  assumes "good_run r n" and "main = mutex_main \<or> main = spin_main"
  shows "(main r sched = None \<or> main r sched = Some (Printed (replicate n 0) 100000)) \<and>
    ((\<forall>g\<in>set gs. {..<n} \<subseteq> set g) \<and> n * (5 * (100000 + n) + 5) + 1 \<le> length gs \<longrightarrow>
       main r (concat gs) = Some (Printed (replicate n 0) 100000))"
proof -
  obtain lk k where lk: "lk = lock_mutex \<or> lk = lock_spin" and m: "main r = ht_main lk k r"
    using assms(2) by (auto simp: mutex_main_def spin_main_def fun_eq_iff)
  note ok = good_run_ok[OF assms(1)]
  have fin: "all_finished (run_schedule lk (r_malloc r) (fill_keys r) n (concat gs) (put_init n))"
    if g: "\<forall>g\<in>set gs. {..<n} \<subseteq> set g" "n * (5 * (100000 + n) + 5) + 1 \<le> length gs"
  proof -
    have w: "put_weight (fill_keys r) n (put_init n) \<le> length gs"
      using put_weight_init[of "fill_keys r" n] g(2) by (simp add: NUM_KEYS_def)
    have p: "\<not> panicked (put_init n)" "\<And>t i. r_malloc r t i" using assms(1) by (simp_all add: put_init_def good_run_def)
    show ?thesis
      using lk mutexes.fair_finishes[OF hinv_init[OF ok] ok p(1) _ g(1) w, of "r_malloc r"]
        spin.fair_finishes[OF hinv_init[OF ok] ok p(1) _ g(1) w, of "r_malloc r"] p(2) by blast
  qed
  show ?thesis unfolding m locked_main[OF assms(1) lk] using fin by (simp add: NUM_KEYS_def)
qed

definition demo_run :: ht_run where
  "demo_run = \<lparr>r_argc = 2, r_threads = 3, r_random = (\<lambda>i. int (i * i mod 1000)), r_handles = True,
     r_lock_init = (\<lambda>_. True), r_malloc = (\<lambda>_ _. True), r_lost_array = True\<rparr>"

theorem locked_programs_retrieve_all_witness:
  "mutex_main demo_run (concat (replicate 1500061 [2, 0, 1])) = Some (Printed [0, 0, 0] 100000)"
proof -
  have "good_run demo_run 3" by (simp add: good_run_def demo_run_def NUM_KEYS_def INT_MAX_def)
  moreover have "\<forall>g\<in>set (replicate 1500061 [2, 0, 1]). {..<3 :: nat} \<subseteq> set g" by auto
  ultimately show ?thesis
    using locked_programs_retrieve_all[of demo_run 3 mutex_main "[]" "replicate 1500061 [2, 0, 1]"]
    by (simp add: numeral_3_eq_3)
qed

end
