(* ===== verification/Hashtable_Race.thy ===== *)
theory Hashtable_Race
  imports Hashtable_Main
begin

text \<open>
  What \<^verbatim>\<open>parallel_hashtable.c\<close>, which takes no lock, can do to any two keys of one bucket that two different
  threads insert: there is a schedule under which the program ends and one of them is lost.
  The schedule brings both threads in front of their load of the bucket, lets both load and
  both store, and then lets all threads finish.
\<close>

section \<open>Steps without locks\<close>

definition plain :: "int list \<Rightarrow> nat \<Rightarrow> hstate \<Rightarrow> bool" where
  "plain keys n s \<longleftrightarrow> length (htab s) = 5 \<and> \<not> panicked s \<and> threads_ok keys n s"

lemma plain_threads: "plain keys n s \<Longrightarrow> length (threads s) = n" "plain keys n s \<Longrightarrow> t < n \<Longrightarrow> thr_ok keys n t (threads s ! t)"
  by (simp_all add: plain_def threads_ok_def)

lemma plain_init: "ht_ok keys n \<Longrightarrow> plain keys n (put_init n)"
  by (auto simp: plain_def threads_ok_def put_init_def ht_ok_def)

lemma plain_upd:
  assumes "plain keys n s" and "t < n" and "thr_ok keys n t st" and "length tab = 5"
  shows "plain keys n (s\<lparr>htab := tab, threads := (threads s)[t := st]\<rparr>)"
  using assms by (auto simp: plain_def threads_ok_def nth_list_update)

text \<open>What a step of a thread does, by the place where it is.\<close>

lemma unlocked_steps:
  assumes pl: "plain keys n s" and ok: "ht_ok keys n" and mem: "\<forall>t i. mem t i" and t: "t < n"
  shows "threads s ! t = Idle a \<Longrightarrow> put_exec lock_none mem keys n t s =
      Some (set_thread t (if a < int (length keys) then Locking a else Finished) s)"
    and "threads s ! t = Locking a \<Longrightarrow> put_exec lock_none mem keys n t s = Some (set_thread t (Locked a) s)"
    and "threads s ! t = Locked a \<Longrightarrow> put_exec lock_none mem keys n t s = Some (set_thread t (Loaded a (htab s ! bk keys a)) s)"
    and "threads s ! t = Loaded a nxt \<Longrightarrow> put_exec lock_none mem keys n t s =
      Some (set_thread t (Stored a) (s\<lparr>htab := (htab s)[bk keys a := (keys ! nat a, int t) # nxt]\<rparr>))"
    and "threads s ! t = Stored a \<Longrightarrow> put_exec lock_none mem keys n t s = Some (set_thread t (Idle (a + int n)) s)"
proof -
  note tok = plain_threads(2)[OF pl t] and len = plain_threads(1)[OF pl]
  have np: "\<not> panicked s" using pl by (simp add: plain_def)
  note unf = put_exec_def take_lock_def drop_lock_def lock_none_def
  show "threads s ! t = Idle a \<Longrightarrow> put_exec lock_none mem keys n t s =
      Some (set_thread t (if a < int (length keys) then Locking a else Finished) s)"
    using tok np len t mem by (simp add: unf)
  show "threads s ! t = Locking a \<Longrightarrow> put_exec lock_none mem keys n t s = Some (set_thread t (Locked a) s)"
    using tok np len t bk_range[OF ok, of a] by (simp add: unf)
  show "threads s ! t = Locked a \<Longrightarrow> put_exec lock_none mem keys n t s = Some (set_thread t (Loaded a (htab s ! bk keys a)) s)"
    "threads s ! t = Loaded a nxt \<Longrightarrow> put_exec lock_none mem keys n t s =
      Some (set_thread t (Stored a) (s\<lparr>htab := (htab s)[bk keys a := (keys ! nat a, int t) # nxt]\<rparr>))"
    using np len t by (simp_all add: unf)
  assume st: "threads s ! t = Stored a"
  then have "swrap (a + int n) = a + int n" using tok ok by (intro swrap_id) (auto simp: in_int_def ht_ok_def INT_MIN_def)
  then show "put_exec lock_none mem keys n t s = Some (set_thread t (Idle (a + int n)) s)"
    using st np len t by (simp add: unf)
qed

lemma plain_step:
  assumes pl: "plain keys n s" and ok: "ht_ok keys n" and mem: "\<forall>t i. mem t i" and t: "t < n"
    and ex: "put_exec lock_none mem keys n t s = Some s'"
  shows "plain keys n s'"
proof -
  note st = unlocked_steps[OF pl ok mem t] and tok = plain_threads(2)[OF pl t]
  have len: "length (htab s) = 5" using pl by (simp add: plain_def)
  have upd: "plain keys n (set_thread t x s)" if "thr_ok keys n t x" for x
    using plain_upd[OF pl t that len] by simp
  show ?thesis
  proof (cases "threads s ! t")
    case (Loaded a nxt)
    have s': "s' = set_thread t (Stored a) (s\<lparr>htab := (htab s)[bk keys a := (keys ! nat a, int t) # nxt]\<rparr>)"
      using st(4)[OF Loaded] ex by simp
    show ?thesis using plain_upd[OF pl t, of "Stored a"] tok Loaded len by (simp add: s')
  next
    case (Stored a)
    have "thr_ok keys n t (Idle (a + int n))" using tok Stored by (auto simp: nat_add_distrib)
    from upd[OF this] show ?thesis using st(5)[OF Stored] ex by simp
  next
    case (Idle a)
    then show ?thesis using st(1)[OF Idle] ex upd[of "Locking a"] upd[of Finished] tok by (auto split: if_splits)
  next
    case (Locking a)
    then show ?thesis using st(2)[OF Locking] ex upd tok by simp
  next
    case (Locked a)
    then show ?thesis using st(3)[OF Locked] ex upd tok by simp
  qed (use ex in \<open>auto simp: put_exec_def split: if_splits\<close>)
qed

section \<open>Runs\<close>

text \<open>Some schedule leads from one state to the other.\<close>

definition leads :: "(nat \<Rightarrow> int \<Rightarrow> bool) \<Rightarrow> int list \<Rightarrow> nat \<Rightarrow> hstate \<Rightarrow> hstate \<Rightarrow> bool" where
  "leads mem keys n s s' \<longleftrightarrow> (\<exists>ts. run_schedule lock_none mem keys n ts s = s')"

lemma leads_refl [simp]: "leads mem keys n s s"
  unfolding leads_def by (rule exI[of _ "[]"]) simp

lemma leads_trans: "leads mem keys n s t \<Longrightarrow> leads mem keys n t u \<Longrightarrow> leads mem keys n s u"
  unfolding leads_def by (metis run_schedule_append)

lemma leads_step: "put_exec lock_none mem keys n t s = Some s' \<Longrightarrow> leads mem keys n s' u \<Longrightarrow> leads mem keys n s u"
  unfolding leads_def by (metis run_schedule.simps(2) option.simps(5))

text \<open>A state has lost the key \<open>k\<close> if no chain in the table has it, and a thread is harmless if it does not carry it.\<close>

definition absent :: "int \<Rightarrow> hstate \<Rightarrow> bool" where
  "absent k s \<longleftrightarrow> (\<forall>b<5. \<forall>e\<in>set (htab s ! b). fst e \<noteq> k)"

fun carries :: "int \<Rightarrow> tstate \<Rightarrow> bool" where
  "carries k (Loaded a nxt) \<longleftrightarrow> (\<exists>e\<in>set nxt. fst e = k)"
| "carries k _ \<longleftrightarrow> False"

text \<open>A thread alone inserts its keys up to the one with index \<open>i\<close> and stops in front of the load.\<close>

lemma one_insertion:
  assumes pl: "plain keys n s" and ok: "ht_ok keys n" and mem: "\<forall>t i. mem t i" and t: "t < n"
    and st: "threads s ! t = Idle a" and a: "a < int (length keys)"
  defines "u \<equiv> s\<lparr>htab := (htab s)[bk keys a := (keys ! nat a, int t) # (htab s ! bk keys a)], threads := (threads s)[t := Idle (a + int n)]\<rparr>"
  shows "leads mem keys n s u" and "plain keys n u"
proof -
  note len = plain_threads(1)[OF pl]
  let ?s1 = "set_thread t (Locking a) s" and ?s2 = "set_thread t (Locked a) s"
    and ?s3 = "set_thread t (Loaded a (htab s ! bk keys a)) s"
    and ?s4 = "set_thread t (Stored a) (s\<lparr>htab := (htab s)[bk keys a := (keys ! nat a, int t) # (htab s ! bk keys a)]\<rparr>)"
  have e1: "put_exec lock_none mem keys n t s = Some ?s1" using unlocked_steps(1)[OF pl ok mem t st] a by simp
  note p1 = plain_step[OF pl ok mem t e1]
  have e2: "put_exec lock_none mem keys n t ?s1 = Some ?s2" using unlocked_steps(2)[OF p1 ok mem t, of a] t len by simp
  note p2 = plain_step[OF p1 ok mem t e2]
  have e3: "put_exec lock_none mem keys n t ?s2 = Some ?s3" using unlocked_steps(3)[OF p2 ok mem t, of a] t len by simp
  note p3 = plain_step[OF p2 ok mem t e3]
  have e4: "put_exec lock_none mem keys n t ?s3 = Some ?s4" using unlocked_steps(4)[OF p3 ok mem t, of a] t len by simp
  note p4 = plain_step[OF p3 ok mem t e4]
  have e5: "put_exec lock_none mem keys n t ?s4 = Some u" using unlocked_steps(5)[OF p4 ok mem t, of a] t len by (simp add: u_def)
  show "plain keys n u" by (rule plain_step[OF p4 ok mem t e5])
  show "leads mem keys n s u"
    by (rule leads_step[OF e1], rule leads_step[OF e2], rule leads_step[OF e3], rule leads_step[OF e4], rule leads_step[OF e5]) simp
qed

lemma solo:
  assumes ok: "ht_ok keys n" and mem: "\<forall>t i. mem t i" and i: "i < length keys" "i mod n = t" and t: "t < n"
    and other: "\<And>b. b < i \<Longrightarrow> b mod n = t \<Longrightarrow> keys ! b \<noteq> k"
  shows "plain keys n s \<Longrightarrow> absent k s \<Longrightarrow> threads s ! t = Idle (int a) \<Longrightarrow> a \<le> i \<Longrightarrow>
    \<exists>u. leads mem keys n s u \<and> plain keys n u \<and> absent k u \<and> threads u = (threads s)[t := Locked (int i)]"
proof (induction "i - a" arbitrary: a s rule: less_induct)
  case less
  note pl = less.prems(1) and st = less.prems(3) and len = plain_threads(1)[OF less.prems(1)]
  have am: "a mod n = t" using plain_threads(2)[OF pl t] st by simp
  show ?case
  proof (cases "a = i")
    case True
    let ?s1 = "set_thread t (Locking (int i)) s" and ?s2 = "set_thread t (Locked (int i)) s"
    have e1: "put_exec lock_none mem keys n t s = Some ?s1" using unlocked_steps(1)[OF pl ok mem t st] True i(1) by simp
    note p1 = plain_step[OF pl ok mem t e1]
    have e2: "put_exec lock_none mem keys n t ?s1 = Some ?s2" using unlocked_steps(2)[OF p1 ok mem t, of "int i"] t len by simp
    have "leads mem keys n s ?s2" by (rule leads_step[OF e1], rule leads_step[OF e2]) simp
    then show ?thesis using plain_step[OF p1 ok mem t e2] less.prems(2) by (intro exI[of _ ?s2]) (simp add: absent_def)
  next
    case False
    then have ai: "a < i" using less.prems(4) by simp
    have step: "a + n \<le> i" using stride[of i n a] am i(2) ai by (meson not_le)
    let ?u = "s\<lparr>htab := (htab s)[bk keys (int a) := (keys ! nat (int a), int t) # (htab s ! bk keys (int a))],
      threads := (threads s)[t := Idle (int a + int n)]\<rparr>"
    have al: "int a < int (length keys)" using ai i(1) by simp
    note one = one_insertion[OF pl ok mem t st al]
    have b: "bk keys (int a) < 5" "length (htab s) = 5" using bk_range[OF ok, of "int a"] al pl by (simp_all add: plain_def)
    have "absent k ?u" using less.prems(2) other[OF ai am] b by (auto simp: absent_def nth_list_update)
    moreover have "threads ?u ! t = Idle (int (a + n))" using t len by simp
    moreover have "i - (a + n) < i - a" using ai ok unfolding ht_ok_def by linarith
    ultimately obtain u where u: "leads mem keys n ?u u" "plain keys n u" "absent k u" "threads u = (threads ?u)[t := Locked (int i)]"
      using less.hyps[of "a + n" ?u] one(2) step by blast
    then show ?thesis using leads_trans[OF one(1) u(1)] by (intro exI[of _ u]) simp
  qed
qed

text \<open>Both threads load the same chain; the second store overwrites the first.\<close>

lemma collision:
  assumes pl: "plain keys n s" and ok: "ht_ok keys n" and mem: "\<forall>t i. mem t i"
    and t: "t < n" "u < n" "t \<noteq> u" and st: "threads s ! t = Locked (int i)" "threads s ! u = Locked (int j)"
    and b: "bk keys (int i) = bk keys (int j)" and k: "keys ! i = k" "keys ! j \<noteq> k" and ab: "absent k s"
  shows "\<exists>v. leads mem keys n s v \<and> plain keys n v \<and> absent k v \<and> threads v = (threads s)[t := Stored (int i), u := Stored (int j)]"
proof -
  note len = plain_threads(1)[OF pl]
  let ?b = "bk keys (int j)"
  let ?h = "htab s ! ?b"
  let ?s1 = "set_thread t (Loaded (int i) ?h) s"
  let ?s2 = "set_thread u (Loaded (int j) ?h) ?s1"
  let ?s3 = "set_thread t (Stored (int i)) (?s2\<lparr>htab := (htab s)[?b := (k, int t) # ?h]\<rparr>)"
  let ?s4 = "set_thread u (Stored (int j)) (?s3\<lparr>htab := (htab s)[?b := (keys ! j, int u) # ?h]\<rparr>)"
  have e1: "put_exec lock_none mem keys n t s = Some ?s1" using unlocked_steps(3)[OF pl ok mem t(1) st(1)] b by simp
  note p1 = plain_step[OF pl ok mem t(1) e1]
  have e2: "put_exec lock_none mem keys n u ?s1 = Some ?s2" using unlocked_steps(3)[OF p1 ok mem t(2), of "int j"] t st len by simp
  note p2 = plain_step[OF p1 ok mem t(2) e2]
  have e3: "put_exec lock_none mem keys n t ?s2 = Some ?s3"
    using unlocked_steps(4)[OF p2 ok mem t(1), of "int i" ?h] t len b k(1) by simp
  note p3 = plain_step[OF p2 ok mem t(1) e3]
  have e4: "put_exec lock_none mem keys n u ?s3 = Some ?s4"
    using unlocked_steps(4)[OF p3 ok mem t(2), of "int j" ?h] t len by simp
  have "leads mem keys n s ?s4"
    by (rule leads_step[OF e1], rule leads_step[OF e2], rule leads_step[OF e3], rule leads_step[OF e4]) simp
  moreover have "absent k ?s4"
  proof -
    have "?b < 5" using bk_range[OF ok, of "int j"] plain_threads(2)[OF pl t(2)] st(2) by simp
    then show ?thesis using ab k(2) pl by (auto simp: absent_def plain_def nth_list_update)
  qed
  moreover have "threads ?s4 = (threads s)[t := Stored (int i), u := Stored (int j)]"
    using t(3) by (simp add: list_update_swap)
  ultimately show ?thesis using plain_step[OF p3 ok mem t(2) e4] by blast
qed

section \<open>A lost key stays lost\<close>

text \<open>The key at index \<open>i\<close>, which no other index has, is in no chain, and its thread is behind it.\<close>

definition lost :: "int list \<Rightarrow> nat \<Rightarrow> nat \<Rightarrow> hstate \<Rightarrow> bool" where
  "lost keys n i s \<longleftrightarrow> absent (keys ! i) s \<and> int i < progress keys (threads s ! (i mod n)) \<and>
     (\<forall>t<n. \<not> carries (keys ! i) (threads s ! t))"

lemma lost_step:
  assumes pl: "plain keys n s" and ok: "ht_ok keys n" and mem: "\<forall>t i. mem t i" and t: "t < n"
    and i: "i < length keys" and once: "\<forall>j<length keys. keys ! j = keys ! i \<longrightarrow> j = i"
    and lost: "lost keys n i s" and ex: "put_exec lock_none mem keys n t s = Some s'"
  shows "lost keys n i s'"
proof -
  note st = unlocked_steps[OF pl ok mem t] and tok = plain_threads(2)[OF pl t] and len = plain_threads(1)[OF pl]
  have d: "absent (keys ! i) s" "int i < progress keys (threads s ! (i mod n))" "\<And>t. t < n \<Longrightarrow> \<not> carries (keys ! i) (threads s ! t)"
    using lost by (simp_all add: lost_def)
  have im: "i mod n < n" using ok by (simp add: ht_ok_def)
  have upd: "lost keys n i (set_thread t x s)"
    if "t = i mod n \<Longrightarrow> int i < progress keys x" "\<not> carries (keys ! i) x" for x
    using d that len im t by (auto simp: lost_def absent_def nth_list_update)
  have own: "t = i mod n \<Longrightarrow> int i < progress keys (threads s ! t)" using d(2) by simp
  show ?thesis
  proof (cases "threads s ! t")
    case (Idle a)
    then show ?thesis using st(1)[OF Idle] ex own i by (auto intro!: upd split: if_splits)
  next
    case (Locking a)
    then show ?thesis using st(2)[OF Locking] ex own by (auto intro!: upd)
  next
    case (Locked a)
    have "bk keys a < 5" using tok Locked bk_range[OF ok, of a] by simp
    then have "\<not> carries (keys ! i) (Loaded a (htab s ! bk keys a))" using d(1) by (force simp: absent_def)
    then show ?thesis using Locked st(3)[OF Locked] ex own by (auto intro!: upd simp del: carries.simps)
  next
    case (Stored a)
    then show ?thesis using st(5)[OF Stored] ex own im by (auto intro!: upd)
  next
    case (Loaded a nxt)
    let ?s = "s\<lparr>htab := (htab s)[bk keys a := (keys ! nat a, int t) # nxt]\<rparr>"
    have a: "0 \<le> a" "a < int (length keys)" "nat a mod n = t" using tok Loaded by simp_all
    have "nat a \<noteq> i" using a(1,3) d(2) Loaded by auto
    then have new: "keys ! nat a \<noteq> keys ! i" using once a(1,2) by auto
    have "bk keys a < 5" "length (htab s) = 5" using bk_range[OF ok a(1,2)] pl by (simp_all add: plain_def)
    then have "absent (keys ! i) ?s"
      using d(1) d(3)[OF t] Loaded new by (auto simp: absent_def nth_list_update)
    then have "lost keys n i (set_thread t (Stored a) ?s)"
      using d len im t Loaded by (auto simp: lost_def absent_def nth_list_update)
    then show ?thesis using st(4)[OF Loaded] ex by simp
  qed (use ex in \<open>auto simp: put_exec_def split: if_splits\<close>)
qed

text \<open>Without locks every thread that has not finished can go on, so some schedule finishes them all.\<close>

lemma finishes:
  assumes ok: "ht_ok keys n" and mem: "\<forall>t i. mem t i" and i: "i < length keys"
    and once: "\<forall>j<length keys. keys ! j = keys ! i \<longrightarrow> j = i"
  shows "plain keys n s \<Longrightarrow> lost keys n i s \<Longrightarrow> \<exists>u. leads mem keys n s u \<and> plain keys n u \<and> lost keys n i u \<and> all_finished u"
proof (induction "put_weight keys n s" arbitrary: s rule: less_induct)
  case less
  note pl = less.prems(1)
  show ?case
  proof (cases "all_finished s")
    case True
    then show ?thesis using less.prems by (intro exI[of _ s]) simp
  next
    case False
    then obtain t where t: "t < n" "threads s ! t \<noteq> Finished"
      using pl plain_threads(1)[OF pl] by (auto simp: all_finished_def list_all_length plain_def)
    then obtain s' where e: "put_exec lock_none mem keys n t s = Some s'"
      using unlocked_steps[OF pl ok mem t(1)] plain_threads(2)[OF pl t(1)] by (cases "threads s ! t") auto
    have "put_weight keys n s' < put_weight keys n s"
      using put_exec_weight[OF _ ok e] pl by (simp add: plain_def)
    with less.hyps[OF this plain_step[OF pl ok mem t(1) e] lost_step[OF pl ok mem t(1) i once less.prems(2) e]]
    show ?thesis using leads_step[OF e] by blast
  qed
qed

lemma race:
  assumes ok: "ht_ok keys n" and mem: "\<forall>t i. mem t i" and ij: "i < length keys" "j < length keys" "i mod n \<noteq> j mod n"
    and b: "bucket (keys ! i) = bucket (keys ! j)" and once: "\<forall>l<length keys. keys ! l = keys ! i \<longrightarrow> l = i"
  shows "\<exists>u. leads mem keys n (put_init n) u \<and> plain keys n u \<and> lost keys n i u \<and> all_finished u"
proof -
  let ?k = "keys ! i" and ?t = "i mod n" and ?u = "j mod n"
  have n: "0 < n" using ok by (simp add: ht_ok_def)
  then have tu: "?t < n" "?u < n" by simp_all
  have "absent ?k (put_init n)" by (simp add: absent_def put_init_def)
  moreover have "threads (put_init n) ! ?t = Idle (int ?t)" using tu by (simp add: put_init_def)
  moreover have "\<And>b. b < i \<Longrightarrow> b mod n = ?t \<Longrightarrow> keys ! b \<noteq> ?k" using once ij(1) by (metis order.strict_trans order.irrefl)
  ultimately obtain s1 where s1: "leads mem keys n (put_init n) s1" "plain keys n s1" "absent ?k s1"
    "threads s1 = (threads (put_init n))[?t := Locked (int i)]"
    using solo[OF ok mem ij(1) refl tu(1) _ plain_init[OF ok], of ?k ?t] mod_less_eq_dividend by blast
  have "threads s1 ! ?u = Idle (int ?u)" using s1(4) tu ij(3) by (simp add: put_init_def)
  moreover have "\<And>b. b < j \<Longrightarrow> b mod n = ?u \<Longrightarrow> keys ! b \<noteq> ?k" using once ij by (metis order.strict_trans)
  ultimately obtain s2 where s2: "leads mem keys n s1 s2" "plain keys n s2" "absent ?k s2" "threads s2 = (threads s1)[?u := Locked (int j)]"
    using solo[OF ok mem ij(2) refl tu(2) _ s1(2,3), of ?u] mod_less_eq_dividend by blast
  have at: "threads s2 ! ?t = Locked (int i)" "threads s2 ! ?u = Locked (int j)"
    using s1(4) s2(4) tu ij(3) plain_threads(1)[OF s2(2)] by (simp_all add: put_init_def)
  have "keys ! j \<noteq> ?k" using once ij by auto
  then obtain s3 where s3: "leads mem keys n s2 s3" "plain keys n s3" "absent ?k s3"
    "threads s3 = (threads s2)[?t := Stored (int i), ?u := Stored (int j)]"
    using collision[OF s2(2) ok mem tu ij(3) at _ refl _ s2(3)] b by auto
  have thr: "threads s3 ! v = (if v = ?u then Stored (int j) else if v = ?t then Stored (int i) else Idle (int v))" if "v < n" for v
    using that s1(4) s2(4) s3(4) by (simp add: put_init_def nth_list_update)
  have "lost keys n i s3" using s3(3) tu ij(3) by (auto simp: lost_def thr)
  from finishes[OF ok mem ij(1) once s3(2) this] obtain v where
    v: "leads mem keys n s3 v" "plain keys n v" "lost keys n i v" "all_finished v" by blast
  have "leads mem keys n (put_init n) v"
    by (rule leads_trans[OF s1(1)], rule leads_trans[OF s2(1)], rule leads_trans[OF s3(1)], rule v(1))
  then show ?thesis using v by blast
qed

section \<open>What the program prints\<close>

lemma get_loop_counts:
  assumes ok: "ht_ok keys n"
  shows "0 \<le> a \<Longrightarrow> \<exists>v\<ge>l. get_loop keys n a l tab = Inr v \<and>
    (a \<le> int i \<longrightarrow> i mod n = nat a mod n \<longrightarrow> i < length keys \<longrightarrow> retrieve (keys ! i) tab = Inr None \<longrightarrow> l < v)"
proof (induction "nat (int (length keys) - a)" arbitrary: a l rule: less_induct)
  case less
  have n: "0 < n" "int n \<le> INT_MAX" using ok by (auto simp: ht_ok_def)
  show ?case
  proof (cases "a < int (length keys)")
    case False
    then show ?thesis by (auto simp: get_loop.simps)
  next
    case True
    have nx: "swrap (a + int n) = a + int n"
      using True less.prems ok by (intro swrap_id) (auto simp: in_int_def ht_ok_def INT_MIN_def)
    have g: "\<not> (n = 0 \<or> INT_MAX < int n \<or> int (length keys) \<le> a)" "\<not> (a < 0 \<or> INT_MAX < a)"
      using True less.prems ok by (auto simp: ht_ok_def)
    define m where "m = (if chain_find (keys ! nat a) (tab ! bk keys a) = None then l + 1 else l)"
    have "retrieve (keys ! nat a) tab = Inr (chain_find (keys ! nat a) (tab ! bk keys a))"
      using bk_range[OF ok less.prems True] by (simp add: retrieve_def)
    then have step: "get_loop keys n a l tab = get_loop keys n (a + int n) m tab"
      and rt: "retrieve (keys ! nat a) tab = Inr None \<longleftrightarrow> m = l + 1"
      using g nx by (auto simp: get_loop.simps[of keys n a] m_def split: option.splits)
    obtain v where v: "m \<le> v" "get_loop keys n (a + int n) m tab = Inr v" and
      ih: "a + int n \<le> int i \<longrightarrow> i mod n = nat (a + int n) mod n \<longrightarrow> i < length keys \<longrightarrow> retrieve (keys ! i) tab = Inr None \<longrightarrow> m < v"
      using less.hyps[of "a + int n" m] less.prems n(1) True by auto
    have "l < v" if h: "a \<le> int i" "i mod n = nat a mod n" "i < length keys" "retrieve (keys ! i) tab = Inr None"
    proof (cases "a = int i")
      case True
      then show ?thesis using rt h(4) v(1) by simp
    next
      case False
      have "\<not> i < nat a + n" using stride[of i n "nat a"] h(1,2) False less.prems by auto
      then show ?thesis using ih h less.prems v(1) by (auto simp: m_def nat_add_distrib split: if_splits)
    qed
    moreover have "l \<le> v" using v(1) by (simp add: m_def split: if_splits)
    ultimately show ?thesis using v(2) step by auto
  qed
qed

lemma join_counts:
  assumes ok: "ht_ok keys n" and i: "i < length keys" "retrieve (keys ! i) tab = Inr None"
  shows "\<exists>ls. join_lost keys n k tab = Inr ls \<and> (if i mod n < k then 0 < sum_list ls else 0 \<le> sum_list ls)"
proof (induction k)
  case (Suc k)
  then obtain ls where ls: "join_lost keys n k tab = Inr ls" "if i mod n < k then 0 < sum_list ls else 0 \<le> sum_list ls" by blast
  obtain v where v: "0 \<le> v" "get_phase keys n k tab = Inr v" "k \<le> i \<Longrightarrow> i mod n = k mod n \<Longrightarrow> 0 < v"
    using get_loop_counts[OF ok, of "int k" 0 tab i] i by (auto simp: get_phase_def)
  have "0 < v" if "i mod n = k" using v(3) that mod_less_eq_dividend[of i n] mod_mod_trivial[of i n] by metis
  then show ?case using ls v(1,2) by (auto simp: less_Suc_eq split: if_splits)
qed simp

text \<open>
  C33. Without locks keys are lost: take any execution of \<^verbatim>\<open>parallel_hashtable.c\<close> in which the system grants every
  request, and any two of the 100000 keys that fall into the same bucket and are inserted by different
  threads, the first one occurring only once. Then there is a schedule under which all threads
  finish, the first key is not found in the table, and the program prints that fewer than all keys
  were retrieved.
\<close>

theorem unlocked_loses_key:
  assumes "good_run r n" and "i < NUM_KEYS" and "j < NUM_KEYS" and "i mod n \<noteq> j mod n"
    and "bucket (r_random r i) = bucket (r_random r j)" and "\<forall>l<NUM_KEYS. r_random r l = r_random r i \<longrightarrow> l = i"
  shows "\<exists>sched ls m. hashtable_main r sched = Some (Printed ls m) \<and> m < 100000 \<and>
    retrieve (r_random r i) (htab (run_schedule lock_none (r_malloc r) (fill_keys r) n sched (put_init n))) = Inr None"
proof -
  let ?keys = "fill_keys r"
  note ok = good_run_ok[OF assms(1)]
  have nth: "?keys ! l = r_random r l" if "l < NUM_KEYS" for l using that by (simp add: fill_keys_def)
  have mem: "\<forall>t i. r_malloc r t i" using assms(1) by (simp add: good_run_def)
  obtain s where s: "leads (r_malloc r) ?keys n (put_init n) s" "plain ?keys n s" "lost ?keys n i s" "all_finished s"
    using race[OF ok mem, of i j] assms(2-6) nth by auto
  then obtain sched where sched: "run_schedule lock_none (r_malloc r) ?keys n sched (put_init n) = s" by (auto simp: leads_def)
  have b: "bk ?keys (int i) < 5" "0 \<le> bucket (?keys ! i)" using bk_range[OF ok, of "int i"] assms(2) by simp_all
  then have none: "retrieve (?keys ! i) (htab s) = Inr None"
    using s(3) by (simp add: retrieve_def chain_find_None lost_def absent_def)
  have "i mod n < n" using assms(1) by (simp add: good_run_def)
  then obtain ls where ls: "join_lost ?keys n n (htab s) = Inr ls" "0 < sum_list ls"
    using join_counts[OF ok _ none, of n] assms(2) by auto
  have "Faulted \<notin> set (threads s)" using s(2) by (force simp: plain_def threads_ok_def in_set_conv_nth)
  moreover have "check_args (r_argc r) (r_threads r) = Inr n" using assms(1) by (simp add: check_args_def good_run_def)
  ultimately have "hashtable_main r sched = Some (Printed ls (int NUM_KEYS - sum_list ls))"
    using assms(1) s(2,4) sched ls(1) by (simp add: hashtable_main_def ht_main_def good_run_def plain_def Let_def)
  then show ?thesis using ls(2) none nth[OF assms(2)] sched by (intro exI[of _ sched]) (auto simp: NUM_KEYS_def)
qed

text \<open>Two threads and the keys 0, 1, 2 and so on: the keys 0 and 5 share a bucket.\<close>

definition race_run :: ht_run where
  "race_run = \<lparr>r_argc = 2, r_threads = 2, r_random = (\<lambda>i. int i), r_handles = True,
     r_lock_init = (\<lambda>_. True), r_malloc = (\<lambda>_ _. True), r_lost_array = True\<rparr>"

theorem unlocked_loses_key_witness:
  "\<exists>sched ls m. hashtable_main race_run sched = Some (Printed ls m) \<and> m < 100000"
proof -
  have g: "good_run race_run 2" by (simp add: good_run_def race_run_def NUM_KEYS_def INT_MAX_def)
  have b: "bucket 0 = bucket 5" by code_simp
  show ?thesis
    using unlocked_loses_key[OF g, of 0 5] b by (auto simp: race_run_def NUM_KEYS_def)
qed

end
