(* ===== verification/Uniq.thy ===== *)
theory Uniq
  imports OS_Prelude
begin

text \<open>
  The \<^verbatim>\<open>uniq\<close> program, \<^verbatim>\<open>src/hw1/uniq.c\<close>. Line buffers are lists of 1024 characters, and writing
  behind their end or reading a string that has no NUL in them is an error value. The two
  arrays of \<^verbatim>\<open>string_compare\<close> live in an explicit stack memory, because the code writes and
  reads one byte behind them: where they are and what the memory holds is a parameter
  (\<open>frame\<close>), as is the byte behind \<^verbatim>\<open>one_bit\<close> that \<^verbatim>\<open>strcmp\<close> looks at.
\<close>

section \<open>Reading lines\<close>

datatype uerror = Overflow | Unterminated | Diverges | FileEmpty | Usage

definition LINE :: nat where
  "LINE = 1024"

text \<open>
  The loop of \<^verbatim>\<open>myreadline\<close>: \<open>z\<close> is the byte behind \<^verbatim>\<open>one_bit\<close>; the result is the characters stored,
  the value of the last \<^verbatim>\<open>read\<close> and the rest of the file.
\<close>

fun read_loop :: "char \<Rightarrow> string \<Rightarrow> string \<Rightarrow> uerror + string \<times> int \<times> string" where
  "read_loop z [] acc = (if length acc < LINE then Inr (acc, 0, []) else Inl Overflow)"
| "read_loop z (c # cs) acc =
     (if \<not> length acc < LINE then Inl Overflow
      else if c = NL \<and> z = NUL then Inr (acc, 1, cs)
      else read_loop z cs (acc @ [c]))"

definition pad :: "string \<Rightarrow> string" where
  "pad s = s @ replicate (LINE - length s) NUL"

definition myreadline :: "char \<Rightarrow> string \<Rightarrow> uerror + int \<times> string \<times> string" where
  "myreadline z input =
     (case read_loop z input [] of
        Inl e \<Rightarrow> Inl e
      | Inr (acc, num_bytes, rest) \<Rightarrow>
          Inr (if num_bytes = 0 \<and> acc = [] then 0 else 1, pad (acc @ [NL]), rest))"

section \<open>Comparing lines\<close>

text \<open>Memory, and the writes and reads of the string functions in it.\<close>

type_synonym memory = "nat \<Rightarrow> char"

definition write_str :: "nat \<Rightarrow> string \<Rightarrow> memory \<Rightarrow> memory" where
  "write_str a s m = (\<lambda>x. if a \<le> x \<and> x < a + length s then s ! (x - a) else m x)"

definition strcpy :: "nat \<Rightarrow> string \<Rightarrow> memory \<Rightarrow> memory" where
  "strcpy a s m = write_str a (s @ [NUL]) m"

partial_function (option) strcmp_eq :: "memory \<Rightarrow> nat \<Rightarrow> nat \<Rightarrow> bool option" where
  "strcmp_eq m a b =
     (if m a \<noteq> m b then Some False
      else if m a = NUL then Some True
      else strcmp_eq m (a + 1) (b + 1))"

definition upper :: "char \<Rightarrow> char" where
  "upper c =
     (if of_char c \<ge> (97 :: nat) \<and> of_char c \<le> (122 :: nat) then char_of (of_char c - (32 :: nat)) else c)"

text \<open>\<^verbatim>\<open>to_upper\<close> writes the converted characters and no terminating NUL.\<close>

definition to_upper :: "nat \<Rightarrow> string \<Rightarrow> memory \<Rightarrow> memory" where
  "to_upper a s m = write_str a (map upper s) m"

text \<open>Where the two variable-length arrays are, given their lengths, and the stack's contents.\<close>

record frame =
  f_arr1 :: "nat \<Rightarrow> nat \<Rightarrow> nat"
  f_arr2 :: "nat \<Rightarrow> nat \<Rightarrow> nat"
  f_mem :: memory

definition string_compare :: "frame \<Rightarrow> string \<Rightarrow> string \<Rightarrow> bool \<Rightarrow> bool option" where
  "string_compare fr str1 str2 ignore_case =
     (let a = f_arr1 fr (length str1) (length str2);
          b = f_arr2 fr (length str1) (length str2);
          m = (if ignore_case then to_upper b str2 (to_upper a str1 (f_mem fr))
               else strcpy b str2 (strcpy a str1 (f_mem fr)))
      in strcmp_eq m a b)"

text \<open>The call on two line buffers.\<close>

definition compare_lines :: "frame \<Rightarrow> string \<Rightarrow> string \<Rightarrow> bool \<Rightarrow> uerror + bool" where
  "compare_lines fr l1 l2 ignore =
     (if \<not> terminated l1 \<or> \<not> terminated l2 then Inl Unterminated
      else (case string_compare fr (cstr l1) (cstr l2) ignore of
              None \<Rightarrow> Inl Diverges
            | Some b \<Rightarrow> Inr b))"

section \<open>The two modes\<close>

text \<open>A printed item: the count for \<^verbatim>\<open>"%d %s"\<close>, none for \<^verbatim>\<open>"%s"\<close>, and the line.\<close>

type_synonym item = "int option \<times> string"

definition print_line :: "bool \<Rightarrow> int \<Rightarrow> string \<Rightarrow> uerror + item" where
  "print_line count dupe_count line =
     (if \<not> terminated line then Inl Unterminated
      else Inr (if count then Some dupe_count else None, cstr line))"

definition emit :: "uerror + item \<Rightarrow> uerror + item list \<Rightarrow> uerror + item list" where
  "emit i r = (case i of Inl e \<Rightarrow> Inl e | Inr x \<Rightarrow> (case r of Inl e \<Rightarrow> Inl e | Inr xs \<Rightarrow> Inr (x # xs)))"

lemma read_loop_length:
  "read_loop z s acc = Inr (a, n, r) \<Longrightarrow> length r \<le> length s \<and> (n \<noteq> 0 \<or> a \<noteq> acc \<longrightarrow> length r < length s)"
  by (induction z s acc rule: read_loop.induct) (auto split: if_splits)

lemma myreadline_shrinks: "myreadline z s = Inr (n, l, r) \<Longrightarrow> n > 0 \<Longrightarrow> length r < length s"
  using read_loop_length[of z s "[]"] by (auto simp: myreadline_def split: sum.splits if_splits)

text \<open>The loop of \<^verbatim>\<open>uniq_non_duplicate_mode\<close> with the print behind it; \<open>k\<close> counts the comparisons.\<close>

function nondup_loop :: "char \<Rightarrow> (nat \<Rightarrow> frame) \<Rightarrow> nat \<Rightarrow> bool \<Rightarrow> bool \<Rightarrow> string \<Rightarrow> int \<Rightarrow> string
    \<Rightarrow> uerror + item list" where
  "nondup_loop z fr k ignore count last_line dupe_count input =
     (case myreadline z input of
        Inl e \<Rightarrow> Inl e
      | Inr (n, this_line, rest) \<Rightarrow>
          (if n > 0
           then (case compare_lines (fr k) last_line this_line ignore of
                   Inl e \<Rightarrow> Inl e
                 | Inr same \<Rightarrow>
                     (if \<not> same
                      then emit (print_line count dupe_count last_line)
                             (nondup_loop z fr (k + 1) ignore count (pad (cstr this_line)) 1 rest)
                      else nondup_loop z fr (k + 1) ignore count last_line (swrap (dupe_count + 1)) rest))
           else emit (print_line count dupe_count last_line) (Inr [])))"
  by pat_completeness auto
termination
proof (relation "measure (\<lambda>(z, fr, k, i, c, l, d, input). length input)")
  fix z :: char and fr :: "nat \<Rightarrow> frame" and k :: nat and ignore count :: bool and last_line :: string and dupe_count :: int
    and input x n y this_line rest
  assume "myreadline z input = Inr x" "(n, y) = x" "(this_line, rest) = y" "0 < n"
  then have m: "length rest < length input" using myreadline_shrinks[of z input n this_line rest] by simp
  show "((z, fr, k + 1, ignore, count, pad (cstr this_line), 1, rest), (z, fr, k, ignore, count, last_line, dupe_count, input))
      \<in> measure (\<lambda>(z, fr, k, i, c, l, d, input). length input)" using m by simp
  show "((z, fr, k + 1, ignore, count, last_line, swrap (dupe_count + 1), rest), (z, fr, k, ignore, count, last_line, dupe_count, input))
      \<in> measure (\<lambda>(z, fr, k, i, c, l, d, input). length input)" using m by simp
qed simp

declare nondup_loop.simps [simp del]

text \<open>The loop of \<^verbatim>\<open>uniq_duplicate_mode\<close>.\<close>

function dup_loop :: "char \<Rightarrow> (nat \<Rightarrow> frame) \<Rightarrow> nat \<Rightarrow> bool \<Rightarrow> string \<Rightarrow> bool \<Rightarrow> string \<Rightarrow> uerror + item list" where
  "dup_loop z fr k ignore last_line dupe_found input =
     (case myreadline z input of
        Inl e \<Rightarrow> Inl e
      | Inr (n, this_line, rest) \<Rightarrow>
          (if n > 0
           then (case compare_lines (fr k) last_line this_line ignore of
                   Inl e \<Rightarrow> Inl e
                 | Inr same \<Rightarrow>
                     (if same \<and> \<not> dupe_found
                      then emit (print_line False 0 last_line) (dup_loop z fr (k + 1) ignore last_line True rest)
                      else dup_loop z fr (k + 1) ignore (pad (cstr this_line)) False rest))
           else Inr []))"
  by pat_completeness auto
termination
proof (relation "measure (\<lambda>(z, fr, k, i, l, d, input). length input)")
  fix z :: char and fr :: "nat \<Rightarrow> frame" and k :: nat and ignore dupe_found :: bool and last_line :: string
    and input x n y this_line rest
  assume "myreadline z input = Inr x" "(n, y) = x" "(this_line, rest) = y" "0 < n"
  then have m: "length rest < length input" using myreadline_shrinks[of z input n this_line rest] by simp
  show "((z, fr, k + 1, ignore, last_line, True, rest), (z, fr, k, ignore, last_line, dupe_found, input))
      \<in> measure (\<lambda>(z, fr, k, i, l, d, input). length input)" using m by simp
  show "((z, fr, k + 1, ignore, pad (cstr this_line), False, rest), (z, fr, k, ignore, last_line, dupe_found, input))
      \<in> measure (\<lambda>(z, fr, k, i, l, d, input). length input)" using m by simp
qed simp

declare dup_loop.simps [simp del]

definition uniq :: "char \<Rightarrow> (nat \<Rightarrow> frame) \<Rightarrow> bool \<Rightarrow> bool \<Rightarrow> bool \<Rightarrow> string \<Rightarrow> uerror + item list" where
  "uniq z fr count duplicate ignore input =
     (case myreadline z input of
        Inl e \<Rightarrow> Inl e
      | Inr (n, last_line, rest) \<Rightarrow>
          (if n \<le> 0 then Inl FileEmpty
           else if duplicate then dup_loop z fr 0 ignore last_line False rest
           else nondup_loop z fr 0 ignore count last_line 1 rest))"

section \<open>The command line\<close>

text \<open>The options, and the file argument; \<open>infile\<close> starts as whatever the uninitialised pointer holds.\<close>

fun parse_args :: "string list \<Rightarrow> bool \<times> bool \<times> bool \<times> string option \<Rightarrow> bool \<times> bool \<times> bool \<times> string option" where
  "parse_args [] r = r"
| "parse_args (a # as) (count, duplicate, ignore, infile) =
     parse_args as
       (if a = ''-d'' then (count, True, ignore, infile)
        else if a = ''-c'' then (True, duplicate, ignore, infile)
        else if a = ''-i'' then (count, duplicate, True, infile)
        else (count, duplicate, ignore, Some a))"

text \<open>\<open>open_file\<close> gives the contents of a file that can be opened; \<open>stdin\<close> is the piped input.\<close>

definition uniq_main :: "char \<Rightarrow> (nat \<Rightarrow> frame) \<Rightarrow> (string \<Rightarrow> string option) \<Rightarrow> string \<Rightarrow> string option \<Rightarrow> string list
    \<Rightarrow> uerror + item list" where
  "uniq_main z fr open_file stdin garbage args =
     (case parse_args args (False, False, False, garbage) of
        (count, duplicate, ignore, infile) \<Rightarrow>
          (case infile of
             Some f \<Rightarrow> (case open_file f of None \<Rightarrow> Inl Usage | Some text \<Rightarrow> uniq z fr count duplicate ignore text)
           | None \<Rightarrow> uniq z fr count duplicate ignore stdin))"

end
