(* ===== verification/Uniq_Props.thy ===== *)
theory Uniq_Props
  imports Uniq
begin

text \<open>
  Properties of \<^verbatim>\<open>uniq\<close>: what \<^verbatim>\<open>string_compare\<close> decides and under which stack layouts, and what the
  two modes print for a file given by its lines.
\<close>

section \<open>Comparison\<close>

definition holds :: "memory \<Rightarrow> nat \<Rightarrow> string \<Rightarrow> bool" where
  "holds m a s \<longleftrightarrow> (\<forall>i<length s. m (a + i) = s ! i)"

lemma holds_write: "holds (write_str a s m) a s"
  by (simp add: holds_def write_str_def)

lemma holds_write_other:
  "holds m b t \<Longrightarrow> b + length t \<le> a \<or> a + length s \<le> b \<Longrightarrow> holds (write_str a s m) b t"
  by (auto simp: holds_def write_str_def)

lemma holds_Nil [simp]: "holds m a []"
  by (simp add: holds_def)

lemma holds_Cons: "holds m a (c # s) \<longleftrightarrow> m a = c \<and> holds m (a + 1) s"
  by (auto simp: holds_def less_Suc_eq_0_disj)

lemma holds_append: "holds m a (s @ t) \<longleftrightarrow> holds m a s \<and> holds m (a + length s) t"
  by (induction s arbitrary: a) (auto simp: holds_Cons)

lemma strcmp_eq_holds:
  assumes "holds m a (s @ [NUL])" and "holds m b (t @ [NUL])" and "NUL \<notin> set s" and "NUL \<notin> set t"
  shows "strcmp_eq m a b = Some (s = t)"
  using assms
proof (induction s arbitrary: a b t)
  case Nil
  then show ?case
    by (cases t) (auto simp: holds_Cons strcmp_eq.simps[of m a b])
next
  case (Cons c s)
  show ?case
  proof (cases t)
    case Nil
    then show ?thesis using Cons.prems by (auto simp: holds_Cons strcmp_eq.simps[of m a b])
  next
    case (Cons d u)
    then show ?thesis
      using Cons.IH[of "a + 1" "b + 1" u] Cons.prems by (auto simp: holds_Cons strcmp_eq.simps[of m a b])
  qed
qed

lemma upper_NUL: "c \<noteq> NUL \<Longrightarrow> upper c \<noteq> NUL"
proof -
  assume c: "c \<noteq> NUL"
  have "upper c = NUL \<Longrightarrow> False"
  proof (cases "of_char c \<ge> (97 :: nat) \<and> of_char c \<le> (122 :: nat)")
    case True
    then have "(of_char c - 32 :: nat) < 256" by linarith
    then have "of_char (upper c) = (of_char c - 32 :: nat)" using True by (simp add: upper_def)
    moreover assume "upper c = NUL"
    ultimately show False using True by simp
  next
    case False
    moreover assume "upper c = NUL"
    ultimately show False using c by (auto simp: upper_def split: if_splits)
  qed
  then show ?thesis by blast
qed

lemma upper_no_NUL: "NUL \<notin> set s \<Longrightarrow> NUL \<notin> set (map upper s)"
proof (induction s)
  case (Cons c s)
  have "upper c \<noteq> NUL" using Cons.prems by (intro upper_NUL) auto
  then show ?case using Cons by auto
qed simp

text \<open>Two lines count as the same.\<close>

definition same :: "bool \<Rightarrow> string \<Rightarrow> string \<Rightarrow> bool" where
  "same ignore s t \<longleftrightarrow> (if ignore then map upper s = map upper t else s = t)"

text \<open>
  For strings of lengths \<open>m\<close> and \<open>n\<close>: the byte behind each array, for which the code reserves no room, is
  not in the other array; and that byte is a NUL.
\<close>

definition apart :: "frame \<Rightarrow> nat \<Rightarrow> nat \<Rightarrow> bool" where
  "apart fr m n \<longleftrightarrow> f_arr1 fr m n + m < f_arr2 fr m n \<or> f_arr2 fr m n + n < f_arr1 fr m n"

definition zero_behind :: "frame \<Rightarrow> nat \<Rightarrow> nat \<Rightarrow> bool" where
  "zero_behind fr m n \<longleftrightarrow> f_mem fr (f_arr1 fr m n + m) = NUL \<and> f_mem fr (f_arr2 fr m n + n) = NUL"

lemma string_compare_same:
  assumes "apart fr (length s) (length t)" and "ignore \<Longrightarrow> zero_behind fr (length s) (length t)" and "NUL \<notin> set s" and "NUL \<notin> set t"
  shows "string_compare fr s t ignore = Some (same ignore s t)"
proof -
  define a where "a = f_arr1 fr (length s) (length t)"
  define b where "b = f_arr2 fr (length s) (length t)"
  have ap: "a + length s < b \<or> b + length t < a" using assms(1) by (simp add: apart_def a_def b_def)
  show ?thesis
  proof (cases ignore)
    case False
    have "holds (strcpy b t (strcpy a s (f_mem fr))) b (t @ [NUL])" by (simp add: strcpy_def holds_write)
    moreover have "holds (strcpy b t (strcpy a s (f_mem fr))) a (s @ [NUL])"
      unfolding strcpy_def using ap by (intro holds_write_other holds_write) auto
    ultimately show ?thesis
      using strcmp_eq_holds[OF _ _ assms(3,4)] False by (simp add: string_compare_def same_def a_def b_def)
  next
    case True
    let ?m = "to_upper b t (to_upper a s (f_mem fr))"
    have z: "f_mem fr (a + length s) = NUL" "f_mem fr (b + length t) = NUL"
      using assms(2)[OF True] by (simp_all add: zero_behind_def a_def b_def)
    have "holds ?m a (map upper s)"
      unfolding to_upper_def using ap by (intro holds_write_other holds_write) auto
    moreover have "holds ?m b (map upper t)" unfolding to_upper_def by (rule holds_write)
    moreover have "?m (a + length s) = NUL" "?m (b + length t) = NUL"
      using z ap by (auto simp: to_upper_def write_str_def)
    ultimately have "holds ?m a (map upper s @ [NUL])" "holds ?m b (map upper t @ [NUL])"
      by (simp_all add: holds_append holds_Cons)
    moreover have "NUL \<notin> set (map upper s)" "NUL \<notin> set (map upper t)"
      by (rule upper_no_NUL, rule assms)+
    ultimately have "strcmp_eq ?m a b = Some (map upper s = map upper t)" by (rule strcmp_eq_holds)
    then show ?thesis using True by (simp add: string_compare_def same_def a_def b_def)
  qed
qed

text \<open>
  \<^verbatim>\<open>string_compare\<close> terminates and decides equality of the two strings, up to the case of letters
  when asked to, provided the two arrays on the stack are not adjacent and, when case is
  ignored, the bytes behind them happen to be NUL.
\<close>

theorem string_compare_decides:
  assumes "apart fr (length s) (length t)" and "ignore \<Longrightarrow> zero_behind fr (length s) (length t)" and "NUL \<notin> set s" and "NUL \<notin> set t"
  shows "string_compare fr s t ignore = Some (if ignore then map upper s = map upper t else s = t)"
  using string_compare_same[OF assms] by (simp add: same_def)

text \<open>
  A layout: the second array below the first, its size rounded up to a multiple of 16, in a stack that
  holds zeros.
\<close>

definition aligned_frame :: frame where
  "aligned_frame = \<lparr>f_arr1 = (\<lambda>m n. 16 * ((n + 15) div 16)), f_arr2 = (\<lambda>m n. 0), f_mem = (\<lambda>_. NUL)\<rparr>"

lemma aligned_apart: "apart aligned_frame m n \<longleftrightarrow> n mod 16 \<noteq> 0"
proof -
  have d: "(n + 15) div 16 = n div 16 + (if n mod 16 = 0 then 0 else 1)" by presburger
  have n: "16 * (n div 16) + n mod 16 = n" by simp
  show ?thesis using n by (auto simp: apart_def aligned_frame_def d)
qed

lemma aligned_zero [simp]: "zero_behind aligned_frame m n"
  by (simp add: zero_behind_def aligned_frame_def)

theorem string_compare_decides_witness:
  "string_compare aligned_frame ''aB'' ''Ab'' True = Some True \<and> string_compare aligned_frame ''aB'' ''Ab'' False = Some False"
proof -
  have f: "apart aligned_frame (length ''aB'') (length ''Ab'')" by (simp add: aligned_apart)
  have u: "map upper ''aB'' = map upper ''Ab''" by code_simp
  show ?thesis
    using string_compare_decides[OF f, of True] string_compare_decides[OF f, of False] u by simp
qed

text \<open>
  C34. The arrays have no room for the terminating NUL: when the second array ends where the first
  begins, copying the second string overwrites the first character of the first, and
  every non-empty string compares as different from itself.
\<close>

theorem adjacent_arrays_differ:
  assumes "f_arr2 fr (length s) (length s) + length s = f_arr1 fr (length s) (length s)"
    and "NUL \<notin> set s" and "s \<noteq> []"
  shows "string_compare fr s s False = Some False"
proof -
  define a where "a = f_arr1 fr (length s) (length s)"
  define b where "b = f_arr2 fr (length s) (length s)"
  let ?m = "strcpy b s (strcpy a s (f_mem fr))"
  have ab: "a = b + length s" using assms(1) by (simp add: a_def b_def)
  have "?m a = NUL" by (simp add: strcpy_def write_str_def ab)
  moreover have "?m b = s ! 0" using assms(3) by (simp add: strcpy_def write_str_def nth_append)
  moreover have "s ! 0 \<noteq> NUL" using assms(2,3) by (metis length_greater_0_conv nth_mem)
  ultimately have "strcmp_eq ?m a b = Some False" by (simp add: strcmp_eq.simps[of ?m a b])
  then show ?thesis by (simp add: string_compare_def a_def b_def)
qed

definition tight_frame :: frame where
  "tight_frame = \<lparr>f_arr1 = (\<lambda>m n. n), f_arr2 = (\<lambda>m n. 0), f_mem = (\<lambda>_. NUL)\<rparr>"

theorem adjacent_arrays_differ_witness: "string_compare tight_frame ''line'' ''line'' False = Some False"
  by (rule adjacent_arrays_differ) (simp_all add: tight_frame_def)


section \<open>Files as lines\<close>

text \<open>The lines of a file; a last line without a newline counts.\<close>

function lines :: "string \<Rightarrow> string list" where
  "lines s =
     (if s = [] then []
      else takeWhile (\<lambda>c. c \<noteq> NL) s # lines (drop 1 (dropWhile (\<lambda>c. c \<noteq> NL) s)))"
  by pat_completeness auto
termination
proof (relation "measure length")
  fix s :: string
  assume "s \<noteq> []"
  then show "(drop 1 (dropWhile (\<lambda>c. c \<noteq> NL) s), s) \<in> measure length"
    using length_dropWhile_le[of "\<lambda>c. c \<noteq> NL" s]
    by (cases s) (auto simp: less_Suc_eq_le intro: le_trans[OF diff_le_self length_dropWhile_le])
qed simp

declare lines.simps [simp del]

text \<open>The files that fit: no NUL, and no line longer than 1022 characters.\<close>

definition fits :: "string \<Rightarrow> bool" where
  "fits input \<longleftrightarrow> NUL \<notin> set input \<and> list_all (\<lambda>l. length l < 1023) (lines input)"

lemma read_loop_line:
  "length acc + length (takeWhile (\<lambda>c. c \<noteq> NL) s) < LINE \<Longrightarrow>
   read_loop NUL s acc = Inr (acc @ takeWhile (\<lambda>c. c \<noteq> NL) s, if NL \<in> set s then 1 else 0,
     drop 1 (dropWhile (\<lambda>c. c \<noteq> NL) s))"
  by (induction s arbitrary: acc) auto

lemma myreadline_line:
  assumes "s \<noteq> []" and "length (takeWhile (\<lambda>c. c \<noteq> NL) s) < LINE"
  shows "myreadline NUL s = Inr (1, pad (takeWhile (\<lambda>c. c \<noteq> NL) s @ [NL]), drop 1 (dropWhile (\<lambda>c. c \<noteq> NL) s))"
proof -
  have "NL \<in> set s \<or> takeWhile (\<lambda>c. c \<noteq> NL) s \<noteq> []" using assms(1) by (cases s) auto
  then show ?thesis using read_loop_line[of "[]" s] assms(2) by (auto simp: myreadline_def)
qed

lemma myreadline_end: "myreadline NUL [] = Inr (0, pad [NL], [])"
  by (simp add: myreadline_def LINE_def)

lemma pad_string:
  assumes "NUL \<notin> set s" and "length s < LINE"
  shows "terminated (pad s)" and "cstr (pad s) = s"
proof -
  obtain n where "LINE - length s = Suc n" using assms(2) by (metis Suc_diff_Suc)
  then have p: "pad s = s @ NUL # replicate n NUL" by (simp add: pad_def)
  show "terminated (pad s)" by (simp add: p terminated_def)
  show "cstr (pad s) = s" unfolding p by (rule cstr_append_NUL[OF assms(1)])
qed

lemma fits_split:
  assumes "fits s" and "s \<noteq> []"
  defines "l \<equiv> takeWhile (\<lambda>c. c \<noteq> NL) s" and "r \<equiv> drop 1 (dropWhile (\<lambda>c. c \<noteq> NL) s)"
  shows "lines s = l # lines r" and "fits r" and "NUL \<notin> set l" and "length l < 1023"
proof -
  show ln: "lines s = l # lines r" using assms(2) by (simp add: lines.simps[of s] l_def r_def)
  have "set r \<subseteq> set s" "set l \<subseteq> set s"
    unfolding r_def l_def by (auto dest!: in_set_dropD set_dropWhileD set_takeWhileD)
  then show "fits r" "NUL \<notin> set l" "length l < 1023"
    using assms(1) ln by (auto simp: fits_def)
qed

text \<open>The runs of a list of lines: how many neighbours count as the same, and the first of them.\<close>

function runs :: "bool \<Rightarrow> string list \<Rightarrow> (int \<times> string) list" where
  "runs ig [] = []"
| "runs ig (x # xs) =
     (1 + int (length (takeWhile (same ig x) xs)), x) # runs ig (dropWhile (same ig x) xs)"
  by pat_completeness auto
termination
  by (relation "measure (\<lambda>(ig, xs). length xs)") (auto simp: less_Suc_eq_le length_dropWhile_le)

lemma same_NL: "same ig (x @ [NL]) (y @ [NL]) = same ig x y"
  by (simp add: same_def)

text \<open>
  The stack during the comparisons of the lines \<open>ls\<close>, whose strings include the newline: \<^verbatim>\<open>uniq.c\<close> works as intended
  only if the bytes it writes and reads behind its arrays are harmless ones.
\<close>

definition frames_ok :: "bool \<Rightarrow> (nat \<Rightarrow> frame) \<Rightarrow> string list \<Rightarrow> bool" where
  "frames_ok ig fr ls \<longleftrightarrow> (\<forall>k. \<forall>x\<in>set ls. \<forall>y\<in>set ls. apart (fr k) (length x + 1) (length y + 1) \<and>
     (ig \<longrightarrow> zero_behind (fr k) (length x + 1) (length y + 1)))"

lemma compare_lines_same:
  assumes "frames_ok ig fr ls" and "x \<in> set ls" "y \<in> set ls"
    and "NUL \<notin> set x" "NUL \<notin> set y" and "length x < 1023" "length y < 1023"
  shows "compare_lines (fr k) (pad (x @ [NL])) (pad (y @ [NL])) ig = Inr (same ig x y)"
proof -
  have "NUL \<notin> set (x @ [NL])" "NUL \<notin> set (y @ [NL])" "length (x @ [NL]) < LINE" "length (y @ [NL]) < LINE"
    using assms by (simp_all add: LINE_def)
  note p = pad_string[OF this(1,3)] pad_string[OF this(2,4)]
  have "string_compare (fr k) (x @ [NL]) (y @ [NL]) ig = Some (same ig (x @ [NL]) (y @ [NL]))"
    using assms by (intro string_compare_same) (auto simp: frames_ok_def)
  then show ?thesis using p by (simp add: compare_lines_def same_NL)
qed

definition item :: "bool \<Rightarrow> int \<times> string \<Rightarrow> int option \<times> string" where
  "item count r = (if count then Some (fst r) else None, snd r @ [NL])"

lemma print_line_item:
  "NUL \<notin> set x \<Longrightarrow> length x < 1023 \<Longrightarrow> print_line count d (pad (x @ [NL])) = Inr (item count (d, x))"
  using pad_string[of "x @ [NL]"] by (simp add: print_line_def item_def LINE_def)

lemma nondup_runs:
  assumes "frames_ok ig fr ls" and "fits input" and "NUL \<notin> set x" and "length x < 1023"
    and "1 \<le> d" and "d + int (length (lines input)) \<le> INT_MAX" and "x \<in> set ls" and "set (lines input) \<subseteq> set ls"
  shows "nondup_loop NUL fr k ig count (pad (x @ [NL])) d input =
    Inr (map (item count) ((d + int (length (takeWhile (same ig x) (lines input))), x) #
      runs ig (dropWhile (same ig x) (lines input))))"
  using assms(2-8)
proof (induction input arbitrary: k x d rule: lines.induct)
  case (1 s)
  show ?case
  proof (cases "s = []")
    case True
    have "nondup_loop NUL fr k ig count (pad (x @ [NL])) d s = emit (print_line count d (pad (x @ [NL]))) (Inr [])"
      by (subst nondup_loop.simps) (simp add: True myreadline_end)
    then show ?thesis using print_line_item[OF 1(3,4)] True by (simp add: emit_def lines.simps)
  next
    case False
    let ?l = "takeWhile (\<lambda>c. c \<noteq> NL) s" and ?r = "drop 1 (dropWhile (\<lambda>c. c \<noteq> NL) s)"
    note sp = fits_split[OF 1(2) False]
    have rd: "myreadline NUL s = Inr (1, pad (?l @ [NL]), ?r)"
      using myreadline_line[OF False] sp(4) by (simp add: LINE_def)
    have ls: "?l \<in> set ls" "set (lines ?r) \<subseteq> set ls" using 1(8) sp(1) by auto
    have cmp: "compare_lines (fr k) (pad (x @ [NL])) (pad (?l @ [NL])) ig = Inr (same ig x ?l)"
      by (rule compare_lines_same[OF assms(1) 1(7) ls(1) 1(3) sp(3) 1(4) sp(4)])
    have cs: "cstr (pad (?l @ [NL])) = ?l @ [NL]" using sp(3,4) by (intro pad_string) (simp_all add: LINE_def)
    have wr: "swrap (d + 1) = d + 1"
      using 1(5,6) sp(1) by (intro swrap_id) (simp add: in_int_def INT_MIN_def)
    show ?thesis
    proof (cases "same ig x ?l")
      case True
      have "nondup_loop NUL fr k ig count (pad (x @ [NL])) d s = nondup_loop NUL fr (k + 1) ig count (pad (x @ [NL])) (d + 1) ?r"
        by (subst nondup_loop.simps) (simp add: rd cmp True wr)
      then show ?thesis
        using 1(1)[OF False sp(2) 1(3,4), of "d + 1" "k + 1"] 1(5-7) ls(2) sp(1) True by (simp add: algebra_simps)
    next
      case diff: False
      have "nondup_loop NUL fr k ig count (pad (x @ [NL])) d s =
          emit (print_line count d (pad (x @ [NL]))) (nondup_loop NUL fr (k + 1) ig count (pad (?l @ [NL])) 1 ?r)"
        by (subst nondup_loop.simps) (simp add: rd cmp diff cs)
      then show ?thesis
        using 1(1)[OF False sp(2,3,4), of 1 "k + 1"] 1(5,6) ls sp(1) diff print_line_item[OF 1(3,4)] by (simp add: emit_def)
    qed
  qed
qed


lemma uniq_runs:
  assumes "frames_ok ig fr (lines input)" and "fits input" and "input \<noteq> []" and "int (length (lines input)) \<le> INT_MAX"
  shows "uniq NUL fr count False ig input = Inr (map (item count) (runs ig (lines input)))"
proof -
  let ?l = "takeWhile (\<lambda>c. c \<noteq> NL) input" and ?r = "drop 1 (dropWhile (\<lambda>c. c \<noteq> NL) input)"
  note sp = fits_split[OF assms(2,3)]
  have rd: "myreadline NUL input = Inr (1, pad (?l @ [NL]), ?r)"
    using myreadline_line[OF assms(3)] sp(4) by (simp add: LINE_def)
  then have "uniq NUL fr count False ig input = nondup_loop NUL fr 0 ig count (pad (?l @ [NL])) 1 ?r"
    by (simp add: uniq_def)
  also have "\<dots> = Inr (map (item count) ((1 + int (length (takeWhile (same ig ?l) (lines ?r))), ?l) #
      runs ig (dropWhile (same ig ?l) (lines ?r))))"
    using assms(4) sp(1) by (intro nondup_runs[OF assms(1) sp(2,3,4)]) auto
  finally show ?thesis using sp(1) by simp
qed

definition demo_text :: string where
  "demo_text = ''a'' @ [NL] @ ''a'' @ [NL] @ ''b'' @ [NL] @ ''a''"

lemma demo_lines: "lines demo_text = [''a'', ''a'', ''b'', ''a'']"
  by (simp add: demo_text_def lines.simps)

section \<open>The command line\<close>

definition is_flag :: "string \<Rightarrow> bool" where
  "is_flag a \<longleftrightarrow> a = ''-d'' \<or> a = ''-c'' \<or> a = ''-i''"

text \<open>The options may come in any order and more than once; of several file names the last one counts.\<close>

lemma parse_args_spec:
  "parse_args args (c, d, i, f) =
     (c \<or> ''-c'' \<in> set args, d \<or> ''-d'' \<in> set args, i \<or> ''-i'' \<in> set args,
      if \<exists>a\<in>set args. \<not> is_flag a then Some (last (filter (\<lambda>a. \<not> is_flag a) args)) else f)"
proof (induction args arbitrary: c d i f)
  case (Cons a as)
  have "filter (\<lambda>a. \<not> is_flag a) as = [] \<longleftrightarrow> \<not> (\<exists>a\<in>set as. \<not> is_flag a)" by (simp add: filter_empty_conv)
  then show ?case using Cons by (auto simp: is_flag_def)
qed simp

lemma parse_one_file:
  assumes "filter (\<lambda>a. \<not> is_flag a) args = [f]"
  shows "parse_args args (False, False, False, garbage) = (''-c'' \<in> set args, ''-d'' \<in> set args, ''-i'' \<in> set args, Some f)"
proof -
  have "f \<in> set (filter (\<lambda>a. \<not> is_flag a) args)" by (simp add: assms)
  then have "\<exists>a\<in>set args. \<not> is_flag a" by auto
  then show ?thesis using assms by (simp add: parse_args_spec)
qed

text \<open>
  C35. The whole program without \<^verbatim>\<open>-d\<close>, on a file with at least one byte, no NUL and lines of at most
  1022 characters: it prints the first line of each run of neighbouring lines that compare
  as the same, in order, each with the length of its run if \<^verbatim>\<open>-c\<close> is among the arguments,
  ignoring case if \<^verbatim>\<open>-i\<close> is, whatever the order of the arguments. This holds under two assumptions on memory
  that the program does not own, because it writes and reads behind its arrays: the byte
  behind \<^verbatim>\<open>one_bit\<close> is NUL; and whenever two lines of the file are compared, the byte behind each of the two
  arrays of \<^verbatim>\<open>string_compare\<close> is outside the other one (else the comparison fails, C34) and, with \<^verbatim>\<open>-i\<close>, is NUL.
\<close>

theorem uniq_prints_runs:
  assumes "frames_ok (''-i'' \<in> set args) fr (lines text)" and "fits text" and "text \<noteq> []" and "int (length (lines text)) \<le> INT_MAX"
    and "filter (\<lambda>a. \<not> is_flag a) args = [f]" and "''-d'' \<notin> set args" and "open_file f = Some text"
  shows "uniq_main NUL fr open_file stdin garbage args =
    Inr (map (item (''-c'' \<in> set args)) (runs (''-i'' \<in> set args) (lines text)))"
  using uniq_runs[OF assms(1-4)] assms(6,7) by (simp add: uniq_main_def parse_one_file[OF assms(5)])

theorem uniq_prints_runs_witness:
  "uniq_main NUL (\<lambda>k. aligned_frame) (\<lambda>f. if f = ''in'' then Some demo_text else None) [] None [''-c'', ''in''] =
     Inr [(Some 2, ''a'' @ [NL]), (Some 1, ''b'' @ [NL]), (Some 1, ''a'' @ [NL])]"
proof -
  have f: "frames_ok (''-i'' \<in> set [''-c'', ''in'']) (\<lambda>k. aligned_frame) (lines demo_text)"
    by (simp add: frames_ok_def aligned_apart demo_lines)
  have t: "fits demo_text" "demo_text \<noteq> []" "int (length (lines demo_text)) \<le> INT_MAX"
    by (simp_all add: fits_def demo_lines INT_MAX_def) (simp_all add: demo_text_def)
  show ?thesis
    using uniq_prints_runs[OF f t, of "''in''" "\<lambda>f. if f = ''in'' then Some demo_text else None" "[]" None]
    by (simp add: is_flag_def demo_lines same_def item_def)
qed

section \<open>Duplicate mode\<close>

text \<open>The runs with all their lines, and every other line of a run that has a successor in it.\<close>

function groups :: "bool \<Rightarrow> string list \<Rightarrow> string list list" where
  "groups ig [] = []"
| "groups ig (x # xs) = (x # takeWhile (same ig x) xs) # groups ig (dropWhile (same ig x) xs)"
  by pat_completeness auto
termination
  by (relation "measure (\<lambda>(ig, xs). length xs)") (auto simp: less_Suc_eq_le length_dropWhile_le)

fun alternate :: "'a list \<Rightarrow> 'a list" where
  "alternate (x # y # zs) = x # alternate zs"
| "alternate _ = []"

lemma length_alternate: "length (alternate xs) = length xs div 2"
  by (induction xs rule: alternate.induct) simp_all

lemma groups_runs: "map (\<lambda>g. (int (length g), hd g)) (groups ig ls) = runs ig ls"
  by (induction ig ls rule: groups.induct) simp_all

lemma same_trans: "same ig x y \<Longrightarrow> same ig y = same ig x"
  by (auto simp: same_def fun_eq_iff)

lemma dup_runs:
  assumes "frames_ok ig fr ls" and "fits input" and "NUL \<notin> set x" and "length x < 1023"
    and "x \<in> set ls" and "set (lines input) \<subseteq> set ls"
  shows "dup_loop NUL fr k ig (pad (x @ [NL])) df input =
    Inr (map (\<lambda>l. item False (0, l))
      (alternate ((if df then [] else [x]) @ takeWhile (same ig x) (lines input)) @
       concat (map alternate (groups ig (dropWhile (same ig x) (lines input))))))"
  using assms(2-6)
proof (induction input arbitrary: k x df rule: lines.induct)
  case (1 s)
  show ?case
  proof (cases "s = []")
    case True
    have "dup_loop NUL fr k ig (pad (x @ [NL])) df s = Inr []"
      by (subst dup_loop.simps) (simp add: True myreadline_end)
    then show ?thesis using True by (simp add: lines.simps)
  next
    case False
    let ?l = "takeWhile (\<lambda>c. c \<noteq> NL) s" and ?r = "drop 1 (dropWhile (\<lambda>c. c \<noteq> NL) s)"
    note sp = fits_split[OF 1(2) False]
    have rd: "myreadline NUL s = Inr (1, pad (?l @ [NL]), ?r)"
      using myreadline_line[OF False] sp(4) by (simp add: LINE_def)
    have ls: "?l \<in> set ls" "set (lines ?r) \<subseteq> set ls" using 1(6) sp(1) by auto
    have cmp: "compare_lines (fr k) (pad (x @ [NL])) (pad (?l @ [NL])) ig = Inr (same ig x ?l)"
      by (rule compare_lines_same[OF assms(1) 1(5) ls(1) 1(3) sp(3) 1(4) sp(4)])
    have cs: "cstr (pad (?l @ [NL])) = ?l @ [NL]" using sp(3,4) by (intro pad_string) (simp_all add: LINE_def)
    note ih = 1(1)[OF False sp(2)]
    show ?thesis
    proof (cases "same ig x ?l \<and> \<not> df")
      case True
      have "dup_loop NUL fr k ig (pad (x @ [NL])) df s =
          emit (print_line False 0 (pad (x @ [NL]))) (dup_loop NUL fr (k + 1) ig (pad (x @ [NL])) True ?r)"
        by (subst dup_loop.simps) (simp add: rd cmp True)
      then show ?thesis
        using ih[OF 1(3-5) ls(2), of "k + 1" True] True print_line_item[OF 1(3,4)] sp(1) by (simp add: emit_def)
    next
      case other: False
      have step: "dup_loop NUL fr k ig (pad (x @ [NL])) df s = dup_loop NUL fr (k + 1) ig (pad (?l @ [NL])) False ?r"
        by (subst dup_loop.simps) (use other in \<open>auto simp: rd cmp cs\<close>)
      note nxt = ih[OF sp(3,4) ls, of "k + 1" False]
      show ?thesis
      proof (cases "same ig x ?l")
        case True
        then have "same ig ?l = same ig x" "df" using other same_trans[of ig x ?l] by simp_all
        then show ?thesis using nxt step sp(1) True by simp
      next
        case False
        then show ?thesis using nxt step sp(1) by (cases df) simp_all
      qed
    qed
  qed
qed

text \<open>
  C36. The whole program with \<^verbatim>\<open>-d\<close>, ignoring case or not: of a run of \<open>m\<close> lines that compare as the same it
  prints the first, the third and so on, \<open>m div 2\<close> of them, not one: the flag that remembers that a duplicate was printed
  is cleared by the next equal line; \<open>-c\<close> changes nothing. As for C35, this assumes that the byte behind \<^verbatim>\<open>one_bit\<close>
  is NUL and that in each comparison of two lines of the file the byte behind each array of \<^verbatim>\<open>string_compare\<close> is outside
  the other one and, with \<^verbatim>\<open>-i\<close>, is NUL.
\<close>

theorem duplicate_mode_prints_half:
  assumes "frames_ok (''-i'' \<in> set args) fr (lines text)" and "fits text" and "text \<noteq> []"
    and "filter (\<lambda>a. \<not> is_flag a) args = [f]" and "''-d'' \<in> set args" and "open_file f = Some text"
  shows "uniq_main NUL fr open_file stdin garbage args =
      Inr (map (\<lambda>l. (None, l @ [NL])) (concat (map alternate (groups (''-i'' \<in> set args) (lines text))))) \<and>
    map (\<lambda>g. length (alternate g)) (groups (''-i'' \<in> set args) (lines text)) =
      map (\<lambda>(m, l). nat m div 2) (runs (''-i'' \<in> set args) (lines text))"
proof -
  let ?ig = "''-i'' \<in> set args" and ?l = "takeWhile (\<lambda>c. c \<noteq> NL) text" and ?r = "drop 1 (dropWhile (\<lambda>c. c \<noteq> NL) text)"
  note sp = fits_split[OF assms(2,3)]
  have rd: "myreadline NUL text = Inr (1, pad (?l @ [NL]), ?r)"
    using myreadline_line[OF assms(3)] sp(4) by (simp add: LINE_def)
  then have "uniq_main NUL fr open_file stdin garbage args = dup_loop NUL fr 0 ?ig (pad (?l @ [NL])) False ?r"
    using assms(5,6) by (simp add: uniq_main_def parse_one_file[OF assms(4)] uniq_def)
  also have "\<dots> = Inr (map (\<lambda>l. item False (0, l)) (concat (map alternate (groups ?ig (lines text)))))"
    unfolding sp(1) by (subst dup_runs[OF assms(1) sp(2,3,4)]) (use sp(1) in auto)
  finally have "uniq_main NUL fr open_file stdin garbage args =
      Inr (map (\<lambda>l. item False (0, l)) (concat (map alternate (groups ?ig (lines text)))))" .
  then show ?thesis by (simp add: item_def length_alternate flip: groups_runs)
qed

definition four_lines :: string where
  "four_lines = ''x'' @ [NL] @ ''X'' @ [NL] @ ''x'' @ [NL] @ ''x'' @ [NL]"

theorem duplicate_mode_prints_half_witness:
  "uniq_main NUL (\<lambda>k. aligned_frame) (\<lambda>f. if f = ''in'' then Some four_lines else None) [] None [''-d'', ''-i'', ''in''] =
     Inr [(None, ''x'' @ [NL]), (None, ''x'' @ [NL])]"
proof -
  have l: "lines four_lines = [''x'', ''X'', ''x'', ''x'']" by (simp add: four_lines_def lines.simps)
  have f: "frames_ok (''-i'' \<in> set [''-d'', ''-i'', ''in'']) (\<lambda>k. aligned_frame) (lines four_lines)"
    by (simp add: frames_ok_def aligned_apart l)
  have t: "fits four_lines" "four_lines \<noteq> []" by (simp_all add: fits_def l) (simp_all add: four_lines_def)
  have u: "same True ''x'' ''X''" "same True ''x'' ''x''" by code_simp+
  show ?thesis
    using duplicate_mode_prints_half[OF f t, of "''in''" "\<lambda>f. if f = ''in'' then Some four_lines else None" "[]" None]
    by (simp add: l u is_flag_def)
qed

end
