(* ===== verification/DiskIO.thy ===== *)
theory DiskIO
  imports OS_Prelude
begin

unbundle bit_operations_syntax

text \<open>
  The disk programs of \<^verbatim>\<open>src/final_project\<close>: reading a file in blocks and combining its 32-bit
  integers with exclusive or (\<^verbatim>\<open>run_blocksize.c\<close>, \<^verbatim>\<open>fast.c\<close>, \<^verbatim>\<open>run_multithreaded.c\<close>), reading without
  output (\<^verbatim>\<open>run.c\<close>), seeking (\<^verbatim>\<open>part_4_lseek_run.c\<close>), writing, and the handling of the command
  line. A file is its list of bytes. One system call transfers at most \<open>MAX_RW\<close> bytes, the limit of
  Linux; a read returns what is there up to the size asked for.
\<close>

section \<open>Blocks and words\<close>

type_synonym bytes = "u8 list"

type_synonym u64 = "64 word"

definition MAX_RW :: int where
  "MAX_RW = 2147479552"

definition io_size :: "nat \<Rightarrow> nat" where
  "io_size n = (if int n \<le> MAX_RW then n else nat MAX_RW)"

definition read_at :: "bytes \<Rightarrow> nat \<Rightarrow> nat \<Rightarrow> bytes" where
  "read_at file n off = take (io_size n) (drop off file)"

text \<open>\<^verbatim>\<open>pread\<close> takes the offset as a signed number and fails on a negative one.\<close>

definition pread :: "bytes \<Rightarrow> nat \<Rightarrow> u64 \<Rightarrow> bytes option" where
  "pread file n off = (if sint off < 0 then None else Some (read_at file n (nat (sint off))))"

lemma io_size_small [simp]: "int n \<le> MAX_RW \<Longrightarrow> io_size n = n"
  by (simp add: io_size_def)

lemma io_size_props: "io_size n \<le> n" "io_size n = 0 \<longleftrightarrow> n = 0" "n mod 4 = 0 \<Longrightarrow> io_size n mod 4 = 0"
  by (auto simp: io_size_def MAX_RW_def)

text \<open>The bytes of a buffer as \<^verbatim>\<open>unsigned int\<close>, low byte first; a rest of less than four is dropped.\<close>

fun words_of :: "bytes \<Rightarrow> u32 list" where
  "words_of (a # b # c # d # r) =
     (ucast a + 256 * ucast b + 65536 * ucast c + 16777216 * ucast d) # words_of r"
| "words_of _ = []"

text \<open>The loop of \<^verbatim>\<open>xorbuf\<close>.\<close>

fun xor_loop :: "u32 list \<Rightarrow> nat \<Rightarrow> nat \<Rightarrow> u32 \<Rightarrow> u32" where
  "xor_loop buffer i 0 result = result"
| "xor_loop buffer i (Suc k) result = xor_loop buffer (i + 1) k (result XOR (buffer ! i))"

definition xorbuf :: "u32 list \<Rightarrow> nat \<Rightarrow> u32" where
  "xorbuf buffer sz = xor_loop buffer 0 sz 0"

section \<open>Reading\<close>

text \<open>
  \<^verbatim>\<open>disk_read\<close> of \<^verbatim>\<open>run_blocksize.c\<close>: \<^verbatim>\<open>ceil\<close> is applied to an integer quotient and changes nothing.
  The block is read before the count is tested.
\<close>

function blocksize_loop :: "bytes \<Rightarrow> nat \<Rightarrow> nat \<Rightarrow> nat \<Rightarrow> nat \<Rightarrow> u32 \<Rightarrow> u32" where
  "blocksize_loop file sz block_count off count x =
     (let blk = read_at file (sz * 4) off
      in if length blk > 0 \<and> count < block_count
         then blocksize_loop file sz block_count (off + length blk) (count + 1)
                (x XOR xorbuf (words_of blk) (length blk div 4))
         else x)"
  by pat_completeness auto
termination
  by (relation "measure (\<lambda>(file, sz, bc, off, count, x). bc - count)") auto

declare blocksize_loop.simps [simp del]

definition disk_read_blocksize :: "bytes \<Rightarrow> nat \<Rightarrow> nat \<Rightarrow> u32" where
  "disk_read_blocksize file block_size block_count =
     blocksize_loop file (block_size div 4) block_count 0 0 0"

text \<open>\<^verbatim>\<open>disk_read\<close> of \<^verbatim>\<open>fast.c\<close>: blocks of 4096 bytes to the end of the file.\<close>

function fast_loop :: "bytes \<Rightarrow> nat \<Rightarrow> nat \<Rightarrow> u32 \<Rightarrow> u32" where
  "fast_loop file sz off x =
     (let blk = read_at file (sz * 4) off
      in if length blk > 0
         then fast_loop file sz (off + length blk) (x XOR xorbuf (words_of blk) (length blk div 4))
         else x)"
  by pat_completeness auto
termination
  by (relation "measure (\<lambda>(file, sz, off, x). length file - off)") (auto simp: read_at_def)

declare fast_loop.simps [simp del]

definition disk_read_fast :: "bytes \<Rightarrow> u32" where
  "disk_read_fast file = fast_loop file (4096 div 4) 0 0"

text \<open>\<^verbatim>\<open>disk_read\<close> of \<^verbatim>\<open>run.c\<close>: the number of blocks read, which the program does not report.\<close>

function plain_loop :: "bytes \<Rightarrow> nat \<Rightarrow> nat \<Rightarrow> nat" where
  "plain_loop file block_size off =
     (let blk = read_at file block_size off
      in if length blk > 0 then Suc (plain_loop file block_size (off + length blk)) else 0)"
  by pat_completeness auto
termination
  by (relation "measure (\<lambda>(file, bs, off). length file - off)") (auto simp: read_at_def)

declare plain_loop.simps [simp del]

section \<open>Reading with threads\<close>

record thread_arg =
  ta_block_size :: nat
  ta_thread_num :: nat
  ta_num_threads :: nat

text \<open>
  The offset is an \<^verbatim>\<open>unsigned long\<close>. The first one is a product of two \<^verbatim>\<open>int\<close>s, which may wrap to a negative
  number that the conversion extends by its sign; the later ones are computed in
  \<^verbatim>\<open>unsigned long\<close> from the \<^verbatim>\<open>int\<close> \<^verbatim>\<open>count\<close>.
\<close>

definition first_offset :: "thread_arg \<Rightarrow> u64" where
  "first_offset t = word_of_int (swrap (int (ta_thread_num t) * int (ta_block_size t)))"

definition next_offset :: "thread_arg \<Rightarrow> int \<Rightarrow> u64" where
  "next_offset t count =
     (word_of_nat (ta_num_threads t) * word_of_int count + word_of_nat (ta_thread_num t)) * word_of_nat (ta_block_size t)"

text \<open>
  The loop of \<^verbatim>\<open>thread_read\<close>; \<open>None\<close> if it does not end. The \<^verbatim>\<open>int\<close> \<^verbatim>\<open>count\<close> wraps.
\<close>

partial_function (option) thread_loop :: "bytes \<Rightarrow> thread_arg \<Rightarrow> u64 \<Rightarrow> int \<Rightarrow> u32 \<Rightarrow> u32 option" where
  "thread_loop file t offset count x =
     (case pread file (ta_block_size t) offset of
        None \<Rightarrow> Some x
      | Some blk \<Rightarrow>
          (if length blk > 0
           then thread_loop file t (next_offset t (swrap (count + 1))) (swrap (count + 1))
                  (x XOR xorbuf (words_of blk) (length blk div 4))
           else Some x))"

definition thread_read :: "bytes \<Rightarrow> thread_arg \<Rightarrow> u32 option" where
  "thread_read file t = thread_loop file t (first_offset t) 0 0"

text \<open>\<^verbatim>\<open>disk_read\<close> of \<^verbatim>\<open>run_multithreaded.c\<close>: the loop over the joined threads, which waits for each of them.\<close>

fun join_loop :: "bytes \<Rightarrow> nat \<Rightarrow> nat \<Rightarrow> nat \<Rightarrow> u32 option" where
  "join_loop file bs n 0 = Some 0"
| "join_loop file bs n (Suc i) =
     (case join_loop file bs n i of
        None \<Rightarrow> None
      | Some x \<Rightarrow>
          map_option (\<lambda>y. x XOR y)
            (thread_read file \<lparr>ta_block_size = bs, ta_thread_num = i, ta_num_threads = n\<rparr>))"

definition disk_read_threads :: "bytes \<Rightarrow> nat \<Rightarrow> nat \<Rightarrow> u32 option" where
  "disk_read_threads file block_size num_threads =
     join_loop file (block_size div 4 * 4) num_threads num_threads"

section \<open>Seeking and writing\<close>

text \<open>The loop of \<^verbatim>\<open>part_4_lseek_run.c\<close>: the offset it ends at; \<open>None\<close> if it does not end.\<close>

partial_function (option) lseek_loop :: "int \<Rightarrow> int \<Rightarrow> int \<Rightarrow> int \<Rightarrow> int option" where
  "lseek_loop block_size block_count tot off =
     (if tot < swrap (block_count * block_size)
      then lseek_loop block_size block_count (swrap (tot + block_size)) (off + block_size)
      else Some off)"

text \<open>
  \<^verbatim>\<open>disk_write\<close>: the file is opened without truncation, so old bytes behind the ones written stay.
\<close>

definition write_at :: "bytes \<Rightarrow> nat \<Rightarrow> bytes \<Rightarrow> bytes" where
  "write_at file off buf = take off file @ replicate (off - length file) 0 @ buf @ drop (off + length buf) file"

fun write_loop :: "bytes \<Rightarrow> nat \<Rightarrow> nat \<Rightarrow> nat \<Rightarrow> bytes" where
  "write_loop file block_size off 0 = file"
| "write_loop file block_size off (Suc k) =
     write_loop (write_at file off (replicate (io_size block_size) 116)) block_size (off + io_size block_size) k"

definition disk_write :: "bytes \<Rightarrow> nat \<Rightarrow> nat \<Rightarrow> bytes" where
  "disk_write file block_size block_count = write_loop file block_size 0 block_count"

section \<open>The command line\<close>

fun digits_value :: "int \<Rightarrow> string \<Rightarrow> int" where
  "digits_value acc [] = acc"
| "digits_value acc (c # cs) =
     (if of_char c \<ge> (48 :: nat) \<and> of_char c \<le> (57 :: nat)
      then digits_value (10 * acc + (of_char c - 48)) cs else acc)"

text \<open>
  \<^verbatim>\<open>strtol\<close> stops at the first character that is no digit and saturates at the ends of \<^verbatim>\<open>long\<close>; \<^verbatim>\<open>atoi\<close> is its
  value converted to \<^verbatim>\<open>int\<close>, as the GNU library has it.
\<close>

definition strtol :: "string \<Rightarrow> int" where
  "strtol s =
     (let t = dropWhile (\<lambda>c. c \<in> set [CHR '' '', CHR 0x09, CHR 0x0A, CHR 0x0B, CHR 0x0C, CHR 0x0D]) s;
          v = (case t of
                 [] \<Rightarrow> 0
               | c # cs \<Rightarrow>
                   (if c = CHR ''-'' then - digits_value 0 cs
                    else if c = CHR ''+'' then digits_value 0 cs
                    else digits_value 0 t))
      in max (- (2 ^ 63)) (min v (2 ^ 63 - 1)))"

definition atoi :: "string \<Rightarrow> int" where
  "atoi s = swrap (strtol s)"

lemma in_int_atoi: "in_int (atoi s)"
  by (simp add: atoi_def swrap_in_int)

datatype disk_error = BeyondArgv | BadSize | Diverged

datatype action = DoRead string int int | DoReadThreads string int int | DoWrite string int int | DoNothing

text \<open>
  main of \<^verbatim>\<open>run.c\<close> (also of \<^verbatim>\<open>run_blocksize.c\<close> and \<^verbatim>\<open>part_4_lseek_run.c\<close>): \<^verbatim>\<open>usage\<close> prints and returns,
  so execution goes on; an argument that is not there is an access at or behind the null pointer that ends \<^verbatim>\<open>argv\<close>. \<open>garbage\<close> is what
  the uninitialised \<^verbatim>\<open>mode\<close> holds. The first component tells whether the usage was printed.
\<close>

definition run_main :: "char \<Rightarrow> string list \<Rightarrow> disk_error + bool \<times> action" where
  "run_main garbage argv =
     (let bad = length argv \<noteq> 5
      in if length argv < 5 then Inl BeyondArgv
         else (let short = length (argv ! 2) \<noteq> 2;
                   mode = (if short then garbage else (argv ! 2) ! 1);
                   block_size = atoi (argv ! 3);
                   block_count = atoi (argv ! 4)
               in Inr (bad \<or> short,
                       if mode = CHR ''r'' then DoRead (argv ! 1) block_size block_count
                       else if mode = CHR ''w'' then DoWrite (argv ! 1) block_size block_count
                       else DoNothing)))"

text \<open>main of \<^verbatim>\<open>run_multithreaded.c\<close>, with a fifth argument; reading does not use the block count.\<close>

definition multi_main :: "char \<Rightarrow> string list \<Rightarrow> disk_error + bool \<times> action" where
  "multi_main garbage argv =
     (let bad = length argv \<noteq> 6
      in if length argv < 6 then Inl BeyondArgv
         else (let short = length (argv ! 2) \<noteq> 2;
                   mode = (if short then garbage else (argv ! 2) ! 1);
                   block_size = atoi (argv ! 3);
                   block_count = atoi (argv ! 4);
                   num_threads = atoi (argv ! 5)
               in Inr (bad \<or> short,
                       if mode = CHR ''r'' then DoReadThreads (argv ! 1) block_size num_threads
                       else if mode = CHR ''w'' then DoWrite (argv ! 1) block_size block_count
                       else DoNothing)))"

text \<open>
  main of \<^verbatim>\<open>fast.c\<close>: whether the usage was printed, and the number printed. A file that cannot be
  opened (or the null pointer of a missing argument) makes every \<^verbatim>\<open>read\<close> fail, so 0 is printed.
\<close>

definition fast_main :: "(string \<Rightarrow> bytes option) \<Rightarrow> string list \<Rightarrow> bool \<times> u32" where
  "fast_main open_file argv =
     (length argv \<noteq> 2,
      if length argv < 2 then 0
      else (case open_file (argv ! 1) of None \<Rightarrow> 0 | Some file \<Rightarrow> disk_read_fast file))"

end
