(* ===== verification/Disk_Props.thy ===== *)
theory Disk_Props
  imports DiskIO
begin

text \<open>
  Properties of the disk programs: the block-wise and the multithreaded readers compute the
  exclusive or of all integers of the file, and what writing leaves in the file.
\<close>

section \<open>The reference\<close>

text \<open>The exclusive or of a list of integers, and of all integers of a file.\<close>

definition xor_all :: "u32 list \<Rightarrow> u32" where
  "xor_all ws = foldr (XOR) ws 0"

definition file_xor :: "bytes \<Rightarrow> u32" where
  "file_xor b = xor_all (words_of b)"

lemma xor_all_Cons [simp]: "xor_all (w # ws) = w XOR xor_all ws"
  by (simp add: xor_all_def)

lemma xor_all_Nil [simp]: "xor_all [] = 0"
  by (simp add: xor_all_def)

lemma xor_all_append: "xor_all (vs @ ws) = xor_all vs XOR xor_all ws"
  by (induction vs) (simp_all add: xor.assoc)

lemma file_xor_Nil [simp]: "file_xor [] = 0"
  by (simp add: file_xor_def)

lemma length_words_of: "length (words_of b) = length b div 4"
  by (induction b rule: words_of.induct) auto

lemma words_of_append: "length a mod 4 = 0 \<Longrightarrow> words_of (a @ b) = words_of a @ words_of b"
  by (induction a rule: words_of.induct) auto

lemma file_xor_append: "length a mod 4 = 0 \<Longrightarrow> file_xor (a @ b) = file_xor a XOR file_xor b"
  by (simp add: file_xor_def words_of_append xor_all_append)

lemma xor_loop_suffix: "i + k \<le> length ws \<Longrightarrow> xor_loop ws i k x = x XOR xor_all (take k (drop i ws))"
proof (induction k arbitrary: i x)
  case (Suc k)
  then have "drop i ws = ws ! i # drop (Suc i) ws" by (simp add: Cons_nth_drop_Suc)
  then show ?case using Suc by (simp add: xor.assoc)
qed simp

lemma xorbuf_block: "xorbuf (words_of blk) (length blk div 4) = file_xor blk"
  using xor_loop_suffix[of 0 "length blk div 4" "words_of blk" 0]
  by (simp add: xorbuf_def file_xor_def length_words_of)

section \<open>Sums\<close>

fun xsum :: "(nat \<Rightarrow> u32) \<Rightarrow> nat \<Rightarrow> u32" where
  "xsum f 0 = 0"
| "xsum f (Suc m) = xsum f m XOR f m"

lemma xsum_cong: "(\<And>i. i < m \<Longrightarrow> f i = g i) \<Longrightarrow> xsum f m = xsum g m"
  by (induction m) auto

lemma xsum_zero: "(\<And>i. i < m \<Longrightarrow> f i = 0) \<Longrightarrow> xsum f m = 0"
  by (induction m) auto

lemma xsum_xor: "xsum (\<lambda>i. f i XOR g i) m = xsum f m XOR xsum g m"
  by (induction m) (simp_all add: ac_simps)

lemma xsum_swap: "xsum (\<lambda>i. xsum (\<lambda>k. g i k) r) n = xsum (\<lambda>k. xsum (\<lambda>i. g i k) n) r"
  by (induction n) (simp_all add: xsum_zero xsum_xor)

lemma xsum_add: "xsum f (m + n) = xsum f m XOR xsum (\<lambda>i. f (m + i)) n"
  by (induction n) (simp_all add: xor.assoc)

lemma xsum_first: "xsum f (Suc m) = f 0 XOR xsum (\<lambda>i. f (Suc i)) m"
  using xsum_add[of f 1 m] by simp

lemma xsum_rounds: "xsum (\<lambda>k. xsum (\<lambda>i. f (n * k + i)) n) r = xsum f (n * r)"
proof (induction r)
  case (Suc r)
  have "n * Suc r = n * r + n" by simp
  then have "xsum f (n * Suc r) = xsum f (n * r) XOR xsum (\<lambda>i. f (n * r + i)) n" by (metis xsum_add)
  then show ?case using Suc by simp
qed simp

text \<open>The blocks of a file.\<close>

definition block_xor :: "bytes \<Rightarrow> nat \<Rightarrow> nat \<Rightarrow> u32" where
  "block_xor file bs k = file_xor (read_at file bs (k * bs))"

lemma block_xor_beyond: "length file \<le> k * bs \<Longrightarrow> block_xor file bs k = 0"
  by (simp add: block_xor_def read_at_def)

lemma prefix_blocks:
  assumes "bs mod 4 = 0" and "int bs \<le> MAX_RW"
  shows "file_xor (take (k * bs) fl) = xsum (block_xor fl bs) k"
proof (induction k)
  case (Suc k)
  have split: "take (Suc k * bs) fl = take (k * bs) fl @ read_at fl bs (k * bs)"
    using take_add[of "k * bs" bs fl] assms(2) by (simp add: read_at_def add.commute)
  show ?case
  proof (cases "k * bs \<le> length fl")
    case True
    then have "length (take (k * bs) fl) mod 4 = 0" using assms(1) by (simp add: mod_mult_right_eq[of k bs 4, symmetric])
    then show ?thesis using Suc unfolding split by (simp add: file_xor_append block_xor_def)
  next
    case False
    then show ?thesis using Suc block_xor_beyond[of fl k bs] unfolding split by (simp add: read_at_def)
  qed
qed simp

section \<open>The readers\<close>

lemma rest_of_file:
  assumes "n mod 4 = 0"
  shows "file_xor (drop off fl) =
    file_xor (read_at fl n off) XOR file_xor (drop (off + length (read_at fl n off)) fl)"
proof -
  let ?m = "io_size n"
  have split: "drop off fl = read_at fl n off @ drop (off + length (read_at fl n off)) fl"
  proof -
    have "drop (length (take ?m ys)) ys = drop ?m ys" for ys :: bytes by (cases "?m \<le> length ys") simp_all
    then have "ys = take ?m ys @ drop (length (take ?m ys)) ys" for ys :: bytes by (metis append_take_drop_id)
    from this[of "drop off fl"] show ?thesis by (simp only: read_at_def drop_drop add.commute)
  qed
  show ?thesis
  proof (cases "length (read_at fl n off) mod 4 = 0")
    case True
    then show ?thesis using split file_xor_append by metis
  next
    case False
    then have "length (read_at fl n off) \<noteq> ?m" using io_size_props(3)[OF assms] by auto
    then have "length fl - off < ?m" by (auto simp: read_at_def min_def split: if_splits)
    then have "drop (off + length (read_at fl n off)) fl = []" by (simp add: read_at_def)
    then show ?thesis using split by simp
  qed
qed

lemma fast_loop_xor: "0 < sz \<Longrightarrow> fast_loop fl sz off x = x XOR file_xor (drop off fl)"
proof (induction fl sz off x rule: fast_loop.induct)
  case (1 fl sz off x)
  let ?blk = "read_at fl (sz * 4) off"
  show ?case
  proof (cases "?blk = []")
    case True
    then have "drop off fl = []" using 1(2) by (simp add: read_at_def io_size_props(2))
    then show ?thesis using True by (simp add: fast_loop.simps[of fl sz off])
  next
    case False
    then have "fast_loop fl sz off x = fast_loop fl sz (off + length ?blk) (x XOR file_xor ?blk)"
      by (simp add: fast_loop.simps[of fl sz off] xorbuf_block Let_def)
    then show ?thesis
      using 1 False rest_of_file[of "sz * 4" off fl] by (simp add: xorbuf_block xor.assoc)
  qed
qed


lemma blocksize_loop_xor:
  "int (sz * 4) \<le> MAX_RW \<Longrightarrow>
   blocksize_loop fl sz bc off count x = x XOR file_xor (take ((bc - count) * (sz * 4)) (drop off fl))"
proof (induction fl sz bc off count x rule: blocksize_loop.induct)
  case (1 fl sz bc off count x)
  let ?blk = "read_at fl (sz * 4) off"
  show ?case
  proof (cases "?blk \<noteq> [] \<and> count < bc")
    case False
    then have "take ((bc - count) * (sz * 4)) (drop off fl) = []"
      by (auto simp: read_at_def io_size_props(2))
    then show ?thesis using False by (subst blocksize_loop.simps) (auto simp: Let_def)
  next
    case True
    have step: "blocksize_loop fl sz bc off count x =
        blocksize_loop fl sz bc (off + length ?blk) (count + 1) (x XOR file_xor ?blk)"
      using True by (simp add: blocksize_loop.simps[of fl sz bc off] xorbuf_block Let_def)
    have ih: "blocksize_loop fl sz bc (off + length ?blk) (count + 1) (x XOR file_xor ?blk) =
        x XOR file_xor ?blk XOR file_xor (take ((bc - (count + 1)) * (sz * 4)) (drop (off + length ?blk) fl))"
      using 1 True by (simp add: xorbuf_block xor.assoc)
    define g where "g = take ((bc - count) * (sz * 4)) (drop off fl)"
    have m: "(bc - count) * (sz * 4) = sz * 4 + (bc - (count + 1)) * (sz * 4)"
      using True by (metis Suc_diff_Suc Suc_eq_plus1 mult_Suc)
    have size: "io_size (sz * 4) = sz * 4" by (rule io_size_small[OF 1(2)])
    have blk: "read_at g (sz * 4) 0 = ?blk" by (simp add: g_def read_at_def m min_def size)
    have rest: "drop (length ?blk) g = take ((bc - (count + 1)) * (sz * 4)) (drop (off + length ?blk) fl)"
    proof (cases "length fl - off < sz * 4")
      case True
      then show ?thesis by (simp add: g_def read_at_def size)
    next
      case False
      then have "length ?blk = sz * 4" by (simp add: read_at_def size)
      then show ?thesis by (simp add: g_def m drop_take add.commute)
    qed
    have "file_xor g = file_xor ?blk XOR file_xor (take ((bc - (count + 1)) * (sz * 4)) (drop (off + length ?blk) fl))"
      using rest_of_file[of "sz * 4" 0 g] blk rest by simp
    then show ?thesis using step ih by (simp add: g_def xor.assoc)
  qed
qed

text \<open>
  A thread combines its blocks, as long as they are at most \<^verbatim>\<open>INT_MAX\<close>: offsets then stay below
  \<open>2 ^ 62\<close> and \<^verbatim>\<open>count\<close> does not wrap.
\<close>

definition blocks_ok :: "nat \<Rightarrow> nat \<Rightarrow> bool" where
  "blocks_ok n bs \<longleftrightarrow> 0 < n \<and> 0 < bs \<and> int bs \<le> MAX_RW \<and> int n * int bs \<le> INT_MAX"

lemma sint_u64: "- (2 ^ 63) \<le> v \<Longrightarrow> v < 2 ^ 63 \<Longrightarrow> sint (word_of_int v :: u64) = v"
  by (simp add: sint_sbintrunc' signed_take_bit_int_eq_self)

lemma offset_value:
  assumes "blocks_ok n bs" and "i < n" and "int c \<le> INT_MAX"
  shows "sint (next_offset \<lparr>ta_block_size = bs, ta_thread_num = i, ta_num_threads = n\<rparr> (int c)) = int ((n * c + i) * bs)"
proof -
  have "n * c + i \<le> n * Suc c" using assms(2) by simp
  then have "(n * c + i) * bs \<le> n * Suc c * bs" by (rule mult_le_mono1)
  then have "int ((n * c + i) * bs) \<le> int (n * Suc c * bs)" by (simp only: of_nat_le_iff)
  also have "\<dots> = (int n * int bs) * (int c + 1)" by (simp add: algebra_simps)
  also have "\<dots> \<le> INT_MAX * (INT_MAX + 1)" using assms by (intro mult_mono) (simp_all add: blocks_ok_def INT_MAX_def)
  finally have b: "int ((n * c + i) * bs) < 2 ^ 63" by (simp add: INT_MAX_def)
  have "next_offset \<lparr>ta_block_size = bs, ta_thread_num = i, ta_num_threads = n\<rparr> (int c) = word_of_int (int ((n * c + i) * bs))"
    by (simp add: next_offset_def)
  moreover have "sint (word_of_int (int ((n * c + i) * bs)) :: u64) = int ((n * c + i) * bs)"
    by (rule sint_u64[OF _ b]) (rule order_trans[of _ 0], simp_all)
  ultimately show ?thesis by simp
qed

lemma pread_block:
  assumes "blocks_ok n bs" and "i < n" and "int c \<le> INT_MAX"
  shows "pread fl bs (next_offset \<lparr>ta_block_size = bs, ta_thread_num = i, ta_num_threads = n\<rparr> (int c)) =
    Some (read_at fl bs ((n * c + i) * bs))"
  by (simp only: pread_def offset_value[OF assms] nat_int of_nat_less_0_iff if_False)

lemma first_offset_value:
  assumes "blocks_ok n bs" and "i < n"
  shows "first_offset \<lparr>ta_block_size = bs, ta_thread_num = i, ta_num_threads = n\<rparr> =
    next_offset \<lparr>ta_block_size = bs, ta_thread_num = i, ta_num_threads = n\<rparr> 0"
proof -
  have "int i * int bs \<le> int n * int bs" using assms(2) by (intro mult_right_mono) simp_all
  then have "int i * int bs \<le> INT_MAX" using assms(1) unfolding blocks_ok_def by linarith
  then have "swrap (int i * int bs) = int i * int bs" by (intro swrap_nonneg) simp_all
  then show ?thesis by (simp add: first_offset_def next_offset_def)
qed

lemma thread_loop_xor:
  assumes ok: "blocks_ok n bs" "i < n" and t: "t = \<lparr>ta_block_size = bs, ta_thread_num = i, ta_num_threads = n\<rparr>"
    and r: "length fl \<le> (n * r + i) * bs" "int r \<le> INT_MAX" and c: "c \<le> r"
  shows "thread_loop fl t (next_offset t (int c)) (int c) x = Some (x XOR xsum (\<lambda>k. block_xor fl bs (n * (c + k) + i)) (r - c))"
  using c
proof (induction "r - c" arbitrary: c x)
  case 0
  then have c: "c = r" by simp
  have "pread fl bs (next_offset t (int c)) = Some []"
    using r pread_block[OF ok, of c fl] by (simp add: read_at_def c t)
  then have "thread_loop fl t (next_offset t (int c)) (int c) x = Some x" by (subst thread_loop.simps) (simp add: t)
  then show ?case using c by simp
next
  case (Suc d)
  let ?blk = "read_at fl bs ((n * c + i) * bs)"
  have rd: "pread fl (ta_block_size t) (next_offset t (int c)) = Some ?blk"
    using pread_block[OF ok, of c fl] Suc(3) r(2) by (simp add: t)
  have bs: "0 < io_size bs" using ok(1) by (simp add: blocks_ok_def)
  show ?case
  proof (cases "?blk = []")
    case True
    then have len: "length fl \<le> (n * c + i) * bs" using bs by (simp add: read_at_def)
    have "block_xor fl bs (n * (c + k) + i) = 0" for k
    proof -
      have "(n * c + i) * bs \<le> (n * (c + k) + i) * bs" by (intro mult_le_mono) (simp_all add: algebra_simps)
      then show ?thesis using len by (intro block_xor_beyond) linarith
    qed
    then have "xsum (\<lambda>k. block_xor fl bs (n * (c + k) + i)) (r - c) = 0" by (intro xsum_zero)
    moreover have "thread_loop fl t (next_offset t (int c)) (int c) x = Some x"
      by (subst thread_loop.simps) (simp add: rd True)
    ultimately show ?thesis by simp
  next
    case False
    have "swrap (int c + 1) = int (c + 1)" using Suc(2) r(2) swrap_nonneg[of "int c + 1"] by simp
    then have "thread_loop fl t (next_offset t (int c)) (int c) x =
        thread_loop fl t (next_offset t (int (c + 1))) (int (c + 1)) (x XOR file_xor ?blk)"
      using False by (subst thread_loop.simps) (simp add: rd xorbuf_block)
    also have "\<dots> = Some (x XOR file_xor ?blk XOR xsum (\<lambda>k. block_xor fl bs (n * (c + 1 + k) + i)) (r - (c + 1)))"
      using Suc(1)[of "c + 1" "x XOR file_xor ?blk"] Suc(2,3) by (simp add: xor.assoc)
    also have "\<dots> = Some (x XOR xsum (\<lambda>k. block_xor fl bs (n * (c + k) + i)) (Suc (r - (c + 1))))"
      unfolding xsum_first by (simp add: block_xor_def xor.assoc)
    also have "Suc (r - (c + 1)) = r - c" using Suc(2) by simp
    finally show ?thesis .
  qed
qed

lemma join_loop_xsum:
  assumes "\<And>i. i < m \<Longrightarrow> thread_read fl \<lparr>ta_block_size = bs, ta_thread_num = i, ta_num_threads = n\<rparr> = Some (g i)"
  shows "join_loop fl bs n m = Some (xsum g m)"
  using assms by (induction m) simp_all

lemma threads_xor:
  assumes ok: "blocks_ok n bs" and "bs mod 4 = 0" and fl: "int (length fl) \<le> INT_MAX * (int n * int bs)"
  shows "join_loop fl bs n n = Some (file_xor fl)"
proof -
  define r where "r = nat INT_MAX"
  have r: "int r = INT_MAX" by (simp add: r_def INT_MAX_def)
  have "int (length fl) \<le> int (n * r * bs)" using fl by (simp add: r algebra_simps)
  then have all: "length fl \<le> n * r * bs" by (simp only: of_nat_le_iff)
  have big: "length fl \<le> (n * r + i) * bs" for i
    by (rule le_trans[OF all]) (simp add: mult_le_mono1)
  have "thread_read fl \<lparr>ta_block_size = bs, ta_thread_num = i, ta_num_threads = n\<rparr> =
      Some (xsum (\<lambda>k. block_xor fl bs (n * k + i)) r)" if "i < n" for i
    using thread_loop_xor[OF ok that refl big, of 0 0] first_offset_value[OF ok that] r by (simp add: thread_read_def)
  then have "join_loop fl bs n n = Some (xsum (\<lambda>i. xsum (\<lambda>k. block_xor fl bs (n * k + i)) r) n)" by (rule join_loop_xsum)
  also have "xsum (\<lambda>i. xsum (\<lambda>k. block_xor fl bs (n * k + i)) r) n = xsum (block_xor fl bs) (n * r)"
    by (subst xsum_swap) (rule xsum_rounds)
  also have "\<dots> = file_xor (take (n * r * bs) fl)" using ok by (simp add: prefix_blocks[OF assms(2)] blocks_ok_def)
  also have "take (n * r * bs) fl = fl" using all by simp
  finally show ?thesis .
qed


section \<open>The readers without a result\<close>

text \<open>\<^verbatim>\<open>run.c\<close> makes one \<^verbatim>\<open>read\<close> per block, the last one possibly short.\<close>

lemma blocks_step:
  fixes b n :: nat
  assumes "0 < b" and "0 < n"
  shows "Suc ((n - min b n + b - 1) div b) = (n + b - 1) div b"
proof -
  have e: "n + b - 1 = (n - 1) + b" using assms by simp
  have "(n + b - 1) div b = Suc ((n - 1) div b)" unfolding e using assms(1) div_add_self2[of b "n - 1"] by (simp only: Suc_eq_plus1)
  moreover have "(n - min b n + b - 1) div b = (n - 1) div b"
  proof (cases "b \<le> n")
    case True
    then show ?thesis using assms by simp
  next
    case False
    then have "(n - 1) div b = 0" "(b - 1) div b = 0" using assms by auto
    with False show ?thesis by simp
  qed
  ultimately show ?thesis by simp
qed

lemma plain_loop_blocks:
  "0 < b \<Longrightarrow> int b \<le> MAX_RW \<Longrightarrow> plain_loop fl b off = (length fl - off + b - 1) div b"
proof (induction fl b off rule: plain_loop.induct)
  case (1 fl b off)
  let ?n = "length fl - off"
  have l: "length (read_at fl b off) = min b ?n" using 1(3) by (simp add: read_at_def)
  show ?case
  proof (cases "0 < length (read_at fl b off)")
    case True
    then have pos: "0 < ?n" using l by auto
    have "plain_loop fl b off = Suc (plain_loop fl b (off + length (read_at fl b off)))"
      using True by (subst plain_loop.simps) (simp only: Let_def if_True)
    also have "\<dots> = Suc ((?n - min b ?n + b - 1) div b)"
      using 1(1)[OF refl True 1(2,3)] by (simp only: l diff_diff_left)
    also have "\<dots> = (?n + b - 1) div b" using 1(2) pos by (rule blocks_step)
    finally show ?thesis .
  next
    case False
    then have "?n = 0" using l 1(2) by auto
    then show ?thesis using False 1(2) by (subst plain_loop.simps) (simp add: read_at_def)
  qed
qed

text \<open>
  \<^verbatim>\<open>part_4_lseek_run.c\<close> ends at the offset the arguments ask for, as long as their product is an \<^verbatim>\<open>int\<close>.
\<close>

lemma lseek_loop_rounds:
  assumes "0 < bs" and "int bc * bs \<le> INT_MAX" and "k \<le> bc"
  shows "lseek_loop bs (int bc) (int (bc - k) * bs) (int (bc - k) * bs) = Some (int bc * bs)"
  using assms(3)
proof (induction k)
  case 0
  have "swrap (int bc * bs) = int bc * bs" using assms by (intro swrap_nonneg) simp_all
  then show ?case by (subst lseek_loop.simps) simp
next
  case (Suc k)
  have lt: "int (bc - Suc k) * bs < int bc * bs" using Suc(2) assms(1) by (intro mult_strict_right_mono) auto
  have next_eq: "int (bc - Suc k) * bs + bs = int (bc - k) * bs"
    using Suc(2) by (simp add: of_nat_diff algebra_simps)
  have le: "int (bc - k) * bs \<le> int bc * bs" using assms(1) by (intro mult_right_mono) auto
  have sw: "swrap (int bc * bs) = int bc * bs" "swrap (int (bc - k) * bs) = int (bc - k) * bs"
    using assms le order_trans[OF le assms(2)] by (auto intro!: swrap_nonneg)
  have "lseek_loop bs (int bc) (int (bc - k) * bs) (int (bc - k) * bs) = Some (int bc * bs)" using Suc by simp
  then show ?case by (subst lseek_loop.simps) (simp only: sw next_eq lt if_True)
qed

lemma lseek_loop_end:
  assumes "0 < bs" and "int bc * bs \<le> INT_MAX"
  shows "lseek_loop bs (int bc) 0 0 = Some (int bc * bs)"
  using lseek_loop_rounds[OF assms, of bc] by simp

text \<open>The command lines of the documentation select what it says.\<close>

lemma run_main_documented:
  "run_main g [p, f, ''-r'', b, c] = Inr (False, DoRead f (atoi b) (atoi c))"
  "run_main g [p, f, ''-w'', b, c] = Inr (False, DoWrite f (atoi b) (atoi c))"
  "multi_main g [p, f, ''-r'', b, c, n] = Inr (False, DoReadThreads f (atoi b) (atoi n))"
  "multi_main g [p, f, ''-w'', b, c, n] = Inr (False, DoWrite f (atoi b) (atoi c))"
  by (simp_all add: run_main_def multi_main_def)

lemma div4_small: "blocks_ok n bs \<Longrightarrow> 4 \<le> bs \<Longrightarrow> blocks_ok n (bs div 4 * 4)"
proof -
  assume ok: "blocks_ok n bs" "4 \<le> bs"
  have "int n * int (bs div 4 * 4) \<le> int n * int bs" by (intro mult_left_mono) simp_all
  then have "int n * int (bs div 4 * 4) \<le> INT_MAX" using ok(1) unfolding blocks_ok_def by linarith
  then show ?thesis using ok by (auto simp: blocks_ok_def)
qed

lemma all_readers:
  "0 < n \<Longrightarrow> 4 \<le> bs \<Longrightarrow> int bs \<le> MAX_RW \<Longrightarrow> int n * int bs \<le> INT_MAX \<Longrightarrow>
   int (length fl) \<le> INT_MAX * (int n * int (bs div 4 * 4)) \<Longrightarrow> disk_read_threads fl bs n = Some (file_xor fl)"
  "disk_read_fast fl = file_xor fl"
  "int bs \<le> MAX_RW \<Longrightarrow> disk_read_blocksize fl bs bc = file_xor (take (bc * (bs div 4 * 4)) fl)"
proof -
  show "disk_read_threads fl bs n = Some (file_xor fl)"
    if "0 < n" "4 \<le> bs" "int bs \<le> MAX_RW" "int n * int bs \<le> INT_MAX" "int (length fl) \<le> INT_MAX * (int n * int (bs div 4 * 4))"
  proof -
    have "blocks_ok n (bs div 4 * 4)" using that(1-4) by (intro div4_small) (simp_all add: blocks_ok_def)
    then show ?thesis unfolding disk_read_threads_def by (rule threads_xor) (use that(5) in simp_all)
  qed
  show "disk_read_fast fl = file_xor fl"
    using fast_loop_xor[of "4096 div 4" fl 0 0] by (simp add: disk_read_fast_def)
  show "disk_read_blocksize fl bs bc = file_xor (take (bc * (bs div 4 * 4)) fl)" if "int bs \<le> MAX_RW"
    using blocksize_loop_xor[of "bs div 4" fl bc 0 0 0] that by (simp add: disk_read_blocksize_def)
qed

text \<open>
  The interface of a reader to the programs built on it: on the files its parameters cover it
  computes the exclusive or of all integers, so it does not depend on block size or threads.
\<close>

locale xor_reader =
  fixes reads :: "'p \<Rightarrow> bytes \<Rightarrow> u32 option" and covers :: "'p \<Rightarrow> bytes \<Rightarrow> bool"
  assumes reads_xor: "covers p fl \<Longrightarrow> reads p fl = Some (file_xor fl)"
begin

lemma same_result: "covers p fl \<Longrightarrow> covers q fl \<Longrightarrow> reads p fl = reads q fl"
  by (simp add: reads_xor)

lemma split_file:
  assumes "4 dvd length a" and "covers p (a @ b)" and "covers q a" and "covers r b"
  shows "reads p (a @ b) = Some (the (reads q a) XOR the (reads r b))"
  using assms by (simp add: reads_xor file_xor_append dvd_eq_mod_eq_0)

end

interpretation fast_reader: xor_reader "\<lambda>_ :: unit. \<lambda>fl. Some (disk_read_fast fl)" "\<lambda>_ _. True"
  by unfold_locales (simp add: all_readers(2))

interpretation thread_reader: xor_reader "\<lambda>(bs, n) fl. disk_read_threads fl bs n"
  "\<lambda>(bs, n) fl. 0 < n \<and> 4 \<le> bs \<and> int bs \<le> MAX_RW \<and> int n * int bs \<le> INT_MAX \<and>
     int (length fl) \<le> INT_MAX * (int n * int (bs div 4 * 4))"
  by unfold_locales (auto intro: all_readers(1))

interpretation block_reader: xor_reader "\<lambda>(bs, bc) fl. Some (disk_read_blocksize fl bs bc)"
  "\<lambda>(bs, bc) fl. int bs \<le> MAX_RW \<and> length fl \<le> bc * (bs div 4 * 4)"
  by unfold_locales (auto simp: all_readers(3))

section \<open>Properties\<close>

text \<open>
  C37. All readers agree. \<^verbatim>\<open>fast.c\<close> computes the exclusive or of all 32-bit integers of the file (a rest of
  less than four bytes left out). So does \<^verbatim>\<open>run_multithreaded.c\<close>, and all its threads end, for a block
  size of at least four bytes that one read can deliver, if the number of threads times the
  block size is an \<^verbatim>\<open>int\<close> and the file has at most \<^verbatim>\<open>INT_MAX\<close> blocks per thread, so that neither the first
  offset nor \<^verbatim>\<open>count\<close> overflows. \<^verbatim>\<open>run_blocksize.c\<close> computes that of the first \<^verbatim>\<open>block_count\<close> blocks.
\<close>

theorem readers_agree:
  assumes "0 < n" and "4 \<le> bs" and "int bs \<le> MAX_RW" and "int n * int bs \<le> INT_MAX"
    and "int (length fl) \<le> INT_MAX * (int n * int (bs div 4 * 4))"
  shows "disk_read_threads fl bs n = Some (file_xor fl) \<and> disk_read_fast fl = file_xor fl \<and>
    disk_read_blocksize fl bs bc = file_xor (take (bc * (bs div 4 * 4)) fl)"
  using all_readers(1)[OF assms] all_readers(2,3) assms(3) by simp

definition demo_file :: bytes where
  "demo_file = [1, 0, 0, 0, 2, 0, 0, 0, 4, 0, 0, 0, 9]"

theorem readers_agree_witness:
  "disk_read_threads demo_file 4 2 = Some 7 \<and> disk_read_fast demo_file = 7 \<and> disk_read_blocksize demo_file 4 2 = 3"
proof -
  have "file_xor demo_file = 7" "file_xor (take (2 * (4 div 4 * 4)) demo_file) = 3" by code_simp+
  then show ?thesis using readers_agree[of 2 4 demo_file 2] by (simp add: INT_MAX_def MAX_RW_def demo_file_def)
qed

text \<open>
  The first offset of a thread is computed in \<^verbatim>\<open>int\<close>: when it exceeds the range, the thread reads
  nothing, whatever the file holds.
\<close>

theorem first_offset_overflow:
  assumes "INT_MAX < int (ta_thread_num t) * int (ta_block_size t)"
    and "int (ta_thread_num t) * int (ta_block_size t) < 2 ^ 32"
  shows "thread_read fl t = Some 0"
proof -
  let ?p = "int (ta_thread_num t) * int (ta_block_size t)"
  have "(?p + 2147483648) mod 4294967296 = (?p - 2147483648) mod 4294967296"
    using mod_add_self2[of "?p - 2147483648" 4294967296] by (simp add: algebra_simps)
  also have "\<dots> = ?p - 2147483648"
    using assms by (intro mod_pos_pos_trivial) (simp_all add: INT_MAX_def)
  finally have neg: "swrap ?p < 0" using assms(2) by (simp add: swrap_def)
  have "sint (first_offset t) = swrap ?p"
    using swrap_in_int[of ?p] unfolding first_offset_def in_int_def INT_MIN_def INT_MAX_def by (intro sint_u64) simp_all
  then have "pread fl (ta_block_size t) (first_offset t) = None" using neg by (simp add: pread_def)
  then show ?thesis unfolding thread_read_def by (subst thread_loop.simps) simp
qed

theorem first_offset_overflow_witness:
  "thread_read demo_file \<lparr>ta_block_size = 1073741824, ta_thread_num = 2, ta_num_threads = 3\<rparr> = Some 0"
  by (rule first_offset_overflow) (simp_all add: INT_MAX_def)

text \<open>
  After \<open>2 ^ 31\<close> blocks \<^verbatim>\<open>count\<close> wraps to a negative number, the offset computed from it is negative too,
  and the thread ends without having read the rest of the file.
\<close>

lemma count_wraps:
  assumes "blocks_ok n bs" and "i < n"
  shows "pread fl bs (next_offset \<lparr>ta_block_size = bs, ta_thread_num = i, ta_num_threads = n\<rparr> (swrap (INT_MAX + 1))) = None"
proof -
  let ?v = "(int i - int n * 2147483648) * int bs"
  have w: "swrap (INT_MAX + 1) = - 2147483648" by (simp add: swrap_def INT_MAX_def)
  let ?u = "(int n * 2147483648 - int i) * int bs"
  have "0 < int n * 2147483648 - int i" "int n * 2147483648 - int i \<le> int n * 2147483648" using assms(2) by simp_all
  then have "0 < ?u" "?u \<le> int n * 2147483648 * int bs" using assms(1) by (simp_all add: blocks_ok_def mult_right_mono)
  moreover have "int n * 2147483648 * int bs = 2147483648 * (int n * int bs)" by simp
  ultimately have "0 < ?u" "?u \<le> 9223372036854775808" using assms(1) unfolding blocks_ok_def INT_MAX_def by linarith+
  moreover have "?v = - ?u" by (simp add: algebra_simps)
  ultimately have v: "?v < 0" "- (2 ^ 63) \<le> ?v" by simp_all
  have "next_offset \<lparr>ta_block_size = bs, ta_thread_num = i, ta_num_threads = n\<rparr> (swrap (INT_MAX + 1)) = word_of_int ?v"
    unfolding w by (simp add: next_offset_def algebra_simps)
  moreover have "sint (word_of_int ?v :: u64) = ?v" by (rule sint_u64[OF v(2)]) (use v(1) in simp)
  ultimately show ?thesis using v(1) by (simp add: pread_def)
qed

lemma write_at_prefix:
  "write_at (replicate off c @ drop off fl) off (replicate b c) = replicate (off + b) c @ drop (off + b) fl"
  by (simp add: write_at_def replicate_add) (simp add: add.commute)

lemma write_loop_prefix:
  "write_loop (replicate off 116 @ drop off fl) b off k = replicate (off + io_size b * k) 116 @ drop (off + io_size b * k) fl"
proof (induction k arbitrary: off)
  case (Suc k)
  then show ?case using write_at_prefix[of off 116 fl "io_size b"] Suc[of "off + io_size b"] by (simp add: algebra_simps)
qed simp

text \<open>
  \<^verbatim>\<open>disk_write\<close> leaves \<^verbatim>\<open>block_size * block_count\<close> times the letter t at the beginning of the file and,
  because the file is not truncated, whatever an older and longer file held behind it;
  the size is the product only for a new or shorter file.
\<close>

theorem disk_write_result:
  "int bs \<le> MAX_RW \<Longrightarrow> disk_write fl bs bc = replicate (bs * bc) 116 @ drop (bs * bc) fl \<and>
   length (disk_write fl bs bc) = max (bs * bc) (length fl)"
  using write_loop_prefix[of 0 fl bs bc] by (auto simp: disk_write_def)

end
