(* ===== verification/Disk_Main.thy ===== *)
theory Disk_Main
  imports Disk_Props
begin

text \<open>
  The disk programs of \<^verbatim>\<open>src/final_project\<close> from the command line to the files they leave and what
  they compute, run one after the other on a file system. Files have a mode, because the
  programs create theirs with the decimal number 777; the caller owns the files and is
  not the superuser.
\<close>

unbundle bit_operations_syntax

section \<open>Files with a mode\<close>

record dfile =
  d_mode :: int
  d_data :: bytes

type_synonym fsys = "string \<Rightarrow> dfile option"

text \<open>The mask of the process, and the names it may create.\<close>

record denv =
  d_umask :: int
  d_create :: "string \<Rightarrow> bool"

text \<open>\<^verbatim>\<open>open(filename, O_RDONLY)\<close> needs the owner's read permission; a failed \<^verbatim>\<open>open\<close> reads as an empty file.\<close>

definition open_read :: "fsys \<Rightarrow> string \<Rightarrow> bytes option" where
  "open_read fs f = (case fs f of None \<Rightarrow> None | Some d \<Rightarrow> if bit (d_mode d) 8 then Some (d_data d) else None)"

definition readable :: "fsys \<Rightarrow> string \<Rightarrow> bytes" where
  "readable fs f = (case open_read fs f of None \<Rightarrow> [] | Some b \<Rightarrow> b)"

text \<open>\<^verbatim>\<open>open(filename, O_WRONLY|O_CREAT, 777)\<close>: write permission is needed only if the file exists.\<close>

definition open_write :: "denv \<Rightarrow> fsys \<Rightarrow> string \<Rightarrow> dfile option" where
  "open_write D fs f =
     (case fs f of
        Some d \<Rightarrow> if bit (d_mode d) 7 then Some d else None
      | None \<Rightarrow> if d_create D f then Some \<lparr>d_mode = 777 AND NOT (d_umask D), d_data = []\<rparr> else None)"

text \<open>\<^verbatim>\<open>disk_write\<close> with its \<^verbatim>\<open>open\<close>; writes to a descriptor of -1 fail and are not noticed.\<close>

definition write_file :: "denv \<Rightarrow> fsys \<Rightarrow> string \<Rightarrow> int \<Rightarrow> int \<Rightarrow> fsys" where
  "write_file D fs f bs bc =
     (case open_write D fs f of
        None \<Rightarrow> fs
      | Some d \<Rightarrow> fs(f \<mapsto> d\<lparr>d_data := disk_write (d_data d) (nat bs) (nat bc)\<rparr>))"

section \<open>The programs\<close>

text \<open>
  What a program does besides changing files: nothing, print the exclusive or, compute it
  without printing it, read a number of blocks, or move to an offset (\<^verbatim>\<open>lseek\<close> on a descriptor of -1
  moves nothing). An array of a
  size that is not positive is an error, as is a negative block size for \<^verbatim>\<open>pread\<close>.
\<close>

datatype effect = Silent | Prints u32 | Computes u32 | ReadsBlocks nat | SeeksTo int

type_synonym result = "disk_error + bool \<times> effect \<times> fsys"

definition run_prog :: "denv \<Rightarrow> char \<Rightarrow> fsys \<Rightarrow> string list \<Rightarrow> result" where
  "run_prog D garbage fs argv =
     (case run_main garbage argv of
        Inl e \<Rightarrow> Inl e
      | Inr (usage, act) \<Rightarrow>
          (case act of
             DoRead f bs bc \<Rightarrow>
               if bs \<le> 0 then Inl BadSize else Inr (usage, ReadsBlocks (plain_loop (readable fs f) (nat bs) 0), fs)
           | DoWrite f bs bc \<Rightarrow> if bs \<le> 0 then Inl BadSize else Inr (usage, Silent, write_file D fs f bs bc)
           | _ \<Rightarrow> Inr (usage, Silent, fs)))"

definition blocksize_prog :: "denv \<Rightarrow> char \<Rightarrow> fsys \<Rightarrow> string list \<Rightarrow> result" where
  "blocksize_prog D garbage fs argv =
     (case run_main garbage argv of
        Inl e \<Rightarrow> Inl e
      | Inr (usage, act) \<Rightarrow>
          (case act of
             DoRead f bs bc \<Rightarrow>
               if bs < 4 then Inl BadSize
               else Inr (usage, Prints (disk_read_blocksize (readable fs f) (nat bs) (nat bc)), fs)
           | DoWrite f bs bc \<Rightarrow> if bs \<le> 0 then Inl BadSize else Inr (usage, Silent, write_file D fs f bs bc)
           | _ \<Rightarrow> Inr (usage, Silent, fs)))"

definition lseek_prog :: "denv \<Rightarrow> char \<Rightarrow> fsys \<Rightarrow> string list \<Rightarrow> result" where
  "lseek_prog D garbage fs argv =
     (case run_main garbage argv of
        Inl e \<Rightarrow> Inl e
      | Inr (usage, act) \<Rightarrow>
          (case act of
             DoRead f bs bc \<Rightarrow>
               if bs \<le> 0 then Inl BadSize
               else (case lseek_loop bs bc 0 0 of
                       None \<Rightarrow> Inl Diverged
                     | Some off \<Rightarrow> Inr (usage, if open_read fs f = None then Silent else SeeksTo off, fs))
           | DoWrite f bs bc \<Rightarrow> if bs \<le> 0 then Inl BadSize else Inr (usage, Silent, write_file D fs f bs bc)
           | _ \<Rightarrow> Inr (usage, Silent, fs)))"

definition multi_prog :: "denv \<Rightarrow> char \<Rightarrow> fsys \<Rightarrow> string list \<Rightarrow> result" where
  "multi_prog D garbage fs argv =
     (case multi_main garbage argv of
        Inl e \<Rightarrow> Inl e
      | Inr (usage, act) \<Rightarrow>
          (case act of
             DoReadThreads f bs n \<Rightarrow>
               if bs < 0 \<or> n \<le> 0 then Inl BadSize
               else (case disk_read_threads (readable fs f) (nat bs) (nat n) of
                       None \<Rightarrow> Inl Diverged
                     | Some x \<Rightarrow> Inr (usage, Computes x, fs))
           | DoWrite f bs bc \<Rightarrow> if bs \<le> 0 then Inl BadSize else Inr (usage, Silent, write_file D fs f bs bc)
           | _ \<Rightarrow> Inr (usage, Silent, fs)))"

definition fast_prog :: "fsys \<Rightarrow> string list \<Rightarrow> bool \<times> effect" where
  "fast_prog fs argv = (case fast_main (open_read fs) argv of (usage, x) \<Rightarrow> (usage, Prints x))"

section \<open>Writing, then reading\<close>

lemma created_mode [simp]: "bit (777 :: int) 8" "\<not> bit (777 :: int) 7"
  by (simp_all add: bit_simps bit_numeral_rec)

text \<open>The exclusive or of a file that holds only the letter t.\<close>

definition t_xor :: "nat \<Rightarrow> u32" where
  "t_xor m = (if even (m div 4) then 0 else 0x74747474)"

lemma file_xor_quads: "file_xor (replicate (4 * q) 116) = (if even q then 0 else 0x74747474)"
proof (induction q)
  case (Suc q)
  have one: "file_xor (replicate 4 116) = 0x74747474" by code_simp
  have "replicate (4 * Suc q) (116 :: u8) = replicate 4 116 @ replicate (4 * q) 116"
    using replicate_add[of 4 "4 * q" "116 :: u8"] by simp
  then have "file_xor (replicate (4 * Suc q) 116) = file_xor (replicate 4 116) XOR file_xor (replicate (4 * q) 116)"
    by (simp add: file_xor_append del: mult_Suc_right)
  then show ?case using Suc one by simp
qed simp

lemma file_xor_t: "file_xor (replicate m 116) = t_xor m"
proof -
  have "length (words_of (replicate (m mod 4) 116)) = 0" by (simp add: length_words_of)
  then have rest: "file_xor (replicate (m mod 4) 116) = 0" by (simp add: file_xor_def)
  have "replicate m (116 :: u8) = replicate (4 * (m div 4)) 116 @ replicate (m mod 4) 116"
    using replicate_add[of "4 * (m div 4)" "m mod 4" "116 :: u8"] by simp
  then have "file_xor (replicate m 116) = file_xor (replicate (4 * (m div 4)) 116) XOR file_xor (replicate (m mod 4) 116)"
    by (simp add: file_xor_append)
  then show ?thesis by (simp add: rest file_xor_quads t_xor_def)
qed

lemma write_file_new:
  assumes "fs f = None" and "d_create D f"
  shows "write_file D fs f bs bc =
    fs(f \<mapsto> \<lparr>d_mode = 777 AND NOT (d_umask D), d_data = replicate (io_size (nat bs) * nat bc) 116\<rparr>)"
  using assms write_loop_prefix[of 0 "[]" "nat bs" "nat bc"]
  by (simp add: write_file_def open_write_def disk_write_def)

context xor_reader
begin

lemma reads_t: "covers p (replicate m 116) \<Longrightarrow> reads p (replicate m 116) = Some (t_xor m)"
  by (simp add: reads_xor file_xor_t)

end

text \<open>
  The interface of a program that writes: run with \<^verbatim>\<open>-w\<close> on a file, a block size and a count it does
  what \<^verbatim>\<open>disk_write\<close> does and nothing else.
\<close>

type_synonym writer = "denv \<Rightarrow> char \<Rightarrow> fsys \<Rightarrow> string \<Rightarrow> string \<Rightarrow> string \<Rightarrow> result"

locale disk_writer =
  fixes wr :: writer
  assumes writes: "0 < atoi b \<Longrightarrow> wr D g fs f b c = Inr (False, Silent, write_file D fs f (atoi b) (atoi c))"
begin

lemma creates:
  assumes "fs f = None" and "d_create D f" and "\<not> bit (d_umask D) 8" and "0 < atoi b" and "atoi b \<le> MAX_RW"
  shows "\<exists>fs'. wr D g fs f b c = Inr (False, Silent, fs') \<and> open_read fs' f = Some (replicate (nat (atoi b) * nat (atoi c)) 116)"
  using assms(3-5) write_file_new[of fs f D, OF assms(1,2), of "atoi b" "atoi c"]
  by (simp add: writes open_read_def bit_and_iff bit_not_iff)

text \<open>A file created with the decimal mode cannot be opened for writing again.\<close>

lemma ignored:
  assumes "fs f = None" and "d_create D f" and "0 < atoi b"
  shows "wr D g (write_file D fs f bs bc) f b c = Inr (False, Silent, write_file D fs f bs bc)"
proof -
  have "open_write D (write_file D fs f bs bc) f = None"
    by (simp add: write_file_new[of fs f D, OF assms(1,2)] open_write_def bit_and_iff)
  then have "write_file D (write_file D fs f bs bc) f (atoi b) (atoi c) = write_file D fs f bs bc"
    by (simp add: write_file_def[of D "write_file D fs f bs bc"])
  then show ?thesis using assms(3) by (simp add: writes)
qed

end

interpretation run_writer: disk_writer "\<lambda>D g fs f b c. run_prog D g fs [p, f, ''-w'', b, c]" for p
  by unfold_locales (simp add: run_prog_def run_main_documented)

interpretation blocksize_writer: disk_writer "\<lambda>D g fs f b c. blocksize_prog D g fs [p, f, ''-w'', b, c]" for p
  by unfold_locales (simp add: blocksize_prog_def run_main_documented)

interpretation lseek_writer: disk_writer "\<lambda>D g fs f b c. lseek_prog D g fs [p, f, ''-w'', b, c]" for p
  by unfold_locales (simp add: lseek_prog_def run_main_documented)

interpretation multi_writer: disk_writer "\<lambda>D g fs f b c. multi_prog D g fs [p, f, ''-w'', b, c, n]" for p n
  by unfold_locales (simp add: multi_prog_def run_main_documented)

text \<open>The four programs that write, under the name \<open>p\<close>, the last one with a number of threads.\<close>

definition writers :: "string \<Rightarrow> string \<Rightarrow> writer list" where
  "writers p n =
     [\<lambda>D g fs f b c. run_prog D g fs [p, f, ''-w'', b, c], \<lambda>D g fs f b c. blocksize_prog D g fs [p, f, ''-w'', b, c],
      \<lambda>D g fs f b c. lseek_prog D g fs [p, f, ''-w'', b, c], \<lambda>D g fs f b c. multi_prog D g fs [p, f, ''-w'', b, c, n]]"

lemma writers_contract: "w \<in> set (writers p n) \<Longrightarrow> disk_writer w"
  using run_writer.disk_writer_axioms[of p] blocksize_writer.disk_writer_axioms[of p]
    lseek_writer.disk_writer_axioms[of p] multi_writer.disk_writer_axioms[of p n]
  by (auto simp: writers_def)

lemma product_fits:
  assumes "m \<le> nat (atoi c) * k" and "0 < n"
  shows "int m \<le> INT_MAX * (int n * int k)"
proof -
  have "int (nat (atoi c)) \<le> INT_MAX" using in_int_atoi[of c] by (auto simp: in_int_def INT_MAX_def)
  then have "int (nat (atoi c)) * int k \<le> INT_MAX * int k" by (intro mult_right_mono) simp_all
  also have "\<dots> \<le> INT_MAX * (int n * int k)"
    using assms(2) mult_right_mono[of 1 "int n" "int k"] by (intro mult_left_mono) (simp_all add: INT_MAX_def)
  finally have "int (nat (atoi c) * k) \<le> INT_MAX * (int n * int k)" by simp
  moreover have "int m \<le> int (nat (atoi c) * k)" using assms(1) by (simp only: of_nat_le_iff)
  ultimately show ?thesis by (rule order_trans[rotated])
qed

text \<open>
  C38. Writing and reading back, with arguments converted to \<^verbatim>\<open>int\<close> by \<^verbatim>\<open>atoi\<close>: the file that any of the four programs
  creates with \<^verbatim>\<open>-w\<close>, a positive block size and a count has as many bytes as the product of the two numbers and holds
  the letter t throughout; and \<^verbatim>\<open>fast\<close>, \<^verbatim>\<open>run_multithreaded -r\<close> with a number of threads that times the block size
  is an \<^verbatim>\<open>int\<close>, and \<^verbatim>\<open>run_blocksize -r\<close> with a count that reaches the end of the file all compute its exclusive or.
  Block sizes are ones that a single system call can transfer.
\<close>

theorem write_then_read:
  assumes "w \<in> set (writers p k)" and "fs f = None" and "d_create D f" and "\<not> bit (d_umask D) 8"
    and "0 < atoi b" and "atoi b \<le> MAX_RW" and "4 \<le> atoi b'" and "atoi b' \<le> MAX_RW"
    and "0 < atoi n" and "atoi n * atoi b' \<le> INT_MAX"
    and "nat (atoi b) * nat (atoi c) \<le> nat (atoi c') * (nat (atoi b') div 4 * 4)"
  shows "\<exists>fs'. w D g fs f b c = Inr (False, Silent, fs') \<and>
    open_read fs' f = Some (replicate (nat (atoi b) * nat (atoi c)) 116) \<and>
    fast_prog fs' [p, f] = (False, Prints (t_xor (nat (atoi b) * nat (atoi c)))) \<and>
    multi_prog D g fs' [p, f, ''-r'', b', c', n] = Inr (False, Computes (t_xor (nat (atoi b) * nat (atoi c))), fs') \<and>
    blocksize_prog D g fs' [p, f, ''-r'', b', c'] = Inr (False, Prints (t_xor (nat (atoi b) * nat (atoi c))), fs')"
proof -
  let ?m = "nat (atoi b) * nat (atoi c)"
  from disk_writer.creates[OF writers_contract[OF assms(1)], of fs f D b g c, OF assms(2-6)] obtain fs' where
    fs': "w D g fs f b c = Inr (False, Silent, fs')" "open_read fs' f = Some (replicate ?m 116)" by blast
  have "int ?m \<le> INT_MAX * (int (nat (atoi n)) * int (nat (atoi b') div 4 * 4))"
    by (rule product_fits[OF assms(11)]) (use assms(9) in simp)
  then have threads: "disk_read_threads (replicate ?m 116) (nat (atoi b')) (nat (atoi n)) = Some (t_xor ?m)"
    using assms(7-10) thread_reader.reads_t[of "(nat (atoi b'), nat (atoi n))" ?m] by simp
  have "fast_prog fs' [p, f] = (False, Prints (t_xor ?m))"
    using fast_reader.reads_t by (simp add: fast_prog_def fast_main_def fs')
  moreover have "multi_prog D g fs' [p, f, ''-r'', b', c', n] = Inr (False, Computes (t_xor ?m), fs')"
    using assms(7,9) threads by (simp add: multi_prog_def run_main_documented readable_def fs')
  moreover have "blocksize_prog D g fs' [p, f, ''-r'', b', c'] = Inr (False, Prints (t_xor ?m), fs')"
    using assms(7,8,11) block_reader.reads_t[of "(nat (atoi b'), nat (atoi c'))" ?m]
    by (simp add: blocksize_prog_def run_main_documented readable_def fs')
  ultimately show ?thesis using fs' by blast
qed

definition demo_denv :: denv where
  "demo_denv = \<lparr>d_umask = 18, d_create = (\<lambda>_. True)\<rparr>"

theorem write_then_read_witness:
  "\<exists>fs'. run_prog demo_denv NUL (\<lambda>_. None) [''run'', ''f'', ''-w'', ''6'', ''2''] = Inr (False, Silent, fs') \<and>
     fast_prog fs' [''run'', ''f''] = (False, Prints 0x74747474)"
proof -
  let ?w = "\<lambda>D g fs f b c. run_prog D g fs [''run'', f, ''-w'', b, c]"
  have a: "atoi ''6'' = 6" "atoi ''2'' = 2" "atoi ''4'' = 4" "atoi ''3'' = 3" "t_xor 12 = 0x74747474" by code_simp+
  have w: "?w \<in> set (writers ''run'' ''1'')" by (simp add: writers_def)
  have "\<not> bit (d_umask demo_denv) 8" by code_simp
  then show ?thesis
    using write_then_read[OF w, of "\<lambda>_. None" "''f''" demo_denv "''6''" "''4''" "''2''" "''2''" "''3''" NUL]
    by (auto simp: a demo_denv_def INT_MAX_def MAX_RW_def)
qed

text \<open>
  C39. The files are created with mode 777 in decimal, which gives their owner the permission to read but
  not to write: after any of the four programs created a file, any of them run with \<^verbatim>\<open>-w\<close> on it
  ends as if all was well and changes nothing.
\<close>

theorem second_write_ignored:
  assumes "w \<in> set (writers p k)" and "w' \<in> set (writers p' k')" and "fs f = None" and "d_create D f"
    and "0 < atoi b" and "0 < atoi b'" and "w D g fs f b c = Inr (u, e, fs')"
  shows "w' D g' fs' f b' c' = Inr (False, Silent, fs')"
proof -
  have "fs' = write_file D fs f (atoi b) (atoi c)"
    using disk_writer.writes[OF writers_contract[OF assms(1)] assms(5), of D g fs f c] assms(7) by simp
  then show ?thesis using disk_writer.ignored[OF writers_contract[OF assms(2)]] assms(3,4,6) by simp
qed

theorem second_write_ignored_witness:
  "\<exists>fs'. run_prog demo_denv NUL (\<lambda>_. None) [''run'', ''f'', ''-w'', ''6'', ''2''] = Inr (False, Silent, fs') \<and>
     multi_prog demo_denv NUL fs' [''multi'', ''f'', ''-w'', ''4'', ''3'', ''1''] = Inr (False, Silent, fs')"
proof -
  have a: "atoi ''6'' = 6" "atoi ''4'' = 4" by code_simp+
  let ?w = "\<lambda>D g fs f b c. run_prog D g fs [''run'', f, ''-w'', b, c]"
  let ?v = "\<lambda>D g fs f b c. multi_prog D g fs [''multi'', f, ''-w'', b, c, ''1'']"
  let ?fs = "write_file demo_denv (\<lambda>_. None) ''f'' (atoi ''6'') (atoi ''2'')"
  have w: "?w \<in> set (writers ''run'' ''1'')" "?v \<in> set (writers ''multi'' ''1'')" by (simp_all add: writers_def)
  have r: "run_prog demo_denv NUL (\<lambda>_. None) [''run'', ''f'', ''-w'', ''6'', ''2''] = Inr (False, Silent, ?fs)"
    by (simp add: run_writer.writes a)
  have "multi_prog demo_denv NUL ?fs [''multi'', ''f'', ''-w'', ''4'', ''3'', ''1''] = Inr (False, Silent, ?fs)"
    by (rule second_write_ignored[OF w _ _ _ _ r]) (simp_all add: a demo_denv_def)
  then show ?thesis using r by blast
qed

end
