(* ===== verification/Disk_Bench.thy ===== *)
theory Disk_Bench
  imports Disk_Main
begin

text \<open>
  The benchmark of \<^verbatim>\<open>src/final_project/benchmark_extra_cred.cpp\<close>: its \<^verbatim>\<open>disk_read\<close> and \<^verbatim>\<open>disk_write\<close> run in one
  process, as many times as the benchmark library asks for, and never close the
  descriptors they open. What every iteration transfers is computed.
\<close>

section \<open>The program\<close>

text \<open>The process that runs the benchmarks: the files, and how many descriptors it has open.\<close>

record bench =
  b_files :: fsys
  b_open :: nat

text \<open>
  \<^verbatim>\<open>disk_write\<close> and \<^verbatim>\<open>disk_read\<close> with the limit on open descriptors: the number of bytes written, or of
  blocks read. When \<^verbatim>\<open>open\<close> fails, every \<^verbatim>\<open>write\<close> and \<^verbatim>\<open>read\<close> on the descriptor -1 fails too.
\<close>

definition bench_write :: "denv \<Rightarrow> nat \<Rightarrow> string \<Rightarrow> nat \<Rightarrow> nat \<Rightarrow> bench \<Rightarrow> nat \<times> bench" where
  "bench_write D lim filename block_size block_count b =
     (if lim \<le> b_open b then (0, b)
      else (case open_write D (b_files b) filename of
              None \<Rightarrow> (0, b)
            | Some d \<Rightarrow>
                (io_size block_size * block_count,
                 b\<lparr>b_files := (b_files b)(filename \<mapsto> d\<lparr>d_data := disk_write (d_data d) block_size block_count\<rparr>),
                   b_open := b_open b + 1\<rparr>)))"

definition bench_read :: "nat \<Rightarrow> string \<Rightarrow> nat \<Rightarrow> bench \<Rightarrow> nat \<times> bench" where
  "bench_read lim filename block_size b =
     (if lim \<le> b_open b then (0, b)
      else (case open_read (b_files b) filename of
              None \<Rightarrow> (0, b)
            | Some data \<Rightarrow> (plain_loop data block_size 0, b\<lparr>b_open := b_open b + 1\<rparr>)))"

text \<open>The loop \<^verbatim>\<open>for (auto _ : state)\<close>: the library decides how many iterations a run has.\<close>

fun iterations :: "(bench \<Rightarrow> nat \<times> bench) \<Rightarrow> nat \<Rightarrow> bench \<Rightarrow> nat list \<times> bench" where
  "iterations body 0 b = ([], b)"
| "iterations body (Suc n) b =
     (case body b of (x, b1) \<Rightarrow> (case iterations body n b1 of (xs, b2) \<Rightarrow> (x # xs, b2)))"

definition bench_name :: string where
  "bench_name = ''benchmarktest.txt''"

definition BM_Write :: "denv \<Rightarrow> nat \<Rightarrow> nat \<Rightarrow> bench \<Rightarrow> nat list \<times> bench" where
  "BM_Write D lim = iterations (bench_write D lim bench_name 512 1953125)"

definition BM_Read :: "nat \<Rightarrow> nat \<Rightarrow> bench \<Rightarrow> nat list \<times> bench" where
  "BM_Read lim = iterations (bench_read lim bench_name 512)"

text \<open>
  \<^verbatim>\<open>BENCHMARK_MAIN\<close>: the registered functions in order, each in the runs the library chooses.
\<close>

fun bench_runs :: "(nat \<Rightarrow> bench \<Rightarrow> nat list \<times> bench) \<Rightarrow> nat list \<Rightarrow> bench \<Rightarrow> nat list \<times> bench" where
  "bench_runs f [] b = ([], b)"
| "bench_runs f (n # ns) b =
     (case f n b of (xs, b1) \<Rightarrow> (case bench_runs f ns b1 of (ys, b2) \<Rightarrow> (xs @ ys, b2)))"

definition benchmark_main :: "denv \<Rightarrow> nat \<Rightarrow> nat list \<Rightarrow> nat list \<Rightarrow> bench \<Rightarrow> nat list \<times> nat list \<times> bench" where
  "benchmark_main D lim ws rs b =
     (case bench_runs (BM_Write D lim) ws b of
        (xs, b1) \<Rightarrow> (case bench_runs (BM_Read lim) rs b1 of (ys, b2) \<Rightarrow> (xs, ys, b2)))"

section \<open>What the iterations transfer\<close>

lemma iterations_add:
  "iterations body (m + n) b =
     (case iterations body m b of (xs, b1) \<Rightarrow> (case iterations body n b1 of (ys, b2) \<Rightarrow> (xs @ ys, b2)))"
  by (induction m arbitrary: b) (simp_all split: prod.splits)

lemma bench_runs_iterations: "bench_runs (iterations body) ns b = iterations body (sum_list ns) b"
  by (induction ns arbitrary: b) (simp_all add: iterations_add)

text \<open>An iteration that fails is repeated without effect.\<close>

lemma iterations_stuck: "body b = (0, b) \<Longrightarrow> iterations body n b = (replicate n 0, b)"
  by (induction n) simp_all

lemma write_first:
  assumes "b_files b f = None" and "d_create D f" and "b_open b < lim" and "int bs \<le> MAX_RW"
  shows "bench_write D lim f bs bc b = (bs * bc,
    \<lparr>b_files = (b_files b)(f \<mapsto> \<lparr>d_mode = 777 AND NOT (d_umask D), d_data = replicate (bs * bc) 116\<rparr>), b_open = b_open b + 1\<rparr>)"
  using assms write_loop_prefix[of 0 "[]" bs bc] by (simp add: bench_write_def open_write_def disk_write_def)

lemma write_again:
  assumes "b_files b f = Some \<lparr>d_mode = 777 AND m, d_data = x\<rparr>"
  shows "bench_write D lim f bs bc b = (0, b)"
  using assms by (simp add: bench_write_def open_write_def bit_and_iff)

lemma write_iterations:
  assumes "b_files b f = None" and "d_create D f" and "b_open b < lim" and "int bs \<le> MAX_RW" and "0 < n"
  shows "iterations (bench_write D lim f bs bc) n b = (bs * bc # replicate (n - 1) 0,
    \<lparr>b_files = (b_files b)(f \<mapsto> \<lparr>d_mode = 777 AND NOT (d_umask D), d_data = replicate (bs * bc) 116\<rparr>), b_open = b_open b + 1\<rparr>)"
proof -
  obtain m where n: "n = Suc m" using assms(5) by (cases n) auto
  show ?thesis unfolding n by (simp add: write_first[OF assms(1-4)] iterations_stuck write_again)
qed

text \<open>Reading works until the descriptors are used up.\<close>

lemma read_iterations:
  assumes "open_read (b_files b) f = Some x" and "b_open b \<le> lim"
  shows "iterations (bench_read lim f bs) n b =
    (replicate (min n (lim - b_open b)) (plain_loop x bs 0) @ replicate (n - (lim - b_open b)) 0,
     b\<lparr>b_open := min lim (b_open b + n)\<rparr>)"
  using assms
proof (induction n arbitrary: b)
  case 0
  then show ?case by simp
next
  case (Suc n)
  show ?case
  proof (cases "b_open b = lim")
    case True
    then have "bench_read lim f bs b = (0, b)" by (simp add: bench_read_def)
    then show ?thesis using True by (simp add: iterations_stuck del: iterations.simps(2))
  next
    case False
    let ?b = "b\<lparr>b_open := b_open b + 1\<rparr>"
    have d: "lim - b_open b = Suc (lim - b_open ?b)" "b_open ?b \<le> lim" using False Suc.prems(2) by simp_all
    have "bench_read lim f bs b = (plain_loop x bs 0, ?b)" using Suc.prems False by (simp add: bench_read_def)
    moreover have "iterations (bench_read lim f bs) n ?b =
        (replicate (min n (lim - b_open ?b)) (plain_loop x bs 0) @ replicate (n - (lim - b_open ?b)) 0,
         ?b\<lparr>b_open := min lim (b_open ?b + n)\<rparr>)"
      by (rule Suc.IH) (use Suc.prems(1) d(2) in simp_all)
    ultimately show ?thesis unfolding d(1) by simp
  qed
qed

text \<open>
  C40. What the benchmark measures, started without its file, whatever numbers of iterations the library
  chooses: only the first write iteration writes (a thousand million bytes); every later one fails to
  open the file, which was created without write permission, and writes nothing. The read
  iterations read all blocks until the descriptors, which are never closed, run out, and
  nothing from then on.
\<close>

theorem benchmark_measures:
  assumes "b_files b bench_name = None" and "d_create D bench_name" and "\<not> bit (d_umask D) 8" and "b_open b < lim"
    and "0 < sum_list ws"
  shows "\<exists>b'. benchmark_main D lim ws rs b =
    (1000000000 # replicate (sum_list ws - 1) 0,
     replicate (min (sum_list rs) (lim - b_open b - 1)) 1953125 @ replicate (sum_list rs - (lim - b_open b - 1)) 0, b')"
proof -
  let ?d = "\<lparr>d_mode = 777 AND NOT (d_umask D), d_data = replicate (512 * 1953125) 116\<rparr>"
  let ?b = "\<lparr>b_files = (b_files b)(bench_name \<mapsto> ?d), b_open = b_open b + 1\<rparr>"
  have small: "int 512 \<le> MAX_RW" by (simp add: MAX_RW_def)
  have w: "bench_runs (BM_Write D lim) ws b = (512 * 1953125 # replicate (sum_list ws - 1) 0, ?b)"
    unfolding BM_Write_def bench_runs_iterations by (rule write_iterations[OF assms(1,2,4) small assms(5)])
  have "open_read (b_files ?b) bench_name = Some (replicate (512 * 1953125) 116)"
    using assms(3) by (simp add: open_read_def bit_and_iff bit_not_iff)
  then have r: "bench_runs (BM_Read lim) rs ?b =
      (replicate (min (sum_list rs) (lim - b_open ?b)) (plain_loop (replicate (512 * 1953125) 116) 512 0) @
         replicate (sum_list rs - (lim - b_open ?b)) 0, ?b\<lparr>b_open := min lim (b_open ?b + sum_list rs)\<rparr>)"
    unfolding BM_Read_def bench_runs_iterations by (rule read_iterations) (use assms(4) in simp)
  have p: "plain_loop (replicate (512 * 1953125) 116) 512 0 = 1953125"
    unfolding plain_loop_blocks[OF _ small, simplified] length_replicate by simp
  have l: "lim - b_open ?b = lim - b_open b - 1" by simp
  show ?thesis unfolding benchmark_main_def w prod.case r p l by simp
qed

theorem benchmark_measures_witness:
  "\<exists>b'. benchmark_main demo_denv 6 [1, 3] [2, 4] \<lparr>b_files = (\<lambda>_. None), b_open = 3\<rparr> =
     ([1000000000, 0, 0, 0], [1953125, 1953125, 0, 0, 0, 0], b')"
proof -
  have u: "\<not> bit (d_umask demo_denv) 8" by code_simp
  have r: "replicate 3 y = [y, y, y]" "replicate 2 y = [y, y]" "replicate 4 y = [y, y, y, y]" for y :: nat
    by (simp_all add: numeral_eq_Suc)
  show ?thesis
    using benchmark_measures[of "\<lparr>b_files = (\<lambda>_. None), b_open = 3\<rparr>" demo_denv 6 "[1, 3]" "[2, 4]"] u
    by (simp add: demo_denv_def r)
qed

end
