(* ===== verification/Spec2Isabelle.thy ===== *)
theory Spec2Isabelle
  imports Wakeup Lottery_Wait Usys Shell_Run Hashtable_Race Uniq_Props Disk_Bench
begin

text \<open>
  The programs of the operating systems course repository: a kernel with a lottery scheduler
  (\<^verbatim>\<open>src/hw3\<close>, the changed files of xv6), a shell (\<^verbatim>\<open>src/hw2\<close>), three parallel hash tables (\<^verbatim>\<open>src/hw4\<close>),
  \<^verbatim>\<open>uniq\<close> (\<^verbatim>\<open>src/hw1\<close>) and the disk programs (\<^verbatim>\<open>src/final_project\<close>). This theory imports the
  theories of all components.

  \<^bold>\<open>Shared.\<close> \<open>OS_Prelude\<close>: C integers (\<^verbatim>\<open>int\<close> as \<open>int\<close> with \<open>swrap\<close>, \<^verbatim>\<open>uint\<close> as \<open>32 word\<close>), scans and
  updates of fixed-size tables (\<open>table_simps\<close>), strings in buffers (\<open>buf_simps\<close>), and two locales:
  \<open>transition_system\<close> (an invariant of reachable states) and, extending it, \<open>simulation\<close> (each step
  is a step of an abstract system or invisible there).

  \<^bold>\<open>Processes and scheduler.\<close> \<open>Proc\<close> models \<^verbatim>\<open>proc.h\<close> and every function of \<^verbatim>\<open>proc.c\<close>. The process table is a
  list, a process pointer an index, the rest of the kernel the record \<open>kenv\<close> of functions on an
  opaque state. An operation runs to the point where it calls \<^verbatim>\<open>swtch\<close>; where it will continue is
  the field \<open>p_kcont\<close>, and the second half is an operation of its own (\<open>sleep_resume\<close>,
  \<open>yield_resume\<close>, \<open>wait_resume\<close>, \<open>scheduler_return\<close>). Panics are values of \<open>kerror\<close>. \<open>Proc_Effects\<close>
  describes what each operation leaves in the table. \<open>Kernel\<close> puts the operations
  together as the step relation \<open>kstep\<close> of a machine with any number of processors (exit, wait,
  sleep, wakeup, kill, yield, sbrk, settickets, dispatch with the code the process resumes, user
  code and external code; and the two halves of fork, between which the lock is free)
  and proves the invariant \<open>kinv\<close> for the operations. \<open>Kernel_Steps\<close> says what a step may do to a slot,
  adds what holds of the processes inside fork and of the embryos, and interprets
  \<open>transition_system\<close> as \<open>kern\<close>, which gives the invariant for all interleavings, and that values keep their C types.
  \<open>Kernel_Props\<close>: no return behind \<^verbatim>\<open>exit\<close>, the effects of fork, exit and wait on every branch. \<open>Lottery\<close> and \<open>Sched_Props\<close>: which process a draw selects, the share of each process,
  starvation, \<^verbatim>\<open>kill\<close>, the layout of a kernel stack. \<open>Lifecycle\<close>: the abstract life cycle of a slot
  (\<open>life_step\<close>) and the refinement \<open>kern_life\<close>. \<open>Wakeup\<close>: a parent asleep in \<^verbatim>\<open>wait\<close> is woken by the exit of its child, and
  until it is dispatched nobody else frees the child (\<open>owed\<close>).

  \<^bold>\<open>System calls.\<close> \<open>Syscall\<close> models \<^verbatim>\<open>syscall.c\<close>, \<^verbatim>\<open>syscall.h\<close> and \<^verbatim>\<open>sysproc.c\<close>: fetching integers, strings and
  pointers from user memory, the handlers over the operations of \<open>Proc\<close>, and the dispatch on
  \<^verbatim>\<open>eax\<close>. \<open>Syscall_Props\<close>: bounds of the fetches, the dispatch, the duration of a sleep, the break.
  \<open>Syscall_Kernel\<close> states the contract of a handler as the locale \<open>kernel_call\<close>, interpreted for each of
  them; this theory concludes that every system call is a run of the kernel. \<open>Usys\<close> models the user side,
  the stubs of \<^verbatim>\<open>usys.S\<close>, the prototypes of \<^verbatim>\<open>user.h\<close> and the stack of a C call (\<open>ucall\<close>): what the kernel
  fetches is what the program passed.

  \<^bold>\<open>Lottery test.\<close> \<open>Lottery_Test\<close> models \<^verbatim>\<open>lotterytest.c\<close> as the tree of the calls it makes (\<open>ucode\<close>) and the machine
  (\<open>ustep\<close>) on which its processes run beside any others, each step a step of the kernel or
  invisible to it (\<open>ltest\<close>). \<open>Lottery_Test_Props\<close>: the children hold the tickets they report, what is
  printed, the length of the loop, and a run up to the point where both children compete. \<open>Lottery_Wait\<close>:
  the parent exits only after its children are gone, by counting its children in the table against the
  calls of \<^verbatim>\<open>wait\<close> left in its code (\<open>reaps\<close>, \<open>family\<close>), and a run to its end.

  \<^bold>\<open>Shell.\<close> \<open>Shell_Parse\<close> models the parser of \<^verbatim>\<open>shell.c\<close> and \<open>Shell_Grammar\<close> shows that it decides a
  grammar given by its own derivations, with the errors it can report and that a printed
  command parses back. \<open>Shell_Run\<close> models \<^verbatim>\<open>runcmd\<close> on descriptor tables, \<^verbatim>\<open>getcmd\<close> and \<^verbatim>\<open>main\<close>: the wiring
  of redirections and of pipelines of any length, and how the input is cut into lines.

  \<^bold>\<open>Hash tables.\<close> \<open>Hashtable\<close> models \<^verbatim>\<open>insert\<close> and \<^verbatim>\<open>put_phase\<close> at the granularity of loads, stores and lock
  operations, \<^verbatim>\<open>retrieve\<close> and \<^verbatim>\<open>get_phase\<close>. The locale \<open>lock_discipline\<close> of \<open>Hashtable_Props\<close> says what a
  choice of locks must satisfy, and is interpreted for the mutexes and the spinlock: no key is
  lost, no deadlock, every step lowers a weight. \<open>Hashtable_Main\<close> refines the put phase to atomic insertions (\<open>mutex_ref\<close>, \<open>spin_ref\<close>) and models
  \<^verbatim>\<open>main\<close>: under every fair schedule the locked programs end and report all keys. \<open>Hashtable_Race\<close>: the program
  without locks can lose any key that shares its bucket with a key of another thread.

  \<^bold>\<open>uniq.\<close> \<open>Uniq\<close> models \<^verbatim>\<open>uniq.c\<close>, with the arrays of \<^verbatim>\<open>string_compare\<close> in an explicit stack because they
  are one byte too short. \<open>Uniq_Props\<close>: the comparison, and the whole program as a function of
  the lines of the file. What it prints depends on bytes behind its arrays, so the theorems assume, and say, what
  they hold: NUL behind \<^verbatim>\<open>one_bit\<close>, and behind the arrays of \<^verbatim>\<open>string_compare\<close> no byte of the other array (\<open>apart\<close>) and,
  with \<^verbatim>\<open>-i\<close>, NUL (\<open>zero_behind\<close>), for the lines of the file (\<open>frames_ok\<close>). A third claim shows that adjacent
  arrays make every comparison fail.

  \<^bold>\<open>Disk programs.\<close> \<open>DiskIO\<close> models the reads, writes and seeks and the command lines, \<open>Disk_Props\<close> shows that
  the readers agree (locale \<open>xor_reader\<close>), \<open>Disk_Main\<close> runs the programs on
  files with modes (locale \<open>disk_writer\<close> for the four that write). \<open>Disk_Bench\<close> models the C++
  benchmark in a process with finitely many descriptors, for any numbers of iterations.

  \<^bold>\<open>Bounds.\<close> Each operation of the kernel up to its \<^verbatim>\<open>swtch\<close> is one step of \<open>kstep\<close>, fork is two (what it
  writes in between goes to its own slot); allocating needs a pid counter below the largest \<^verbatim>\<open>int\<close>. The theorems on the lottery need tickets whose sum stays in an
  \<^verbatim>\<open>int\<close>; those on the hash table that number of keys plus number of threads does (\<open>ht_ok\<close>), and a
  schedule of \<open>n * (5 * (100000 + n) + 5) + 1\<close> rounds is enough because a step lowers a weight that
  starts below it. \<^verbatim>\<open>uniq\<close> lines have at most 1022 characters, shell lines 98, the sizes of the
  buffers. A read or write transfers at most \<open>MAX_RW\<close> bytes, the limit of Linux; the
  threads of \<^verbatim>\<open>run_multithreaded\<close> keep \<^verbatim>\<open>count\<close> as an \<^verbatim>\<open>int\<close> that wraps and the offset as a \<open>64 word\<close>, so their theorem needs a number of
  threads whose product with the block size is an \<^verbatim>\<open>int\<close> and at most \<^verbatim>\<open>INT_MAX\<close> blocks per thread; \<^verbatim>\<open>atoi\<close> is that of the
  GNU library, which truncates to \<^verbatim>\<open>int\<close>. The loops that may not end, \<open>lseek_loop\<close>, \<open>thread_loop\<close> and \<open>strcmp_eq\<close>, are option-valued
  partial functions; all other loops are total.

  \<^bold>\<open>Not modelled.\<close> Timing and its output; prompts; failures of \<^verbatim>\<open>pthread_create\<close>; writes shorter than that limit;
  errors of \<^verbatim>\<open>read\<close> on an open file; memory that runs out, also on the stack under large arrays; writes of \<^verbatim>\<open>string_compare\<close> to stack contents other
  than its arrays; the store of the result in \<^verbatim>\<open>eax\<close> when a system call that slept returns later (its result is the value of \<open>resume\<close>); \<^verbatim>\<open>defs.h\<close> and the Makefile
  (declarations and build); the prototypes of \<^verbatim>\<open>ulib.c\<close> in \<^verbatim>\<open>user.h\<close>; \<^verbatim>\<open>sysfile.c\<close>, an empty file; the benchmark library and the Python scripts
  that measure.
\<close>

section \<open>The kernel under its system calls\<close>

text \<open>
  C6. Every system call of \<^verbatim>\<open>sysproc.c\<close>, from its arguments in user memory to its result in \<^verbatim>\<open>eax\<close>, is a run of
  the kernel: taken in a reachable configuration by the process on a processor, it leads to
  a reachable configuration, so all invariants hold again. If it returns, the caller is
  still running on its processor and finds the result in \<^verbatim>\<open>eax\<close>; a call with an unknown number
  returns -1 there.
\<close>

theorem syscalls_run_kernel:
  assumes "kinit E z0" and "(kstep E)\<^sup>*\<^sup>* z0 (s, fk)" and "cpu_proc s c = Some me" and "fk me = None"
    and "nextpid s < INT_MAX" and "\<forall>n. sint (tf_eax (p_tf (ptable s ! me))) = sysno_num n \<longrightarrow> n \<in> set process_calls"
    and "syscall E H me s = Inr (r, out, t)"
  shows "(kstep E)\<^sup>*\<^sup>* z0 (settled E c r t, fk) \<and> kinv (settled E c r t) \<and>
    (\<forall>v. r = WReturn v \<longrightarrow> cpu_proc t c = Some me \<and> p_state (ptable t ! me) = RUNNING \<and>
       tf_eax (p_tf (ptable t ! me)) = word_of_int v)"
proof -
  have k: "kinv s" using reachable_kinv[OF assms(1,2)] by simp
  note run = syscall_run[where fk = fk, OF k assms(3-7)]
  have reach: "(kstep E)\<^sup>*\<^sup>* z0 (settled E c r t, fk)" using assms(2) run(1) by (rule rtranclp_trans)
  have inv: "kinv (settled E c r t)" using reachable_kinv[OF assms(1) reach] by simp
  have "cpu_proc t c = Some me \<and> p_state (ptable t ! me) = RUNNING \<and> tf_eax (p_tf (ptable t ! me)) = word_of_int v"
    if r: "r = WReturn v" for v
  proof -
    obtain u where cpu: "cpu_proc t = cpu_proc s" and u: "t = set_eax me v u" using run(2)[OF r] by blast
    have c: "cpu_proc t c = Some me" using cpu assms(3) by simp
    have "kinv t" using inv r by simp
    note me = kinv_current[OF this c]
    have "me < length (ptable u)" using me(1) u by simp
    then show ?thesis using c me(2) u by simp
  qed
  then show ?thesis using reach inv by blast
qed

text \<open>The first process of the simulated machine forks through the system call.\<close>

definition sim_call :: "sim kstate" where
  "sim_call = set_eax 0 1 sim_run"

theorem syscalls_run_kernel_witness:
  "\<exists>t. syscall sim_env (\<lambda>n me s. ret (- 1, s)) 0 sim_call = Inr (WReturn 2, [], t) \<and> kinv t \<and>
     tf_eax (p_tf (ptable t ! 0)) = 2"
proof -
  have h: "cpu_proc sim_run 0 = Some 0" "cpu_proc sim_call 0 = Some 0" "nextpid sim_call < INT_MAX"
    "sint (tf_eax (p_tf (ptable sim_call ! 0))) = sysno_num SYS_fork" "SYS_fork \<in> set process_calls"
    "fst (fork sim_env 0 sim_call) = 2" by code_simp+
  have r: "(kstep sim_env)\<^sup>*\<^sup>* (sim_boot, Map.empty) (sim_call, Map.empty)"
    unfolding sim_call_def
    by (rule converse_rtranclp_into_rtranclp[of "kstep sim_env", OF sim_dispatch eax_step[where fk = Map.empty, OF h(1)]]) simp
  have own: "\<forall>n. sint (tf_eax (p_tf (ptable sim_call ! 0))) = sysno_num n \<longrightarrow> n \<in> set process_calls"
    using h(4,5) by (metis lookup_syscall_iff option.inject)
  have l: "lookup_syscall (sint (tf_eax (p_tf (ptable sim_call ! 0)))) = Some SYS_fork" using h(4) by (simp add: lookup_syscall_iff)
  have s: "syscall sim_env (\<lambda>n me s. ret (- 1, s)) 0 sim_call =
      Inr (WReturn 2, [], set_eax 0 2 (snd (fork sim_env 0 sim_call)))"
    unfolding syscall_def Let_def l using h(6) by (simp add: sys_fork_def ret_def)
  show ?thesis using syscalls_run_kernel[where fk = Map.empty, OF sim_init r h(2) _ h(3) own s] s by auto
qed

end
